(* ===== verification/Go_Prelude.thy ===== *)
theory Go_Prelude
  imports Complex_Main "HOL-Library.Char_ord" "HOL-Library.List_Lexorder" "HOL-Library.AList"
    "HOL-Library.Multiset"
begin

text \<open>
  Shared ground of the development: the parts of Go's language and standard library the
  program uses over and over. A Go \<open>string\<close> is a sequence of bytes, so it is a HOL
  \<^typ>\<open>string\<close> (a list of 8-bit characters) ordered byte by byte; white space is the
  ASCII one. A Go \<open>map[string]T\<close> is an association list with distinct keys, so that a
  \<open>range\<close> over it is a traversal in \<^emph>\<open>some\<close> order. A Go \<open>int\<close> counter is an \<^typ>\<open>int\<close>;
  the two places where 64 bits matter (the range check of \<open>strconv.Atoi\<close>, and byte sizes) write
  the bound out.
\<close>

named_theorems go_simps \<open>unfolding rules of the modelled string and map operations\<close>
named_theorems go_intros \<open>preservation rules shared by the component invariants\<close>

subsection \<open>strings\<close>

definition has_prefix :: "string \<Rightarrow> string \<Rightarrow> bool" where
  "has_prefix s p \<longleftrightarrow> take (length p) s = p"

definition has_suffix :: "string \<Rightarrow> string \<Rightarrow> bool" where
  "has_suffix s p \<longleftrightarrow> has_prefix (rev s) (rev p)"

fun contains :: "string \<Rightarrow> string \<Rightarrow> bool" where
  "contains [] p = (p = [])"
| "contains (c # s) p = (has_prefix (c # s) p \<or> contains s p)"

definition trim_prefix :: "string \<Rightarrow> string \<Rightarrow> string" where
  "trim_prefix s p = (if has_prefix s p then drop (length p) s else s)"

definition trim_suffix :: "string \<Rightarrow> string \<Rightarrow> string" where
  "trim_suffix s p = (if has_suffix s p then take (length s - length p) s else s)"

text \<open>\<open>strings.Split\<close> at a one-byte separator, and \<open>strings.Join\<close>.\<close>

fun split_at :: "char \<Rightarrow> string \<Rightarrow> string list" where
  "split_at c [] = [[]]"
| "split_at c (x # xs) =
     (if x = c then [] # split_at c xs
      else (case split_at c xs of [] \<Rightarrow> [[x]] | y # ys \<Rightarrow> (x # y) # ys))"

fun join :: "string \<Rightarrow> string list \<Rightarrow> string" where
  "join sep [] = []"
| "join sep [x] = x"
| "join sep (x # y # ys) = x @ sep @ join sep (y # ys)"

definition is_space :: "char \<Rightarrow> bool" where
  "is_space c \<longleftrightarrow> c \<in> {CHR '' '', CHR 0x09, CHR 0x0A, CHR 0x0B, CHR 0x0C, CHR 0x0D}"

definition trim_by :: "(char \<Rightarrow> bool) \<Rightarrow> string \<Rightarrow> string" where
  "trim_by P s = rev (dropWhile P (rev (dropWhile P s)))"

abbreviation trim_space :: "string \<Rightarrow> string" where
  "trim_space \<equiv> trim_by is_space"

text \<open>\<open>strings.Trim\<close> with a cutset.\<close>

definition trim_cutset :: "string \<Rightarrow> string \<Rightarrow> string" where
  "trim_cutset s cs = trim_by (\<lambda>c. c \<in> set cs) s"

text \<open>\<open>strings.Cut\<close> at a one-byte separator: what is before and after, when there is one.\<close>

definition cut_at :: "char \<Rightarrow> string \<Rightarrow> (string \<times> string) option" where
  "cut_at c s =
     (case dropWhile (\<lambda>x. x \<noteq> c) s of
        [] \<Rightarrow> None
      | _ # rest \<Rightarrow> Some (takeWhile (\<lambda>x. x \<noteq> c) s, rest))"

text \<open>\<open>strings.Fields\<close>: the maximal runs of bytes that are not white space.\<close>

definition fields :: "string \<Rightarrow> string list" where
  "fields s = filter (\<lambda>w. w \<noteq> []) (split_at CHR '' '' (map (\<lambda>c. if is_space c then CHR '' '' else c) s))"

fun last_index :: "char \<Rightarrow> string \<Rightarrow> nat option" where
  "last_index c [] = None"
| "last_index c (x # xs) =
     (case last_index c xs of Some i \<Rightarrow> Some (Suc i) | None \<Rightarrow> if x = c then Some 0 else None)"

abbreviation newline :: char where "newline \<equiv> CHR 0x0A"
abbreviation tab :: char where "tab \<equiv> CHR 0x09"

text \<open>
  Lines as \<open>bufio.Scanner\<close> with its default split function delivers them: cut at every newline,
  a trailing carriage return dropped, no token for the empty rest after the last newline.
\<close>

definition drop_cr :: "string \<Rightarrow> string" where
  "drop_cr s = (if s \<noteq> [] \<and> last s = CHR 0x0D then butlast s else s)"

definition scan_lines :: "string \<Rightarrow> string list" where
  "scan_lines s =
     (let ls = split_at newline s
      in map drop_cr (if last ls = [] then butlast ls else ls))"

lemma has_prefix_Nil [simp]: "has_prefix s []"
  by (simp add: has_prefix_def)

lemma has_prefix_Cons [simp]:
  "has_prefix (c # s) (d # p) \<longleftrightarrow> c = d \<and> has_prefix s p"
  "\<not> has_prefix [] (d # p)"
  by (auto simp: has_prefix_def)

lemma has_prefix_append [simp]: "has_prefix (p @ s) p"
  by (simp add: has_prefix_def)

lemma has_prefix_iff: "has_prefix s p \<longleftrightarrow> (\<exists>r. s = p @ r)"
  by (metis append_eq_conv_conj has_prefix_def has_prefix_append)

lemma has_suffix_append [simp]: "has_suffix (s @ p) p"
  by (simp add: has_suffix_def)

lemma has_suffix_iff: "has_suffix s p \<longleftrightarrow> (\<exists>r. s = r @ p)"
  by (metis has_prefix_iff has_suffix_def rev_append rev_rev_ident)

lemma contains_iff: "contains s p \<longleftrightarrow> (\<exists>u v. s = u @ p @ v)"
proof (induction s)
  case (Cons c s)
  note IH = Cons.IH
  show ?case
  proof
    assume "contains (c # s) p"
    then show "\<exists>u v. c # s = u @ p @ v"
      using Cons has_prefix_iff by (metis append_Cons append_Nil contains.simps(2))
  next
    assume "\<exists>u v. c # s = u @ p @ v"
    then obtain u v where "c # s = u @ p @ v" by blast
    then show "contains (c # s) p"
    proof (cases u)
      case Nil
      with \<open>c # s = u @ p @ v\<close> have "has_prefix (c # s) p" by simp
      then show ?thesis by simp
    next
      case (Cons d u')
      with \<open>c # s = u @ p @ v\<close> have "s = u' @ p @ v" by simp
      then have "contains s p" using IH by blast
      then show ?thesis by simp
    qed
  qed
qed simp

lemma contains_append: "contains s p \<Longrightarrow> contains (u @ s @ v) p"
  by (metis append.assoc contains_iff)

lemma contains_trans: "contains s (u @ p @ v) \<Longrightarrow> contains s p"
  by (metis append.assoc contains_iff)

lemma split_at_ne [simp]: "split_at c s \<noteq> []"
  by (induction s) (auto split: list.splits)

lemma join_Cons: "xs \<noteq> [] \<Longrightarrow> join sep (x # xs) = x @ sep @ join sep xs"
  by (cases xs) auto

lemma join_Cons_Cons: "join sep ((c # x) # xs) = c # join sep (x # xs)"
  by (cases xs) auto

lemma join_split_at: "join [c] (split_at c s) = s"
proof (induction s)
  case (Cons x xs)
  obtain y ys where "split_at c xs = y # ys"
    by (cases "split_at c xs") auto
  with Cons show ?case
    by (auto simp: join_Cons_Cons join_Cons)
qed simp

lemma split_at_no_sep: "\<forall>w \<in> set (split_at c s). c \<notin> set w"
  by (induction s) (auto split: list.splits)

lemma split_at_free: "c \<notin> set s \<Longrightarrow> split_at c s = [s]"
  by (induction s) auto

lemma split_at_append: "c \<notin> set s \<Longrightarrow> split_at c (s @ c # t) = s # split_at c t"
  by (induction s) auto

lemma split_at_join:
  "xs \<noteq> [] \<Longrightarrow> \<forall>w \<in> set xs. c \<notin> set w \<Longrightarrow> split_at c (join [c] xs) = xs"
proof (induction xs)
  case (Cons x xs)
  show ?case
  proof (cases "xs = []")
    case True
    with Cons.prems show ?thesis by (simp add: split_at_free)
  next
    case False
    with Cons show ?thesis by (simp add: join_Cons split_at_append)
  qed
qed simp

lemma split_at_snoc:
  "split_at c (s @ t) = butlast (split_at c s) @ (last (split_at c s) @ hd (split_at c t)) # tl (split_at c t)"
proof (induction s)
  case Nil
  show ?case by (cases "split_at c t") auto
next
  case (Cons x s)
  show ?case
  proof (cases "x = c")
    case True
    with Cons show ?thesis by simp
  next
    case False
    obtain y ys where y: "split_at c s = y # ys"
      by (cases "split_at c s") auto
    with False Cons show ?thesis by (cases ys) auto
  qed
qed

lemma set_trim_by: "set (trim_by P s) \<subseteq> set s"
  unfolding trim_by_def by (metis set_dropWhileD set_rev subsetI)

lemma trim_last:
  assumes "s \<noteq> []" and "\<not> P (last s)"
  shows "last (trim_by P s) = last s"
proof -
  have ne: "dropWhile P s \<noteq> []" using assms by (metis dropWhile_eq_Nil_conv last_in_set)
  have "s = takeWhile P s @ dropWhile P s" by simp
  then have l: "last (dropWhile P s) = last s" using ne by (metis last_appendR)
  then have "dropWhile P (rev (dropWhile P s)) = rev (dropWhile P s)"
    using ne assms(2) by (cases "dropWhile P s" rule: rev_cases) auto
  then show ?thesis using l by (simp add: trim_by_def)
qed

lemma contains_sub: "contains s p \<Longrightarrow> set p \<subseteq> set s"
  by (auto simp: contains_iff)

text \<open>A text written line by line is read back line by line.\<close>

definition unlines :: "string list \<Rightarrow> string" where
  "unlines ls = concat (map (\<lambda>l. l @ [newline]) ls)"

lemma split_at_unlines: "\<forall>l \<in> set ls. newline \<notin> set l \<Longrightarrow> split_at newline (unlines ls) = ls @ [[]]"
  by (induction ls) (simp_all add: unlines_def split_at_append)

lemma scan_lines_unlines:
  assumes "\<forall>l \<in> set ls. set l \<inter> {newline, CHR 0x0D} = {}"
  shows "scan_lines (unlines ls) = ls"
proof -
  have "map drop_cr ls = ls"
    using assms by (intro map_idI) (metis drop_cr_def disjoint_iff insertCI last_in_set)
  then show ?thesis using assms by (simp add: scan_lines_def split_at_unlines)
qed

lemma contains_trim_by: "contains (trim_by P s) w \<Longrightarrow> contains s w"
proof -
  assume c: "contains (trim_by P s) w"
  have "s = takeWhile P s @ trim_by P s @ rev (takeWhile P (rev (dropWhile P s)))"
    unfolding trim_by_def by (metis rev_append rev_rev_ident takeWhile_dropWhile_id)
  with c show ?thesis by (metis contains_append)
qed

lemma map_filter_append: "List.map_filter f (xs @ ys) = List.map_filter f xs @ List.map_filter f ys"
  by (simp add: List.map_filter_def)

lemma join_sub: "w \<in> set ws \<Longrightarrow> set w \<subseteq> set (join sep ws)"
  by (induction sep ws rule: join.induct) auto

lemma split_at_sub: "w \<in> set (split_at c s) \<Longrightarrow> set w \<subseteq> set s"
  using join_sub [of w "split_at c s" "[c]"] by (simp add: join_split_at)

lemma scan_lines_sub: "l \<in> set (scan_lines s) \<Longrightarrow> set l \<subseteq> set s"
proof -
  assume "l \<in> set (scan_lines s)"
  then obtain w where w: "w \<in> set (split_at newline s)" "l = drop_cr w"
    by (auto simp: scan_lines_def Let_def dest: in_set_butlastD split: if_splits)
  then have "set l \<subseteq> set w" by (auto simp: drop_cr_def dest: in_set_butlastD)
  with split_at_sub [OF w(1)] show ?thesis by blast
qed

lemma sort_key_unique:
  fixes key :: "'a \<Rightarrow> 'k::linorder"
  assumes "mset xs = mset ys" and "inj_on key (set xs)"
  shows "sort_key key xs = sort_key key ys"
  by (rule sort_key_inj_key_eq) (use assms in auto)

lemma sort_same_set:
  fixes xs ys :: "'a :: linorder list"
  assumes "distinct xs" and "set xs = set ys"
  shows "sort xs = sort (remdups ys)"
  by (rule sorted_distinct_set_unique) (use assms in auto)

lemma trim_by_id:
  "s = [] \<or> \<not> P (hd s) \<and> \<not> P (last s) \<Longrightarrow> trim_by P s = s"
proof (cases "s = []")
  case False
  assume "s = [] \<or> \<not> P (hd s) \<and> \<not> P (last s)"
  with False have "\<not> P (hd s)" "\<not> P (hd (rev s))" by (simp_all add: hd_rev)
  then have "dropWhile P s = s" "dropWhile P (rev s) = rev s"
    by (metis dropWhile_eq_self_iff)+
  then show ?thesis by (simp add: trim_by_def)
qed (simp add: trim_by_def)

lemma hd_dropWhile_not: "dropWhile P s \<noteq> [] \<Longrightarrow> \<not> P (hd (dropWhile P s))"
  by (induction s) auto

lemma dropWhile_rev_keeps_hd:
  assumes "rev (dropWhile P (rev t)) \<noteq> []"
  shows "hd (rev (dropWhile P (rev t))) = hd t"
proof -
  have "t = rev (dropWhile P (rev t)) @ rev (takeWhile P (rev t))"
    by (metis rev_append rev_rev_ident takeWhile_dropWhile_id)
  then show ?thesis using assms by (metis hd_append2)
qed

lemma trim_by_trimmed:
  "trim_by P s = [] \<or> \<not> P (hd (trim_by P s)) \<and> \<not> P (last (trim_by P s))"
proof (cases "trim_by P s = []")
  case False
  let ?t = "dropWhile P s"
  have "hd (trim_by P s) = hd ?t"
    using False unfolding trim_by_def by (rule dropWhile_rev_keeps_hd)
  moreover have t: "?t \<noteq> []" and r: "dropWhile P (rev ?t) \<noteq> []"
    using False by (auto simp only: trim_by_def rev.simps dropWhile.simps rev_is_Nil_conv)
  moreover have "last (trim_by P s) = hd (dropWhile P (rev ?t))"
    using False by (simp add: trim_by_def last_rev)
  ultimately show ?thesis
    using hd_dropWhile_not [OF t] hd_dropWhile_not [OF r] by metis
qed simp

lemma trim_by_idem [simp]: "trim_by P (trim_by P s) = trim_by P s"
  by (rule trim_by_id) (rule trim_by_trimmed)

lemma cut_at_None: "cut_at c s = None \<longleftrightarrow> c \<notin> set s"
proof -
  have "cut_at c s = None \<longleftrightarrow> dropWhile (\<lambda>x. x \<noteq> c) s = []"
    by (cases "dropWhile (\<lambda>x. x \<noteq> c) s") (simp_all only: cut_at_def list.simps option.simps simp_thms)
  also have "\<dots> \<longleftrightarrow> c \<notin> set s" by (auto simp: dropWhile_eq_Nil_conv)
  finally show ?thesis .
qed

lemma cut_at_Some: "cut_at c s = Some (k, v) \<longleftrightarrow> s = k @ c # v \<and> c \<notin> set k"
proof
  assume a: "cut_at c s = Some (k, v)"
  then obtain x where d: "dropWhile (\<lambda>x. x \<noteq> c) s = x # v" and k: "k = takeWhile (\<lambda>x. x \<noteq> c) s"
    by (auto simp: cut_at_def split: list.splits)
  have "x = c" using hd_dropWhile_not [of "\<lambda>x. x \<noteq> c" s] d by simp
  then show "s = k @ c # v \<and> c \<notin> set k"
    using d k by (metis (full_types) set_takeWhileD takeWhile_dropWhile_id)
next
  assume a: "s = k @ c # v \<and> c \<notin> set k"
  then have "dropWhile (\<lambda>x. x \<noteq> c) s = c # v" "takeWhile (\<lambda>x. x \<noteq> c) s = k"
    by (auto simp: dropWhile_append3 takeWhile_tail)
  then show "cut_at c s = Some (k, v)" by (simp add: cut_at_def)
qed

subsection \<open>decimal numbers\<close>

definition max_int64 :: int where "max_int64 = 2 ^ 63 - 1"

text \<open>Integer division truncates toward zero.\<close>

definition quot :: "int \<Rightarrow> int \<Rightarrow> int" where
  "quot a b = sgn a * sgn b * (\<bar>a\<bar> div \<bar>b\<bar>)"

definition digit_char :: "nat \<Rightarrow> char" where
  "digit_char n = char_of (48 + n)"

definition is_digit :: "char \<Rightarrow> bool" where
  "is_digit c \<longleftrightarrow> 48 \<le> (of_char c :: nat) \<and> (of_char c :: nat) \<le> 57"

definition digit_val :: "char \<Rightarrow> nat" where
  "digit_val c = of_char c - 48"

fun nat_dec :: "nat \<Rightarrow> string" where
  "nat_dec n = (if n < 10 then [digit_char n] else nat_dec (n div 10) @ [digit_char (n mod 10)])"

declare nat_dec.simps [simp del]

text \<open>\<open>strconv.Itoa\<close> and the verb \<open>%d\<close>.\<close>

definition itoa :: "int \<Rightarrow> string" where
  "itoa i = (if i < 0 then CHR ''-'' # nat_dec (nat (- i)) else nat_dec (nat i))"

definition dec_val :: "string \<Rightarrow> nat" where
  "dec_val = foldl (\<lambda>a c. 10 * a + digit_val c) 0"

text \<open>
  \<open>strconv.Atoi\<close>: an optional sign and at least one digit. The second component says whether
  the error is nil; out of range the value is the nearest bound, on a syntax error it is 0.
\<close>

definition atoi :: "string \<Rightarrow> int \<times> bool" where
  "atoi s =
     (let neg = (s \<noteq> [] \<and> hd s = CHR ''-'');
          ds = (if s \<noteq> [] \<and> (hd s = CHR ''-'' \<or> hd s = CHR ''+'') then tl s else s)
      in if ds = [] \<or> \<not> list_all is_digit ds then (0, False)
         else let v = (if neg then - int (dec_val ds) else int (dec_val ds))
              in if v > max_int64 then (max_int64, False)
                 else if v < - max_int64 - 1 then (- max_int64 - 1, False)
                 else (v, True))"

lemma of_char_digit_char: "n < 10 \<Longrightarrow> (of_char (digit_char n) :: nat) = 48 + n"
  by (simp add: digit_char_def)

lemma is_digit_digit_char [simp]: "n < 10 \<Longrightarrow> is_digit (digit_char n)"
  by (simp add: is_digit_def of_char_digit_char)

lemma digit_val_digit_char [simp]: "n < 10 \<Longrightarrow> digit_val (digit_char n) = n"
  by (simp add: digit_val_def of_char_digit_char)

lemma nat_dec_ne [simp]: "nat_dec n \<noteq> []"
  by (subst nat_dec.simps) simp

lemma nat_dec_digits [simp]: "list_all is_digit (nat_dec n)"
proof (induction n rule: nat_dec.induct)
  case (1 n)
  then show ?case by (subst nat_dec.simps) auto
qed

lemma dec_val_snoc: "dec_val (s @ [c]) = 10 * dec_val s + digit_val c"
  by (simp add: dec_val_def)

lemma dec_val_nat_dec [simp]: "dec_val (nat_dec n) = n"
proof (induction n rule: nat_dec.induct)
  case (1 n)
  show ?case
  proof (cases "n < 10")
    case True
    then show ?thesis by (subst nat_dec.simps) (simp add: dec_val_def)
  next
    case False
    with 1 show ?thesis by (subst nat_dec.simps) (simp add: dec_val_snoc)
  qed
qed

lemma is_digit_not [simp]:
  "\<not> is_digit CHR ''-''" "\<not> is_digit CHR ''+''" "\<not> is_digit newline" "\<not> is_digit tab"
  "\<not> is_digit CHR '' ''" "\<not> is_digit CHR 0x0B" "\<not> is_digit CHR 0x0C" "\<not> is_digit CHR 0x0D"
  "\<not> is_digit CHR ''#''" "\<not> is_digit CHR ''=''"
  by (simp_all add: is_digit_def)

lemma is_space_not_digit: "is_space c \<Longrightarrow> \<not> is_digit c"
  by (auto simp: is_space_def is_digit_def)

lemma digits_hd: "list_all is_digit s \<Longrightarrow> s \<noteq> [] \<Longrightarrow> is_digit (hd s)"
  by (cases s) auto

lemma digits_last: "list_all is_digit s \<Longrightarrow> s \<noteq> [] \<Longrightarrow> is_digit (last s)"
  by (simp add: list_all_iff)

lemma atoi_digits:
  "list_all is_digit s \<Longrightarrow> s \<noteq> [] \<Longrightarrow>
   atoi s = (if int (dec_val s) > max_int64 then (max_int64, False) else (int (dec_val s), True))"
  using digits_hd [of s] by (auto simp: atoi_def Let_def max_int64_def)

lemma atoi_itoa:
  assumes "- max_int64 - 1 \<le> i" and "i \<le> max_int64"
  shows "atoi (itoa i) = (i, True)"
proof (cases "i < 0")
  case True
  with assms show ?thesis by (auto simp: itoa_def atoi_def Let_def)
next
  case False
  with assms show ?thesis by (simp add: itoa_def atoi_digits)
qed

lemma atoi_nonneg: "list_all is_digit s \<Longrightarrow> 0 \<le> fst (atoi s)"
  by (cases "s = []") (auto simp: atoi_digits max_int64_def, simp add: atoi_def)

lemma itoa_ne [simp]: "itoa i \<noteq> []"
  by (simp add: itoa_def)

lemma set_itoa: "set (itoa i) \<subseteq> {c. is_digit c \<or> c = CHR ''-''}"
  using nat_dec_digits by (auto simp: itoa_def list_all_iff)

lemma trim_itoa [simp]: "trim_space (itoa i) = itoa i"
proof (rule trim_by_id)
  have "\<forall>c \<in> set (itoa i). \<not> is_space c"
  proof
    fix c assume "c \<in> set (itoa i)"
    then have "is_digit c \<or> c = CHR ''-''" using set_itoa by blast
    then show "\<not> is_space c" by (auto dest: is_space_not_digit simp: is_space_def)
  qed
  then show "itoa i = [] \<or> \<not> is_space (hd (itoa i)) \<and> \<not> is_space (last (itoa i))"
    by simp
qed

end
