(* ===== verification/Go_Map.thy ===== *)
theory Go_Map
  imports Go_Prelude
begin

text \<open>
  The contract of a Go map, as a locale (what a lookup returns after a store or a delete, what
  \<open>range\<close> visits), the facts its clients use, and its interpretation on association lists, the
  representation of every map of this development.
\<close>

locale keyed_store =
  fixes get :: "'s \<Rightarrow> 'k \<Rightarrow> 'v option"
    and put :: "'k \<Rightarrow> 'v \<Rightarrow> 's \<Rightarrow> 's"
    and del :: "'k \<Rightarrow> 's \<Rightarrow> 's"
    and keys :: "'s \<Rightarrow> 'k list"
    and ok :: "'s \<Rightarrow> bool"
  assumes get_put: "get (put k v s) = (get s)(k \<mapsto> v)"
    and get_del: "get (del k s) = (get s)(k := None)"
    and set_keys: "set (keys s) = dom (get s)"
    and distinct_keys: "ok s \<Longrightarrow> distinct (keys s)"
    and ok_put: "ok s \<Longrightarrow> ok (put k v s)"
    and ok_del: "ok s \<Longrightarrow> ok (del k s)"
begin

lemma ok_fold_put: "ok s \<Longrightarrow> ok (fold (\<lambda>x s. put (f x) (g x s) s) xs s)"
  by (induction xs arbitrary: s) (auto intro: ok_put)

text \<open>A loop that stores under the keys \<open>f x\<close> leaves every other key alone.\<close>

lemma fold_put_frame:
  "k \<notin> f ` set xs \<Longrightarrow> get (fold (\<lambda>x s. put (f x) (g x s) s) xs s) k = get s k"
  by (induction xs arbitrary: s) (auto simp: get_put)

lemma fold_put_dom:
  "dom (get (fold (\<lambda>x s. put (f x) (g x s) s) xs s)) = dom (get s) \<union> f ` set xs"
  by (induction xs arbitrary: s) (auto simp: get_put)

lemma fold_put_last:
  "get (fold (\<lambda>x s. put (f x) (g x) s) xs s) k =
     (case filter (\<lambda>x. f x = k) (rev xs) of [] \<Rightarrow> get s k | x # _ \<Rightarrow> Some (g x))"
  by (induction xs rule: rev_induct) (auto simp: get_put split: list.splits)

end

text \<open>A store of numbers read with Go's zero value: a missing key counts 0.\<close>

locale tally_store = keyed_store get put del keys ok
  for get :: "'s \<Rightarrow> 'k \<Rightarrow> int option" and put del keys ok +
  fixes num :: "'s \<Rightarrow> 'k \<Rightarrow> int"
    and bump :: "'k \<Rightarrow> int \<Rightarrow> 's \<Rightarrow> 's"
  assumes num_get: "num s k = (case get s k of None \<Rightarrow> 0 | Some v \<Rightarrow> v)"
    and bump_put: "bump k n s = put k (num s k + n) s"
begin

lemma num_bump: "num (bump k n s) j = num s j + (if j = k then n else 0)"
  by (simp add: num_get bump_put get_put)

lemma ok_bump: "ok s \<Longrightarrow> ok (bump k n s)"
  by (simp add: bump_put ok_put)

lemma num_fold_bump:
  "num (fold (\<lambda>x. bump (f x) (w x)) xs s) k = num s k + (\<Sum>x \<leftarrow> filter (\<lambda>x. f x = k) xs. w x)"
  by (induction xs arbitrary: s) (auto simp: num_bump)

lemma dom_fold_bump:
  "dom (get (fold (\<lambda>x. bump (f x) (w x)) xs s)) = dom (get s) \<union> f ` set xs"
  by (induction xs arbitrary: s) (auto simp: bump_put get_put)

lemma ok_fold_bump: "ok s \<Longrightarrow> ok (fold (\<lambda>x. bump (f x) (w x)) xs s)"
  by (induction xs arbitrary: s) (auto intro: ok_bump)

lemma fold_bump_ge:
  assumes "\<And>x. x \<in> set xs \<Longrightarrow> 0 \<le> w x"
  shows "num s k \<le> num (fold (\<lambda>x. bump (f x) (w x)) xs s) k"
proof -
  have "0 \<le> (\<Sum>x \<leftarrow> filter (\<lambda>x. f x = k) xs. w x)"
    by (rule sum_list_nonneg) (use assms in auto)
  then show ?thesis by (simp add: num_fold_bump)
qed

end

subsection \<open>association lists\<close>

type_synonym 'v gomap = "(string \<times> 'v) list"

abbreviation wf_map :: "('k \<times> 'v) list \<Rightarrow> bool" where
  "wf_map m \<equiv> distinct (map fst m)"

definition num :: "('k \<times> int) list \<Rightarrow> 'k \<Rightarrow> int" where
  "num m k = (case map_of m k of None \<Rightarrow> 0 | Some v \<Rightarrow> v)"

definition bump :: "'k \<Rightarrow> int \<Rightarrow> ('k \<times> int) list \<Rightarrow> ('k \<times> int) list" where
  "bump k n m = AList.update k (num m k + n) m"

text \<open>A map value read with the zero value of a nested map or of a string.\<close>

definition sub :: "('k \<times> ('a list)) list \<Rightarrow> 'k \<Rightarrow> 'a list" where
  "sub m k = (case map_of m k of None \<Rightarrow> [] | Some v \<Rightarrow> v)"

lemma map_of_update [simp]: "map_of (AList.update k v m) = (map_of m)(k \<mapsto> v)"
  by (rule update_conv')

lemma map_of_delete [simp]: "map_of (AList.delete k m) = (map_of m)(k := None)"
  by (rule delete_conv')

lemma wf_update [simp, go_intros]: "wf_map m \<Longrightarrow> wf_map (AList.update k v m)"
  by (rule distinct_update)

lemma wf_delete [simp, go_intros]: "wf_map m \<Longrightarrow> wf_map (AList.delete k m)"
  by (rule distinct_delete)

interpretation am: keyed_store map_of AList.update AList.delete "map fst" wf_map
  by unfold_locales (auto simp: dom_map_of_conv_image_fst)

interpretation tm: tally_store map_of AList.update AList.delete "map fst" wf_map num bump
  by unfold_locales (auto simp: num_def bump_def)

lemma num_Nil [simp]: "num [] k = 0"
  by (simp add: num_def)

lemma num_update [simp]: "num (AList.update k v m) j = (if j = k then v else num m j)"
  by (simp add: num_def)

lemma sub_update [simp]: "sub (AList.update k v m) j = (if j = k then v else sub m j)"
  by (simp add: sub_def)

lemma sub_Nil [simp]: "sub [] k = []"
  by (simp add: sub_def)

lemma map_of_filter_key:
  "map_of (filter (\<lambda>(k, v). P k) m) k = (if P k then map_of m k else None)"
  by (induction m) auto

lemma map_of_map_key: "map_of (map (\<lambda>(k, v). (k, f k v)) m) k = map_option (f k) (map_of m k)"
  by (induction m) auto

lemma map_of_filter_wf:
  "wf_map m \<Longrightarrow>
   map_of (filter (\<lambda>(k, v). P k v) m) k =
     (case map_of m k of None \<Rightarrow> None | Some v \<Rightarrow> if P k v then Some v else None)"
  by (induction m) (auto split: option.splits dest: map_of_SomeD simp: rev_image_eqI)

lemma wf_filter: "wf_map m \<Longrightarrow> wf_map (filter P m)"
  by (simp add: distinct_map_filter)

lemma map_of_in_set: "wf_map m \<Longrightarrow> map_of m k = Some v \<longleftrightarrow> (k, v) \<in> set m"
  by (auto intro: map_of_is_SomeI dest: map_of_SomeD)

text \<open>\<open>sort.Strings\<close> over the keys of a map: the traversal order drops out.\<close>

definition sorted_keys :: "('k::linorder \<times> 'v) list \<Rightarrow> 'k list" where
  "sorted_keys m = sort (map fst m)"

lemma set_sorted_keys [simp]: "set (sorted_keys m) = dom (map_of m)"
  by (simp add: sorted_keys_def dom_map_of_conv_image_fst)

lemma sorted_sorted_keys [simp]: "sorted (sorted_keys m)"
  by (simp add: sorted_keys_def)

lemma distinct_sorted_keys: "wf_map m \<Longrightarrow> distinct (sorted_keys m)"
  by (simp add: sorted_keys_def)

lemma sorted_keys_unique:
  "wf_map m \<Longrightarrow> wf_map m' \<Longrightarrow> dom (map_of m) = dom (map_of m') \<Longrightarrow> sorted_keys m = sorted_keys m'"
  by (metis distinct_sorted_keys set_sorted_keys sorted_distinct_set_unique sorted_sorted_keys)

end
