(* ===== verification/Go_Float.thy ===== *)
theory Go_Float
  imports Go_Prelude "HOL-Library.Log_Nat"
begin

text \<open>
  Go's \<open>float64\<close>: the finite binary64 numbers, as the rationals they denote, each operation being
  the exact one followed by rounding to nearest, ties to even, at 53 significant bits and a least
  exponent of \<open>-1074\<close>. The program only forms ratios and products of counters, far below the largest
  finite number, and guards every division, so infinities and NaN are not represented; neither is
  the sign of zero.
\<close>

type_synonym f64 = rat

text \<open>The binary exponent of a positive rational: \<open>2 ^ e \<le> q < 2 ^ (e + 1)\<close>.\<close>

definition exp2 :: "int \<Rightarrow> rat" where
  "exp2 e = (if 0 \<le> e then 2 ^ nat e else 1 / 2 ^ nat (- e))"

definition ilog2 :: "rat \<Rightarrow> int" where
  "ilog2 q = (let (n, d) = quotient_of q; c = bitlen n - bitlen d
              in if exp2 c \<le> q then c else c - 1)"

definition round_even :: "rat \<Rightarrow> int" where
  "round_even x =
     (let f = floor x; r = x - of_int f
      in if r < 1 / 2 then f else if r > 1 / 2 then f + 1 else if even f then f else f + 1)"

definition ulp :: "rat \<Rightarrow> int" where
  "ulp q = max (ilog2 q - 52) (- 1074)"

definition f64_pos :: "rat \<Rightarrow> f64" where
  "f64_pos q = of_int (round_even (q / exp2 (ulp q))) * exp2 (ulp q)"

definition f64 :: "rat \<Rightarrow> f64" where
  "f64 q = (if q = 0 then 0 else if q > 0 then f64_pos q else - f64_pos (- q))"

definition f64_of_int :: "int \<Rightarrow> f64" where "f64_of_int n = f64 (of_int n)"
definition f64_mul :: "f64 \<Rightarrow> f64 \<Rightarrow> f64" where "f64_mul x y = f64 (x * y)"
definition f64_div :: "f64 \<Rightarrow> f64 \<Rightarrow> f64" where "f64_div x y = f64 (x / y)"
definition f64_add :: "f64 \<Rightarrow> f64 \<Rightarrow> f64" where "f64_add x y = f64 (x + y)"
definition f64_sub :: "f64 \<Rightarrow> f64 \<Rightarrow> f64" where "f64_sub x y = f64 (x - y)"

text \<open>Conversion to \<open>int\<close> truncates toward zero; \<open>math.Round\<close> rounds halves away from zero.\<close>

definition f64_to_int :: "f64 \<Rightarrow> int" where
  "f64_to_int x = (if x < 0 then - floor (- x) else floor x)"

definition math_round :: "f64 \<Rightarrow> int" where
  "math_round x = (if x < 0 then - floor (- x + 1 / 2) else floor (x + 1 / 2))"

subsection \<open>powers of two and exponents\<close>

lemma exp2_pos [simp]: "0 < exp2 e"
  by (simp add: exp2_def)

lemma exp2_ne [simp]: "exp2 e \<noteq> 0"
  using exp2_pos [of e] by linarith

lemma exp2_powi: "exp2 e = 2 powi e"
  by (simp add: exp2_def power_int_def field_simps)

lemma exp2_Suc: "exp2 (e + 1) = 2 * exp2 e"
  by (simp add: exp2_powi power_int_add)

lemma exp2_add_nat: "exp2 (e + int n) = exp2 e * 2 ^ n"
  by (simp add: exp2_powi power_int_add)

lemma exp2_le: "a \<le> b \<Longrightarrow> exp2 a \<le> exp2 b"
proof -
  assume "a \<le> b"
  then have b: "b = a + int (nat (b - a))" by simp
  have "exp2 b = exp2 a * 2 ^ nat (b - a)" by (subst b) (rule exp2_add_nat)
  moreover have "exp2 a * 1 \<le> exp2 a * 2 ^ nat (b - a)"
    by (intro mult_left_mono) (auto intro: less_imp_le)
  ultimately show ?thesis by simp
qed

lemma exp2_less_iff: "exp2 a < exp2 b \<longleftrightarrow> a < b"
proof
  show "exp2 a < exp2 b \<Longrightarrow> a < b" using exp2_le [of b a] by linarith
next
  assume "a < b"
  then have "exp2 (a + 1) \<le> exp2 b" by (intro exp2_le) simp
  then show "exp2 a < exp2 b" using exp2_pos [of a] unfolding exp2_Suc by linarith
qed

lemma exp2_0 [simp]: "exp2 0 = 1"
  by (simp add: exp2_def)

lemma ilog2_bounds:
  assumes "0 < q"
  shows "exp2 (ilog2 q) \<le> q \<and> q < exp2 (ilog2 q + 1)"
proof -
  obtain n d where nd: "quotient_of q = (n, d)" by (cases "quotient_of q")
  have d: "0 < d" using quotient_of_denom_pos [OF nd] .
  have q: "q = of_int n / of_int d" using quotient_of_div [OF nd] .
  with assms d have n: "0 < n" by (simp add: zero_less_divide_iff)
  let ?a = "bitlen n" and ?b = "bitlen d"
  have ab: "1 \<le> ?a" "1 \<le> ?b" using n d by (simp_all add: bitlen_ge_iff_power)
  have n1: "2 ^ nat (?a - 1) \<le> n" "n < 2 ^ nat ?a" using bitlen_bounds [of n] n by auto
  have d1: "2 ^ nat (?b - 1) \<le> d" "d < 2 ^ nat ?b" using bitlen_bounds [of d] d by auto
  have e: "exp2 (?a - 1) \<le> of_int n" "of_int n < exp2 ?a"
    "exp2 (?b - 1) \<le> of_int d" "of_int d < exp2 ?b"
    using n1 d1 ab
    by (simp_all add: exp2_def)
  have split: "exp2 x * exp2 y = exp2 (x + y)" if "0 \<le> y" for x y
    using exp2_add_nat [of x "nat y"] that by (simp add: exp2_def)
  have lo: "exp2 (?a - ?b - 1) \<le> q"
  proof -
    have "exp2 (?a - ?b - 1) * of_int d \<le> exp2 (?a - ?b - 1) * exp2 ?b"
      using e(4) by (intro mult_left_mono) (auto intro: less_imp_le)
    also have "\<dots> = exp2 (?a - 1)" using ab by (simp add: split)
    also have "\<dots> \<le> of_int n" by (rule e(1))
    finally show ?thesis using d by (simp add: q pos_le_divide_eq)
  qed
  have hi: "q < exp2 (?a - ?b + 1)"
  proof -
    have "of_int n < exp2 ?a" by (rule e(2))
    also have "\<dots> = exp2 (?a - ?b + 1) * exp2 (?b - 1)" using ab by (simp add: split)
    also have "\<dots> \<le> exp2 (?a - ?b + 1) * of_int d"
      using e(3) by (intro mult_left_mono) (auto intro: less_imp_le)
    finally show ?thesis using d by (simp add: q pos_divide_less_eq)
  qed
  show ?thesis
    using lo hi by (auto simp: ilog2_def nd Let_def not_le)
qed

lemma ilog2_mono:
  assumes "0 < q" and "q \<le> p"
  shows "ilog2 q \<le> ilog2 p"
proof -
  have "exp2 (ilog2 q) < exp2 (ilog2 p + 1)"
    using ilog2_bounds [of q] ilog2_bounds [of p] assms by auto
  then show ?thesis by (simp add: exp2_less_iff)
qed

subsection \<open>rounding\<close>

lemma round_even_int [simp]: "round_even (of_int n) = n"
  by (simp add: round_even_def)

lemma round_even_near: "\<bar>of_int (round_even x) - x\<bar> \<le> 1 / 2"
proof -
  have "of_int (floor x) \<le> x" "x < of_int (floor x) + 1" by linarith+
  then show ?thesis by (auto simp: round_even_def Let_def abs_le_iff)
qed

lemma round_even_mono: "x \<le> y \<Longrightarrow> round_even x \<le> round_even y"
proof -
  assume xy: "x \<le> y"
  then have f: "floor x \<le> floor y" by (rule floor_mono)
  show ?thesis
  proof (cases "floor x = floor y")
    case True
    with xy show ?thesis by (auto simp: round_even_def Let_def)
  next
    case False
    with f have "floor x + 1 \<le> floor y" by simp
    moreover have "round_even x \<le> floor x + 1" "floor y \<le> round_even y"
      by (auto simp: round_even_def Let_def)
    ultimately show ?thesis by linarith
  qed
qed

lemma f64_pos_bounds:
  assumes "0 < q"
  shows "f64_pos q \<le> exp2 (ulp q + 53)"
    and "ilog2 q - 52 \<ge> - 1074 \<Longrightarrow> exp2 (ilog2 q) \<le> f64_pos q"
proof -
  let ?u = "ulp q"
  have u: "ilog2 q \<le> ?u + 52" by (simp add: ulp_def)
  have "q < exp2 (?u + 53)"
  proof -
    have "q < exp2 (ilog2 q + 1)" using ilog2_bounds assms by blast
    also have "\<dots> \<le> exp2 (?u + 53)" using u by (intro exp2_le) simp
    finally show ?thesis .
  qed
  moreover have s: "exp2 (?u + 53) = of_int (2 ^ 53) * exp2 ?u"
    using exp2_add_nat [of ?u 53] by simp
  ultimately have "q / exp2 ?u \<le> of_int (2 ^ 53)"
    using exp2_pos [of ?u] by (simp add: pos_divide_le_eq)
  then have "round_even (q / exp2 ?u) \<le> 2 ^ 53"
    using round_even_mono round_even_int by metis
  then have "of_int (round_even (q / exp2 ?u)) \<le> (of_int (2 ^ 53) :: rat)"
    by (simp only: of_int_le_iff)
  then have "of_int (round_even (q / exp2 ?u)) * exp2 ?u \<le> of_int (2 ^ 53) * exp2 ?u"
    by (intro mult_right_mono) (auto intro: less_imp_le)
  then show "f64_pos q \<le> exp2 (?u + 53)"
    unfolding f64_pos_def s .
  assume "ilog2 q - 52 \<ge> - 1074"
  then have i: "ilog2 q = ?u + int 52" by (simp add: ulp_def)
  have t: "exp2 (ilog2 q) = of_int (2 ^ 52) * exp2 ?u"
    using exp2_add_nat [of ?u 52] i by simp
  have "exp2 (ilog2 q) \<le> q" using ilog2_bounds assms by blast
  then have "of_int (2 ^ 52) \<le> q / exp2 ?u"
    using exp2_pos [of ?u] by (simp only: t pos_le_divide_eq)
  then have "2 ^ 52 \<le> round_even (q / exp2 ?u)"
    using round_even_mono round_even_int by metis
  then have "of_int (2 ^ 52) \<le> (of_int (round_even (q / exp2 ?u)) :: rat)"
    by (simp only: of_int_le_iff)
  then show "exp2 (ilog2 q) \<le> f64_pos q"
    unfolding t f64_pos_def by (intro mult_right_mono) (auto intro: less_imp_le)
qed

lemma f64_pos_nonneg: "0 < q \<Longrightarrow> 0 \<le> f64_pos q"
proof -
  assume "0 < q"
  then have "0 \<le> q / exp2 (ulp q)" using exp2_pos [of "ulp q"]
    by (intro divide_nonneg_pos) auto
  then have "0 \<le> round_even (q / exp2 (ulp q))"
    using round_even_mono [of 0 "q / exp2 (ulp q)"] round_even_int [of 0] by simp
  then show ?thesis by (simp add: f64_pos_def less_imp_le)
qed

lemma f64_pos_mono:
  assumes "0 < q" and "q \<le> p"
  shows "f64_pos q \<le> f64_pos p"
proof (cases "ulp q = ulp p")
  case True
  have "q / exp2 (ulp p) \<le> p / exp2 (ulp p)"
    using assms exp2_pos [of "ulp p"] by (intro divide_right_mono) (auto intro: less_imp_le)
  then show ?thesis
    using True round_even_mono [of "q / exp2 (ulp p)" "p / exp2 (ulp p)"]
    by (simp add: f64_pos_def)
next
  case False
  have l: "ilog2 q \<le> ilog2 p" using assms by (rule ilog2_mono)
  with False have p: "ilog2 p - 52 \<ge> - 1074" and "ulp q + 53 \<le> ilog2 p"
    by (auto simp: ulp_def)
  have "f64_pos q \<le> exp2 (ulp q + 53)" using assms(1) by (rule f64_pos_bounds)
  also have "\<dots> \<le> exp2 (ilog2 p)" using \<open>ulp q + 53 \<le> ilog2 p\<close> by (rule exp2_le)
  also have "\<dots> \<le> f64_pos p" using assms p by (intro f64_pos_bounds) auto
  finally show ?thesis .
qed

lemma f64_0 [simp]: "f64 0 = 0"
  by (simp add: f64_def)

lemma f64_nonneg: "0 \<le> q \<Longrightarrow> 0 \<le> f64 q"
  using f64_pos_nonneg [of q] by (auto simp: f64_def)

lemma f64_neg: "f64 (- q) = - f64 q"
  by (auto simp: f64_def)

theorem f64_mono: "q \<le> p \<Longrightarrow> f64 q \<le> f64 p"
proof -
  assume qp: "q \<le> p"
  consider "0 < q" | "q \<le> 0" "0 \<le> p" | "p < 0" by linarith
  then show ?thesis
  proof cases
    case 1
    with qp show ?thesis using f64_pos_mono [of q p] by (simp add: f64_def)
  next
    case 2
    then have "0 \<le> f64 (- q)" "0 \<le> f64 p" by (simp_all add: f64_nonneg)
    then show ?thesis by (simp add: f64_neg)
  next
    case 3
    with qp show ?thesis using f64_pos_mono [of "- p" "- q"] by (simp add: f64_def)
  qed
qed

text \<open>A number with at most 53 significant bits is its own rounding; in particular small integers.\<close>

definition is_f64 :: "rat \<Rightarrow> bool" where "is_f64 x \<longleftrightarrow> f64 x = x"

lemma f64_pos_grid: "0 < q \<Longrightarrow> q = of_int m * exp2 (ulp q) \<Longrightarrow> f64_pos q = q"
proof -
  assume q: "q = of_int m * exp2 (ulp q)"
  then have "q / exp2 (ulp q) = of_int m" by (simp add: nonzero_divide_eq_eq)
  then show ?thesis using q by (simp add: f64_pos_def)
qed

lemma f64_int:
  assumes "\<bar>n\<bar> \<le> 2 ^ 53"
  shows "f64 (of_int n) = of_int n"
proof -
  have pos: "f64_pos (of_int m) = of_int m" if m: "0 < m" "m \<le> 2 ^ 53" for m :: int
  proof -
    let ?q = "of_int m :: rat"
    have b: "exp2 (ilog2 ?q) \<le> ?q" using ilog2_bounds [of ?q] m(1) by simp
    have up: "?q \<le> exp2 53" using m(2) by (simp add: exp2_def)
    show ?thesis
    proof (cases "ilog2 ?q = 53")
      case True
      then have "?q = exp2 53" using b up by simp
      moreover have "ulp ?q = 1" using True by (simp add: ulp_def)
      ultimately have "?q = of_int (2 ^ 52) * exp2 (ulp ?q)" by (simp add: exp2_def)
      then show ?thesis using m(1) f64_pos_grid [of ?q "2 ^ 52"] by linarith
    next
      case False
      have "exp2 (ilog2 ?q) < exp2 (53 + 1)" using b up exp2_less_iff [of 53 "53 + 1"] by simp
      then have "ilog2 ?q < 53" using False by (simp only: exp2_less_iff)
      moreover have "0 \<le> ilog2 ?q"
      proof -
        have "exp2 0 < exp2 (ilog2 ?q + 1)" using ilog2_bounds [of ?q] m(1) by auto
        then show ?thesis by (simp only: exp2_less_iff)
      qed
      ultimately have u: "ulp ?q \<le> 0" "ulp ?q = ilog2 ?q - 52" by (auto simp: ulp_def)
      then obtain k where k: "ulp ?q + int k = 0" by (metis add.commute add.right_inverse int_cases2 le_minus_iff minus_zero nat_0_le)
      have "exp2 (ulp ?q) * 2 ^ k = 1" using exp2_add_nat [of "ulp ?q" k] k by simp
      then have "?q = of_int (m * 2 ^ k) * exp2 (ulp ?q)" by (simp add: mult.commute mult.left_commute)
      then show ?thesis using m(1) by (intro f64_pos_grid [of ?q "m * 2 ^ k"]) simp_all
    qed
  qed
  consider "n = 0" | "0 < n" | "n < 0" by linarith
  then show ?thesis
  proof cases
    case 2
    with assms pos [of n] show ?thesis by (simp add: f64_def)
  next
    case 3
    with assms pos [of "- n"] show ?thesis by (simp add: f64_def)
  qed simp
qed

lemma f64_of_int_exact: "\<bar>n\<bar> \<le> 2 ^ 53 \<Longrightarrow> f64_of_int n = of_int n"
  by (simp add: f64_of_int_def f64_int)

lemma f64_of_int_mono: "m \<le> n \<Longrightarrow> f64_of_int m \<le> f64_of_int n"
  by (simp add: f64_of_int_def f64_mono)

lemma f64_of_int_nonneg: "0 \<le> n \<Longrightarrow> 0 \<le> f64_of_int n"
  by (simp add: f64_of_int_def f64_nonneg)

text \<open>Scaling a float by a factor of at most one never takes it above itself.\<close>

lemma f64_mul_le:
  assumes "is_f64 x" and "0 \<le> x" and "t \<le> 1"
  shows "f64_mul x t \<le> x"
proof -
  have "x * t \<le> x" using assms by (simp add: mult_left_le)
  then have "f64 (x * t) \<le> f64 x" by (rule f64_mono)
  then show ?thesis using assms(1) by (simp add: f64_mul_def is_f64_def)
qed

lemma f64_mul_mono: "0 \<le> t \<Longrightarrow> x \<le> y \<Longrightarrow> f64_mul x t \<le> f64_mul y t"
  by (simp add: f64_mul_def f64_mono mult_right_mono)

end
