(* ===== verification/Ratchet.thy ===== *)
theory Ratchet
  imports Go_Map Go_Float
begin

text \<open>
  The ratchet (\<open>internal/ratchet/ratchet.go\<close>): the baseline of floors per workspace and target, the
  judgement of a round against it (\<open>Check\<close>) and the update that raises it (\<open>Update\<close>), with
  floors archived per regime. Raw JSON fields the tool carries verbatim are left out; the archive
  is kept in its decoded form. \<open>record_book\<close> is the abstract view of a baseline: for each target
  and regime the best count ever reached there, and \<open>Update\<close> refines "take the maximum".
\<close>

definition DefaultTolerance :: f64 where "DefaultTolerance = f64 (1 / 10)"

record baseline =
  version :: int
  tolerance :: f64
  floors :: "int gomap gomap"
  regimes :: "string gomap gomap"
  rate_floors :: "f64 gomap gomap"
  floors_archive :: "int gomap gomap gomap"

record observation =
  o_target :: string
  o_execs :: int
  o_rate :: f64
  o_new_units :: int
  o_regime :: string

datatype outcome = Pass | Regressed | Acknowledged | Incomparable | NoFloor

record judgement =
  j_target :: string
  j_outcome :: outcome
  j_observed :: int
  j_floor :: int
  j_regime :: string
  j_earned :: string
  j_note :: string
  j_by_rate :: bool
  j_rate :: f64
  j_rate_floor :: f64
  j_exec_floor_skipped :: bool

record report =
  rep_workspace :: string
  rep_seeded :: bool
  rep_judged :: "judgement list"

definition failed :: "report \<Rightarrow> bool" where
  "failed r \<longleftrightarrow> list_ex (\<lambda>j. j_outcome j = Regressed) (rep_judged r)"

definition tol :: "baseline \<Rightarrow> f64" where
  "tol b = (if tolerance b > 0 then tolerance b else DefaultTolerance)"

text \<open>\<open>Load\<close>'s defaulting of a decoded baseline.\<close>

definition load_default :: "baseline \<Rightarrow> baseline" where
  "load_default b = (if tolerance b = 0 then b\<lparr>tolerance := DefaultTolerance\<rparr> else b)"

definition regime :: "int \<Rightarrow> string" where
  "regime jobs = ''jobs='' @ itoa (if jobs < 1 then 1 else jobs)"

definition str :: "string gomap \<Rightarrow> string \<Rightarrow> string" where
  "str m k = (case map_of m k of None \<Rightarrow> [] | Some s \<Rightarrow> s)"

subsection \<open>Check\<close>

text \<open>The local closure \<open>judge\<close>: the tolerance, then the acknowledgement list.\<close>

definition judge :: "f64 \<Rightarrow> string gomap \<Rightarrow> observation \<Rightarrow> f64 \<Rightarrow> f64 \<Rightarrow> int \<Rightarrow> bool \<Rightarrow> judgement" where
  "judge tlr acks ob observed limit exec_floor by_rate =
     (let j = \<lparr>j_target = o_target ob, j_outcome = Pass, j_observed = o_execs ob,
               j_floor = exec_floor, j_regime = o_regime ob, j_earned = [], j_note = [],
               j_by_rate = by_rate, j_rate = o_rate ob,
               j_rate_floor = (if by_rate then limit else 0), j_exec_floor_skipped = False\<rparr>
      in if observed \<ge> f64_mul limit tlr then j
         else (case map_of acks (o_target ob) of
                 Some why \<Rightarrow> j\<lparr>j_outcome := Acknowledged, j_note := why\<rparr>
               | None \<Rightarrow> j\<lparr>j_outcome := Regressed\<rparr>))"

definition bare :: "observation \<Rightarrow> outcome \<Rightarrow> judgement" where
  "bare ob out = \<lparr>j_target = o_target ob, j_outcome = out, j_observed = o_execs ob, j_floor = 0,
     j_regime = [], j_earned = [], j_note = [], j_by_rate = False, j_rate = 0, j_rate_floor = 0,
     j_exec_floor_skipped = False\<rparr>"

definition judge_obs :: "baseline \<Rightarrow> string \<Rightarrow> string gomap \<Rightarrow> observation \<Rightarrow> judgement" where
  "judge_obs b ws acks ob =
     (let fl = sub (floors b) ws; rg = sub (regimes b) ws; rf = sub (rate_floors b) ws;
          t = o_target ob
      in case (map_of rf t, o_rate ob > 0) of
           (Some rlimit, True) \<Rightarrow>
             (let j = judge (tol b) acks ob (o_rate ob) rlimit (num fl t) True
              in if (map_of rg t \<noteq> None \<or> num fl t > 0) \<and> o_regime ob \<noteq> [] \<and> str rg t \<noteq> o_regime ob
                 then j\<lparr>j_exec_floor_skipped := True, j_earned := str rg t\<rparr> else j)
         | _ \<Rightarrow>
             (case map_of fl t of
                None \<Rightarrow> bare ob NoFloor
              | Some fv \<Rightarrow>
                  if o_regime ob \<noteq> [] \<and> str rg t \<noteq> o_regime ob
                  then (bare ob Incomparable)\<lparr>j_floor := fv, j_regime := o_regime ob, j_earned := str rg t\<rparr>
                  else judge (tol b) acks ob (f64_of_int (o_execs ob)) (f64_of_int fv) fv False))"

definition check :: "baseline \<Rightarrow> string \<Rightarrow> observation list \<Rightarrow> string gomap \<Rightarrow> report" where
  "check b ws obs acks =
     (if sub (floors b) ws = []
      then \<lparr>rep_workspace = ws, rep_seeded = True, rep_judged = []\<rparr>
      else \<lparr>rep_workspace = ws, rep_seeded = False,
            rep_judged = sort_key j_target (map (judge_obs b ws acks) obs)\<rparr>)"

subsection \<open>Update\<close>

record switch =
  sw_target :: string
  sw_from :: string
  sw_value :: int

datatype change_kind = Record | Raise

record change =
  ch_target :: string
  ch_kind :: change_kind
  ch_from :: "int option"
  ch_to :: int

record update_result =
  added :: int
  raised :: int
  rate_added :: int
  rate_raised :: int
  switched :: "switch list"
  changes :: "change list"

definition empty_result :: update_result where
  "empty_result = \<lparr>added = 0, raised = 0, rate_added = 0, rate_raised = 0, switched = [], changes = []\<rparr>"

text \<open>The four maps of one workspace that an update works on.\<close>

record books =
  bk_floors :: "int gomap"
  bk_regs :: "string gomap"
  bk_rates :: "f64 gomap"
  bk_arch :: "int gomap gomap"

definition update_rate :: "observation \<Rightarrow> books \<times> update_result \<Rightarrow> books \<times> update_result" where
  "update_rate ob s =
     (let (k, res) = s in
      if o_rate ob \<le> 0 then s
      else (case map_of (bk_rates k) (o_target ob) of
              None \<Rightarrow> (k\<lparr>bk_rates := AList.update (o_target ob) (o_rate ob) (bk_rates k)\<rparr>,
                       res\<lparr>rate_added := rate_added res + 1\<rparr>)
            | Some old \<Rightarrow>
                if o_rate ob > old
                then (k\<lparr>bk_rates := AList.update (o_target ob) (o_rate ob) (bk_rates k)\<rparr>,
                      res\<lparr>rate_raised := rate_raised res + 1\<rparr>)
                else s))"

fun round_key :: "observation list \<Rightarrow> string" where
  "round_key [] = []"
| "round_key (ob # obs) = (if o_regime ob \<noteq> [] then o_regime ob else round_key obs)"

text \<open>One step of the loop that archives the floors of another regime.\<close>

definition switch_floor :: "string \<Rightarrow> string \<times> int \<Rightarrow> books \<times> update_result \<Rightarrow> books \<times> update_result" where
  "switch_floor rkey tv s =
     (let (k, res) = s; (t, v) = tv; prev = str (bk_regs k) t in
      if prev \<noteq> [] \<and> prev \<noteq> rkey
      then (k\<lparr>bk_arch := AList.update t (AList.update prev v (sub (bk_arch k) t)) (bk_arch k),
              bk_floors := AList.delete t (bk_floors k), bk_regs := AList.delete t (bk_regs k)\<rparr>,
            res\<lparr>switched := switched res @ [\<lparr>sw_target = t, sw_from = prev, sw_value = v\<rparr>]\<rparr>)
      else s)"

definition switch_floors :: "string \<Rightarrow> books \<times> update_result \<Rightarrow> books \<times> update_result" where
  "switch_floors rkey s =
     (let (k, res) = (if rkey = [] then s else fold (switch_floor rkey) (bk_floors (fst s)) s)
      in (k, res\<lparr>switched := sort_key sw_target (switched res)\<rparr>))"

text \<open>One observation: stamp the regime, restore an archived record, then add or raise.\<close>

definition stamp :: "string \<Rightarrow> observation \<Rightarrow> books \<Rightarrow> books" where
  "stamp rkey ob k =
     (if rkey \<noteq> [] then k\<lparr>bk_regs := AList.update (o_target ob) rkey (bk_regs k)\<rparr> else k)"

definition restore :: "string \<Rightarrow> observation \<Rightarrow> books \<Rightarrow> books" where
  "restore rkey ob k =
     (case map_of (bk_floors k) (o_target ob) of
        Some _ \<Rightarrow> k
      | None \<Rightarrow>
          (case map_of (sub (bk_arch k) (o_target ob)) rkey of
             Some prev \<Rightarrow> k\<lparr>bk_floors := AList.update (o_target ob) prev (bk_floors k)\<rparr>
           | None \<Rightarrow> k))"

definition raise_floor :: "observation \<Rightarrow> books \<times> update_result \<Rightarrow> books \<times> update_result" where
  "raise_floor ob s =
     (let (k, res) = s; t = o_target ob in
      case map_of (bk_floors k) t of
        None \<Rightarrow> (k\<lparr>bk_floors := AList.update t (o_execs ob) (bk_floors k)\<rparr>,
                 res\<lparr>added := added res + 1,
                     changes := changes res @ [\<lparr>ch_target = t, ch_kind = Record, ch_from = None, ch_to = o_execs ob\<rparr>]\<rparr>)
      | Some old \<Rightarrow>
          if o_execs ob > old
          then (k\<lparr>bk_floors := AList.update t (o_execs ob) (bk_floors k)\<rparr>,
                res\<lparr>raised := raised res + 1,
                    changes := changes res @ [\<lparr>ch_target = t, ch_kind = Raise, ch_from = Some old, ch_to = o_execs ob\<rparr>]\<rparr>)
          else s)"

definition update_floor :: "string \<Rightarrow> observation \<Rightarrow> books \<times> update_result \<Rightarrow> books \<times> update_result" where
  "update_floor rkey ob s = raise_floor ob (restore rkey ob (stamp rkey ob (fst s)), snd s)"

definition open_books :: "baseline \<Rightarrow> string \<Rightarrow> books" where
  "open_books b ws = \<lparr>bk_floors = sub (floors b) ws, bk_regs = sub (regimes b) ws,
     bk_rates = sub (rate_floors b) ws, bk_arch = sub (floors_archive b) ws\<rparr>"

definition close_books :: "baseline \<Rightarrow> string \<Rightarrow> books \<Rightarrow> baseline" where
  "close_books b ws k =
     b\<lparr>floors := AList.update ws (bk_floors k) (floors b),
       regimes := AList.update ws (bk_regs k) (regimes b),
       rate_floors := AList.update ws (bk_rates k) (rate_floors b),
       floors_archive := AList.update ws (bk_arch k) (floors_archive b)\<rparr>"

definition update_books :: "observation list \<Rightarrow> books \<Rightarrow> books \<times> update_result" where
  "update_books obs k =
     (let rkey = round_key obs;
          s1 = fold update_rate obs (k, empty_result);
          s2 = switch_floors rkey s1;
          (k3, res3) = fold (update_floor rkey) obs s2
      in (k3, res3\<lparr>changes := sort_key ch_target (changes res3)\<rparr>))"

definition update :: "string \<Rightarrow> observation list \<Rightarrow> baseline \<Rightarrow> baseline \<times> update_result" where
  "update ws obs b =
     (let (k, res) = update_books obs (open_books b ws) in (close_books b ws k, res))"

definition expired :: "observation list \<Rightarrow> int gomap \<Rightarrow> string gomap \<Rightarrow> f64 \<Rightarrow> string list" where
  "expired obs fl acks tlr =
     map o_target (filter (\<lambda>ob. map_of acks (o_target ob) \<noteq> None
        \<and> f64_of_int (o_execs ob) \<ge> f64_mul (f64_of_int (num fl (o_target ob))) tlr
        \<and> o_execs ob \<ge> 10000) obs)"

subsection \<open>records that only go up\<close>

definition raise_to :: "'v::linorder \<Rightarrow> 'v option \<Rightarrow> 'v option" where
  "raise_to v x = Some (case x of None \<Rightarrow> v | Some w \<Rightarrow> max w v)"

definition raise_all :: "'v::linorder list \<Rightarrow> 'v option \<Rightarrow> 'v option" where
  "raise_all vs x = fold raise_to vs x"

lemma raise_to_ge: "\<exists>w \<ge> v. raise_to v x = Some w"
  by (cases x) (auto simp: raise_to_def)

lemma raise_all_ge_old: "x = Some w \<Longrightarrow> \<exists>w' \<ge> w. raise_all vs x = Some w'"
  unfolding raise_all_def
proof (induction vs arbitrary: x w)
  case (Cons v vs)
  then have "raise_to v x = Some (max w v)" by (simp add: raise_to_def)
  then obtain w' where "w' \<ge> max w v" "fold raise_to vs (raise_to v x) = Some w'"
    using Cons.IH by blast
  then show ?case by auto
qed simp

lemma raise_all_ge_new: "v \<in> set vs \<Longrightarrow> \<exists>w \<ge> v. raise_all vs x = Some w"
  unfolding raise_all_def
proof (induction vs arbitrary: x)
  case (Cons u vs)
  show ?case
  proof (cases "v = u")
    case True
    have "\<exists>w \<ge> v. raise_to u x = Some w" using True by (auto simp: raise_to_def split: option.splits)
    then show ?thesis
      using raise_all_ge_old [of "raise_to u x" _ vs] by (fastforce simp: raise_all_def)
  qed (use Cons in simp)
qed simp

lemma raise_all_source:
  "raise_all vs x = Some w \<Longrightarrow> x = Some w \<or> w \<in> set vs"
  unfolding raise_all_def
proof (induction vs arbitrary: x)
  case (Cons v vs)
  then have "raise_to v x = Some w \<or> w \<in> set vs" by simp
  then show ?case by (auto simp: raise_to_def max_def split: option.splits if_splits)
qed simp

text \<open>
  The contract of a book of records: what an offer does to the best value under its key. The
  execution floors of a regime and the rate floors are both such books.
\<close>

locale record_book =
  fixes best :: "'s \<Rightarrow> 'k \<Rightarrow> 'v::linorder option"
    and key :: "'o \<Rightarrow> 'k"
    and val :: "'o \<Rightarrow> 'v"
    and counts :: "'o \<Rightarrow> bool"
    and offer :: "'o \<Rightarrow> 's \<Rightarrow> 's"
    and ok :: "'s \<Rightarrow> bool"
  assumes best_offer: "ok s \<Longrightarrow> best (offer x s) =
      (if counts x then (best s)(key x := raise_to (val x) (best s (key x))) else best s)"
    and ok_offer: "ok s \<Longrightarrow> ok (offer x s)"
begin

lemma ok_offers: "ok s \<Longrightarrow> ok (fold offer xs s)"
  by (induction xs arbitrary: s) (auto intro: ok_offer)

lemma best_offers:
  "ok s \<Longrightarrow> best (fold offer xs s) k =
     raise_all (map val (filter (\<lambda>x. counts x \<and> key x = k) xs)) (best s k)"
  by (induction xs arbitrary: s) (auto simp: best_offer ok_offer raise_all_def)

lemma offers_never_lower:
  "ok s \<Longrightarrow> best s k = Some w \<Longrightarrow> \<exists>w' \<ge> w. best (fold offer xs s) k = Some w'"
  by (simp add: best_offers raise_all_ge_old)

lemma offers_reach:
  "ok s \<Longrightarrow> x \<in> set xs \<Longrightarrow> counts x \<Longrightarrow> \<exists>w \<ge> val x. best (fold offer xs s) (key x) = Some w"
  by (simp add: best_offers) (intro raise_all_ge_new, auto)

end

interpretation rate_book: record_book "\<lambda>s. map_of (bk_rates (fst s))" o_target o_rate
    "\<lambda>ob. o_rate ob > 0" update_rate "\<lambda>s. True"
  by unfold_locales
    (auto simp: update_rate_def raise_to_def fun_eq_iff Let_def not_le max_def split: option.splits prod.splits)

lemma update_rate_frame [simp]:
  "bk_floors (fst (update_rate ob s)) = bk_floors (fst s)"
  "bk_regs (fst (update_rate ob s)) = bk_regs (fst s)"
  "bk_arch (fst (update_rate ob s)) = bk_arch (fst s)"
  by (auto simp: update_rate_def split: prod.splits option.splits)

lemma fold_update_rate_frame [simp]:
  "bk_floors (fst (fold update_rate obs s)) = bk_floors (fst s)"
  "bk_regs (fst (fold update_rate obs s)) = bk_regs (fst s)"
  "bk_arch (fst (fold update_rate obs s)) = bk_arch (fst s)"
  by (induction obs arbitrary: s) auto

subsection \<open>the switch of regime, pointwise\<close>

definition leaves :: "string \<Rightarrow> books \<Rightarrow> string \<Rightarrow> bool" where
  "leaves rkey k t \<longleftrightarrow> str (bk_regs k) t \<noteq> [] \<and> str (bk_regs k) t \<noteq> rkey"

lemma switch_floor_leaves:
  assumes "leaves rkey k t"
  shows "fst (switch_floor rkey (t, v) (k, res)) =
    k\<lparr>bk_arch := AList.update t (AList.update (str (bk_regs k) t) v (sub (bk_arch k) t)) (bk_arch k),
      bk_floors := AList.delete t (bk_floors k), bk_regs := AList.delete t (bk_regs k)\<rparr>"
  using assms by (simp add: switch_floor_def leaves_def Let_def)

lemma switch_floor_stays: "\<not> leaves rkey k t \<Longrightarrow> switch_floor rkey (t, v) (k, res) = (k, res)"
  by (auto simp: switch_floor_def leaves_def Let_def)

lemma switch_fold:
  assumes "distinct (map fst xs)"
  shows "map_of (bk_floors (fst (fold (switch_floor rkey) xs s))) t =
      (if t \<in> fst ` set xs \<and> leaves rkey (fst s) t then None else map_of (bk_floors (fst s)) t)
    \<and> map_of (bk_regs (fst (fold (switch_floor rkey) xs s))) t =
      (if t \<in> fst ` set xs \<and> leaves rkey (fst s) t then None else map_of (bk_regs (fst s)) t)
    \<and> map_of (sub (bk_arch (fst (fold (switch_floor rkey) xs s))) t) r =
      (if t \<in> fst ` set xs \<and> leaves rkey (fst s) t \<and> r = str (bk_regs (fst s)) t then map_of xs t
       else map_of (sub (bk_arch (fst s)) t) r)
    \<and> bk_rates (fst (fold (switch_floor rkey) xs s)) = bk_rates (fst s)"
  using assms
proof (induction xs arbitrary: s)
  case (Cons x xs)
  obtain u v where x: "x = (u, v)" by (cases x)
  obtain k res where s: "s = (k, res)" by (cases s)
  let ?s1 = "switch_floor rkey x s"
  have d: "u \<notin> fst ` set xs" "distinct (map fst xs)" using Cons.prems x by auto
  note IH = Cons.IH [OF d(2), of ?s1]
  show ?case
  proof (cases "leaves rkey k u")
    case False
    then have "?s1 = s" by (simp add: x s switch_floor_stays)
    with IH False d x s show ?thesis by (auto dest: map_of_SomeD)
  next
    case True
    let ?k1 = "k\<lparr>bk_arch := AList.update u (AList.update (str (bk_regs k) u) v (sub (bk_arch k) u)) (bk_arch k),
      bk_floors := AList.delete u (bk_floors k), bk_regs := AList.delete u (bk_regs k)\<rparr>"
    have k1: "fst ?s1 = ?k1" using True by (simp add: x s switch_floor_leaves)
    have other: "t \<noteq> u \<Longrightarrow> leaves rkey ?k1 t = leaves rkey k t" "t \<noteq> u \<Longrightarrow> str (bk_regs ?k1) t = str (bk_regs k) t"
      by (simp_all add: leaves_def str_def)
    show ?thesis
    proof (cases "t = u")
      case True
      with \<open>leaves rkey k u\<close> IH k1 d show ?thesis by (simp add: x s)
    next
      case False
      with IH k1 other show ?thesis by (simp add: x s)
    qed
  qed
qed simp

lemma switch_fold_wf:
  "wf_map (bk_floors (fst s)) \<Longrightarrow> wf_map (bk_regs (fst s)) \<Longrightarrow>
   wf_map (bk_floors (fst (fold (switch_floor rkey) xs s))) \<and> wf_map (bk_regs (fst (fold (switch_floor rkey) xs s)))"
proof (induction xs arbitrary: s)
  case (Cons x xs)
  have "wf_map (bk_floors (fst (switch_floor rkey x s))) \<and> wf_map (bk_regs (fst (switch_floor rkey x s)))"
    using Cons.prems by (auto simp: switch_floor_def Let_def split: prod.splits)
  then show ?case using Cons.IH by simp
qed simp

lemma switch_floors_eq:
  "fst (switch_floors rkey s) = (if rkey = [] then fst s else fst (fold (switch_floor rkey) (bk_floors (fst s)) s))"
  by (simp add: switch_floors_def split: prod.splits)

subsection \<open>the abstract record book of a baseline\<close>

text \<open>The best count per target and regime: the floor in force, else the archived one.\<close>

definition book :: "books \<Rightarrow> string \<Rightarrow> string \<Rightarrow> int option" where
  "book k t r =
     (if map_of (bk_regs k) t = Some r then map_of (bk_floors k) t else map_of (sub (bk_arch k) t) r)"

text \<open>
  Every floor carries the regime that earned it. A baseline written by \<open>Update\<close> alone, from rounds
  that name their regime, has this form; a legacy floor is one without a regime.
\<close>

definition stamped :: "books \<Rightarrow> bool" where
  "stamped k \<longleftrightarrow> wf_map (bk_floors k) \<and> wf_map (bk_regs k) \<and>
     dom (map_of (bk_floors k)) = dom (map_of (bk_regs k)) \<and>
     (\<forall>t. map_of (bk_regs k) t \<noteq> Some [])"

definition settled :: "string \<Rightarrow> books \<Rightarrow> bool" where
  "settled rkey k \<longleftrightarrow> rkey \<noteq> [] \<and> stamped k \<and> (\<forall>t r. map_of (bk_regs k) t = Some r \<longrightarrow> r = rkey)"

lemma switch_settles:
  assumes st: "stamped (fst s)" and rkey: "rkey \<noteq> []"
  shows "settled rkey (fst (switch_floors rkey s)) \<and> book (fst (switch_floors rkey s)) = book (fst s)"
proof -
  obtain k res where s: "s = (k, res)" by (cases s)
  let ?k = "fst (fold (switch_floor rkey) (bk_floors k) (k, res))"
  have wf: "wf_map (bk_floors k)" "wf_map (bk_regs k)" using st s by (auto simp: stamped_def)
  have dm: "map_of (bk_floors k) t \<noteq> None \<longleftrightarrow> map_of (bk_regs k) t \<noteq> None" for t
    using st s unfolding stamped_def by (metis domIff fst_conv)
  have reg: "map_of (bk_regs k) t = Some r \<Longrightarrow> str (bk_regs k) t = r \<and> r \<noteq> []" for t r
    using st s by (auto simp: stamped_def str_def)
  have keys: "t \<in> fst ` set (bk_floors k) \<longleftrightarrow> map_of (bk_floors k) t \<noteq> None" for t
    by (metis dom_map_of_conv_image_fst domIff)
  have lv: "leaves rkey k t \<longleftrightarrow> (\<exists>r. map_of (bk_regs k) t = Some r \<and> r \<noteq> rkey)" for t
    using reg [of t] by (cases "map_of (bk_regs k) t") (auto simp: leaves_def str_def)
  note sw = switch_fold [OF wf(1), of rkey "(k, res)", simplified]
  have regs: "map_of (bk_regs ?k) t = (if map_of (bk_regs k) t = Some rkey then Some rkey else None)" for t
    using sw [of t] lv [of t] dm [of t] keys [of t] by (cases "map_of (bk_regs k) t") auto
  have fls: "map_of (bk_floors ?k) t = (if map_of (bk_regs k) t = Some rkey then map_of (bk_floors k) t else None)" for t
    using sw [of t] lv [of t] dm [of t] keys [of t] by (cases "map_of (bk_regs k) t") auto
  have "stamped ?k"
    unfolding stamped_def
    using switch_fold_wf [of "(k, res)"] wf regs fls dm rkey by (auto simp: dom_def)
  then have "settled rkey ?k" using regs rkey by (auto simp: settled_def split: if_splits)
  moreover have "book ?k t r = book k t r" for t r
    using sw [of t r] regs [of t] fls [of t] lv [of t] dm [of t] keys [of t] reg [of t]
    by (cases "map_of (bk_regs k) t") (auto simp: book_def split: if_splits)
  ultimately show ?thesis using rkey by (auto simp: s switch_floors_eq fun_eq_iff)
qed

lemma fst_update_floor:
  "fst (update_floor rkey ob s) = fst (raise_floor ob (restore rkey ob (stamp rkey ob (fst s)), res))"
  by (auto simp: update_floor_def raise_floor_def Let_def split: prod.splits option.splits)

lemma raise_floor_books:
  "fst (raise_floor ob (k, res)) =
     k\<lparr>bk_floors := (case map_of (bk_floors k) (o_target ob) of
         None \<Rightarrow> AList.update (o_target ob) (o_execs ob) (bk_floors k)
       | Some old \<Rightarrow> if o_execs ob > old then AList.update (o_target ob) (o_execs ob) (bk_floors k)
                     else bk_floors k)\<rparr>"
  by (auto simp: raise_floor_def Let_def split: option.splits)

lemma restore_books:
  "restore rkey ob k =
     k\<lparr>bk_floors := (case (map_of (bk_floors k) (o_target ob), map_of (sub (bk_arch k) (o_target ob)) rkey) of
         (None, Some prev) \<Rightarrow> AList.update (o_target ob) prev (bk_floors k)
       | _ \<Rightarrow> bk_floors k)\<rparr>"
  by (auto simp: restore_def split: option.splits)

text \<open>What one observation does to the three maps, for any books.\<close>

lemma update_floor_maps:
  "map_of (bk_floors (fst (update_floor rkey ob s))) =
     (map_of (bk_floors (fst s)))(o_target ob := raise_to (o_execs ob)
        (case map_of (bk_floors (fst s)) (o_target ob) of
           Some v \<Rightarrow> Some v
         | None \<Rightarrow> map_of (sub (bk_arch (fst s)) (o_target ob)) rkey))"
  "bk_regs (fst (update_floor rkey ob s)) =
     (if rkey = [] then bk_regs (fst s) else AList.update (o_target ob) rkey (bk_regs (fst s)))"
  "bk_arch (fst (update_floor rkey ob s)) = bk_arch (fst s)"
  "bk_rates (fst (update_floor rkey ob s)) = bk_rates (fst s)"
proof -
  have f: "fst (update_floor rkey ob s) = fst (raise_floor ob (restore rkey ob (stamp rkey ob (fst s)), snd s))"
    by (simp add: update_floor_def)
  show "bk_regs (fst (update_floor rkey ob s)) =
     (if rkey = [] then bk_regs (fst s) else AList.update (o_target ob) rkey (bk_regs (fst s)))"
    "bk_arch (fst (update_floor rkey ob s)) = bk_arch (fst s)"
    "bk_rates (fst (update_floor rkey ob s)) = bk_rates (fst s)"
    unfolding f raise_floor_books restore_books stamp_def by simp_all
  have st: "bk_floors (stamp rkey ob k) = bk_floors k" "bk_arch (stamp rkey ob k) = bk_arch k" for k
    by (simp_all add: stamp_def)
  show "map_of (bk_floors (fst (update_floor rkey ob s))) =
     (map_of (bk_floors (fst s)))(o_target ob := raise_to (o_execs ob)
        (case map_of (bk_floors (fst s)) (o_target ob) of
           Some v \<Rightarrow> Some v
         | None \<Rightarrow> map_of (sub (bk_arch (fst s)) (o_target ob)) rkey))"
    unfolding f raise_floor_books restore_books books.simps st
    by (cases "map_of (bk_floors (fst s)) (o_target ob)"; cases "map_of (sub (bk_arch (fst s)) (o_target ob)) rkey")
      (simp_all add: raise_to_def fun_eq_iff)
qed

lemma update_floor_wf:
  "wf_map (bk_floors (fst s)) \<Longrightarrow> wf_map (bk_floors (fst (update_floor rkey ob s)))"
  by (auto simp: update_floor_def raise_floor_books restore_books stamp_def split: option.splits)

lemma update_floor_settled:
  "settled rkey (fst s) \<Longrightarrow> settled rkey (fst (update_floor rkey ob s))"
  unfolding settled_def stamped_def
  by (auto simp: update_floor_maps update_floor_wf raise_to_def split: if_splits)

lemma update_floor_book:
  assumes "settled rkey (fst s)"
  shows "book (fst (update_floor rkey ob s)) t r =
    (if t = o_target ob \<and> r = rkey then raise_to (o_execs ob) (book (fst s) t rkey) else book (fst s) t r)"
proof -
  have "rkey \<noteq> []" and d: "map_of (bk_floors (fst s)) u = None \<longleftrightarrow> map_of (bk_regs (fst s)) u = None"
    and rk: "map_of (bk_regs (fst s)) u = Some r' \<Longrightarrow> r' = rkey" for u r'
    using assms unfolding settled_def stamped_def by (metis, metis domIff, metis)
  show ?thesis
  proof (cases "map_of (bk_regs (fst s)) t")
    case None
    with \<open>rkey \<noteq> []\<close> d [of t] show ?thesis
      by (cases "t = o_target ob") (simp_all add: book_def update_floor_maps)
  next
    case (Some r')
    then have "r' = rkey" by (rule rk)
    with Some \<open>rkey \<noteq> []\<close> d [of t] show ?thesis
      by (cases "t = o_target ob") (auto simp: book_def update_floor_maps)
  qed
qed

interpretation floor_book: record_book "\<lambda>s t. book (fst s) t rkey" o_target o_execs
    "\<lambda>ob. True" "update_floor rkey" "\<lambda>s. settled rkey (fst s)" for rkey
  by unfold_locales (simp_all add: update_floor_book update_floor_settled fun_eq_iff)

lemma fold_update_floor_other:
  "settled rkey (fst s) \<Longrightarrow> r \<noteq> rkey \<Longrightarrow> book (fst (fold (update_floor rkey) obs s)) t r = book (fst s) t r"
proof (induction obs arbitrary: s)
  case (Cons ob obs)
  then show ?case using update_floor_settled update_floor_book by simp
qed simp

lemma fold_update_floor_frame:
  "bk_rates (fst (fold (update_floor rkey) obs s)) = bk_rates (fst s)"
  "bk_arch (fst (fold (update_floor rkey) obs s)) = bk_arch (fst s)"
  by (induction obs arbitrary: s) (simp_all add: update_floor_maps)

lemma update_books_eq:
  "fst (update_books obs k) =
     fst (fold (update_floor (round_key obs)) obs
       (switch_floors (round_key obs) (fold update_rate obs (k, empty_result))))"
  by (simp add: update_books_def Let_def split: prod.splits)

lemma switch_floors_rates: "bk_rates (fst (switch_floors rkey s)) = bk_rates (fst s)"
proof -
  have "bk_rates (fst (fold (switch_floor rkey) xs s)) = bk_rates (fst s)" for xs
    by (induction xs arbitrary: s) (auto simp: switch_floor_def Let_def split: prod.splits)
  then show ?thesis by (simp add: switch_floors_eq)
qed

lemma book_cong:
  "bk_floors k = bk_floors k' \<Longrightarrow> bk_regs k = bk_regs k' \<Longrightarrow> bk_arch k = bk_arch k' \<Longrightarrow>
   book k = book k' \<and> stamped k = stamped k'"
  by (auto simp: book_def stamped_def fun_eq_iff)

lemma rates_stage:
  "book (fst (fold update_rate obs (k, res))) = book k"
  "stamped (fst (fold update_rate obs (k, res))) = stamped k"
  using book_cong [of "fst (fold update_rate obs (k, res))" k] by simp_all

theorem update_books_book:
  assumes "stamped k" and "round_key obs \<noteq> []"
  shows "settled (round_key obs) (fst (update_books obs k))"
    and "book (fst (update_books obs k)) t r =
      (if r = round_key obs
       then raise_all (map o_execs (filter (\<lambda>ob. o_target ob = t) obs)) (book k t r)
       else book k t r)"
proof -
  let ?s = "switch_floors (round_key obs) (fold update_rate obs (k, empty_result))"
  have s: "settled (round_key obs) (fst ?s)" "book (fst ?s) = book k"
    using switch_settles [of "fold update_rate obs (k, empty_result)" "round_key obs"] assms
    by (simp_all add: rates_stage)
  show "settled (round_key obs) (fst (update_books obs k))"
    unfolding update_books_eq by (rule floor_book.ok_offers) (rule s(1))
  show "book (fst (update_books obs k)) t r =
      (if r = round_key obs
       then raise_all (map o_execs (filter (\<lambda>ob. o_target ob = t) obs)) (book k t r)
       else book k t r)"
    unfolding update_books_eq
    using fold_update_floor_other [OF s(1)] floor_book.best_offers [OF s(1), of obs t] s(2) by simp
qed

lemma update_books_book_ge:
  assumes "stamped k" and "round_key obs \<noteq> []" and "book k t r = Some v"
  shows "\<exists>w \<ge> v. book (fst (update_books obs k)) t r = Some w"
proof (cases "r = round_key obs")
  case True
  with raise_all_ge_old [OF assms(3)] show ?thesis
    by (simp add: update_books_book(2) [OF assms(1,2)])
next
  case False
  with assms show ?thesis by (simp add: update_books_book(2))
qed

lemma update_books_rates:
  "map_of (bk_rates (fst (update_books obs k))) t =
     raise_all (map o_rate (filter (\<lambda>ob. o_rate ob > 0 \<and> o_target ob = t) obs)) (map_of (bk_rates k) t)"
  by (simp add: update_books_eq fold_update_floor_frame switch_floors_rates rate_book.best_offers)

text \<open>The floor of any target after an update, legacy floors and unnamed regimes included.\<close>

lemma fold_update_floor_ge:
  "map_of (bk_floors (fst s)) t = Some v \<Longrightarrow>
   \<exists>v' \<ge> v. map_of (bk_floors (fst (fold (update_floor rkey) obs s))) t = Some v'"
proof (induction obs arbitrary: s v)
  case (Cons ob obs)
  have "\<exists>w \<ge> v. map_of (bk_floors (fst (update_floor rkey ob s))) t = Some w"
    using Cons.prems by (auto simp: update_floor_maps raise_to_def)
  then obtain w where "w \<ge> v" "map_of (bk_floors (fst (update_floor rkey ob s))) t = Some w" by blast
  then show ?case using Cons.IH [of "update_floor rkey ob s" w] by fastforce
qed simp

lemma fold_update_floor_reach:
  "ob \<in> set obs \<Longrightarrow>
   \<exists>v' \<ge> o_execs ob. map_of (bk_floors (fst (fold (update_floor rkey) obs s))) (o_target ob) = Some v'"
proof (induction obs arbitrary: s)
  case (Cons x obs)
  show ?case
  proof (cases "ob = x")
    case True
    obtain w where "w \<ge> o_execs ob" "map_of (bk_floors (fst (update_floor rkey ob s))) (o_target ob) = Some w"
      using raise_to_ge [of "o_execs ob"] by (auto simp: update_floor_maps)
    then show ?thesis
      using fold_update_floor_ge [of "update_floor rkey x s" "o_target ob" w rkey obs] True
      by fastforce
  qed (use Cons in simp)
qed simp

lemma fold_update_floor_regs:
  "rkey \<noteq> [] \<Longrightarrow> ob \<in> set obs \<Longrightarrow>
   map_of (bk_regs (fst (fold (update_floor rkey) obs s))) (o_target ob) = Some rkey"
proof -
  assume r: "rkey \<noteq> []"
  have keep: "map_of (bk_regs (fst s)) t = Some rkey \<Longrightarrow>
      map_of (bk_regs (fst (fold (update_floor rkey) obs s))) t = Some rkey" for s t obs
    using r by (induction obs arbitrary: s) (simp_all add: update_floor_maps)
  show "ob \<in> set obs \<Longrightarrow> ?thesis"
  proof (induction obs arbitrary: s)
    case (Cons x obs)
    show ?case
    proof (cases "ob = x")
      case True
      then show ?thesis using keep r by (simp add: update_floor_maps)
    qed (use Cons in simp)
  qed simp
qed

subsection \<open>baselines\<close>

lemma open_books_sel [simp]:
  "bk_floors (open_books b ws) = sub (floors b) ws" "bk_regs (open_books b ws) = sub (regimes b) ws"
  "bk_rates (open_books b ws) = sub (rate_floors b) ws"
  "bk_arch (open_books b ws) = sub (floors_archive b) ws"
  by (simp_all add: open_books_def)

lemma open_close_same: "open_books (close_books b ws k) ws = k"
  by (simp add: open_books_def close_books_def)

lemma open_close_other: "ws' \<noteq> ws \<Longrightarrow> open_books (close_books b ws k) ws' = open_books b ws'"
  by (simp add: open_books_def close_books_def sub_def)

lemma open_update: "open_books (fst (update ws obs b)) ws = fst (update_books obs (open_books b ws))"
  by (simp add: update_def open_close_same split: prod.splits)

text \<open>
  C1: the refinement. With a baseline whose floors all carry the regime that earned them, \<open>Update\<close>
  implements a book of records per target and regime: under the round's regime each target's
  record becomes the maximum of the old one and of what the round reached, restored from the
  archive when another regime was in force; the records of every other regime are kept unchanged,
  whichever of the two maps holds them. The result has the same form, so this holds of any run of
  updates.
\<close>

theorem update_refines_record_book:
  assumes "stamped (open_books b ws)" and "round_key obs \<noteq> []"
  shows "stamped (open_books (fst (update ws obs b)) ws) \<and>
    (\<forall>t r. book (open_books (fst (update ws obs b)) ws) t r =
       (if r = round_key obs
        then raise_all (map o_execs (filter (\<lambda>ob. o_target ob = t) obs)) (book (open_books b ws) t r)
        else book (open_books b ws) t r))"
  using update_books_book [OF assms] by (simp add: open_update settled_def)

definition ex_obs :: "string \<Rightarrow> int \<Rightarrow> string \<Rightarrow> observation" where
  "ex_obs t n r = \<lparr>o_target = t, o_execs = n, o_rate = 0, o_new_units = 0, o_regime = r\<rparr>"

definition ex_baseline :: baseline where
  "ex_baseline = \<lparr>version = 1, tolerance = f64 (1 / 10),
     floors = [(''w'', [(''a'', 100), (''c'', 7)])],
     regimes = [(''w'', [(''a'', ''jobs=4''), (''c'', ''jobs=4'')])],
     rate_floors = [], floors_archive = []\<rparr>"

lemma update_refines_record_book_witness:
  "stamped (open_books ex_baseline ''w'') \<and>
   book (open_books (fst (update ''w'' [ex_obs ''a'' 5 ''jobs=1''] ex_baseline)) ''w'') ''a'' ''jobs=4'' = Some 100 \<and>
   book (open_books (fst (update ''w'' [ex_obs ''a'' 5 ''jobs=1''] ex_baseline)) ''w'') ''a'' ''jobs=1'' = Some 5"
proof -
  have st: "stamped (open_books ex_baseline ''w'')"
    by (auto simp: stamped_def open_books_def ex_baseline_def sub_def dom_def)
  have rk: "round_key [ex_obs ''a'' 5 ''jobs=1''] = ''jobs=1''" by (simp add: ex_obs_def)
  show ?thesis
    using update_refines_record_book [OF st, of "[ex_obs ''a'' 5 ''jobs=1'']"] rk st
    by (simp add: ex_obs_def book_def open_books_def ex_baseline_def sub_def raise_all_def raise_to_def)
qed

lemma rounds_keep_book:
  "stamped (open_books b ws) \<Longrightarrow> book (open_books b ws) t r = Some v \<Longrightarrow> \<forall>obs \<in> set rounds. round_key obs \<noteq> [] \<Longrightarrow>
   stamped (open_books (fold (\<lambda>obs b. fst (update ws obs b)) rounds b) ws) \<and>
   (\<exists>w \<ge> v. book (open_books (fold (\<lambda>obs b. fst (update ws obs b)) rounds b) ws) t r = Some w)"
proof (induction rounds arbitrary: b v)
  case (Cons obs rounds)
  let ?b = "fst (update ws obs b)"
  have k: "round_key obs \<noteq> []" using Cons.prems(3) by simp
  obtain w where w: "w \<ge> v" "book (open_books ?b ws) t r = Some w"
    using update_books_book_ge [OF Cons.prems(1) k Cons.prems(2)] unfolding open_update by blast
  have "stamped (open_books ?b ws)"
    using update_books_book(1) [OF Cons.prems(1) k] by (simp add: open_update settled_def)
  from Cons.IH [OF this w(2)] Cons.prems(3) w(1) show ?case by (simp, meson order_trans)
qed simp

text \<open>
  C13: a record survives a change of regime. A floor earned under one regime, in a baseline whose floors all
  carry theirs, followed by any number of rounds each under any regime, is at least as high again once the
  target is seen in a round under the first regime.
\<close>

theorem switch_back_restores:
  assumes "stamped (open_books b ws)"
    and "map_of (sub (floors b) ws) t = Some v" and "map_of (sub (regimes b) ws) t = Some r"
    and "\<forall>obs \<in> set rounds. round_key obs \<noteq> []" and "round_key back = r" and "\<exists>ob \<in> set back. o_target ob = t"
  shows "\<exists>v' \<ge> v. map_of (sub (floors (fst (update ws back (fold (\<lambda>obs b. fst (update ws obs b)) rounds b)))) ws) t = Some v'"
proof -
  let ?b1 = "fold (\<lambda>obs b. fst (update ws obs b)) rounds b" and ?b2 = "fst (update ws back (fold (\<lambda>obs b. fst (update ws obs b)) rounds b))"
  have "r \<noteq> []" using assms(1,3) by (auto simp: stamped_def open_books_def)
  then have r: "round_key back \<noteq> []" using assms(5) by simp
  have "book (open_books b ws) t r = Some v"
    using assms(2,3) by (simp add: book_def open_books_def)
  from rounds_keep_book [OF assms(1) this assms(4)] obtain w where
    w: "w \<ge> v" "book (open_books ?b1 ws) t r = Some w" and s1: "stamped (open_books ?b1 ws)" by blast
  obtain x where "x \<ge> w" and x: "book (open_books ?b2 ws) t r = Some x"
    using update_books_book_ge [OF s1 r w(2)] unfolding open_update by blast
  obtain ob where ob: "ob \<in> set back" "o_target ob = t" using assms(6) by blast
  have "map_of (bk_regs (open_books ?b2 ws)) t = Some r"
    unfolding open_update update_books_eq
    using fold_update_floor_regs [OF r ob(1)] ob(2) assms(5) by simp
  then have "map_of (bk_floors (open_books ?b2 ws)) t = Some x" using x by (simp add: book_def)
  with w(1) \<open>x \<ge> w\<close> show ?thesis by (auto simp: open_books_def)
qed

lemma switch_back_restores_witness:
  "\<exists>v' \<ge> 100. map_of (sub (floors (fst (update ''w'' [ex_obs ''a'' 3 ''jobs=4'']
     (fold (\<lambda>obs b. fst (update ''w'' obs b)) [[ex_obs ''a'' 5 ''jobs=1''], [ex_obs ''a'' 9 ''jobs=2'']] ex_baseline)))) ''w'') ''a'' = Some v'"
proof (rule switch_back_restores [where r = "''jobs=4''"])
  show "stamped (open_books ex_baseline ''w'')"
    by (auto simp: stamped_def open_books_def ex_baseline_def sub_def dom_def)
qed (simp_all add: ex_baseline_def ex_obs_def sub_def)

lemma update_keeps_floor:
  assumes "wf_map (sub (floors b) ws)" and "map_of (sub (floors b) ws) t = Some v"
  shows "(\<exists>v' \<ge> v. map_of (sub (floors (fst (update ws obs b))) ws) t = Some v') \<or>
     (let p = str (sub (regimes b) ws) t in p \<noteq> [] \<and> p \<noteq> round_key obs \<and>
        map_of (sub (sub (floors_archive (fst (update ws obs b))) ws) t) p = Some v)"
proof -
  let ?k = "open_books b ws" and ?r = "round_key obs"
  let ?s0 = "fold update_rate obs (?k, empty_result)"
  let ?s1 = "switch_floors ?r ?s0"
  have k: "bk_floors (fst ?s0) = sub (floors b) ws" "bk_regs (fst ?s0) = sub (regimes b) ws"
    by (simp_all add: open_books_def)
  have keys: "t \<in> fst ` set (sub (floors b) ws)"
    using assms(2) by (force dest: map_of_SomeD)
  have upd: "bk_floors (fst (update_books obs ?k)) = sub (floors (fst (update ws obs b))) ws"
    "bk_arch (fst (update_books obs ?k)) = sub (floors_archive (fst (update ws obs b))) ws"
    using open_update [of ws obs b] open_books_sel [of "fst (update ws obs b)" ws] by metis+
  note sw = switch_fold [OF assms(1), of ?r ?s0]
  show ?thesis
  proof (cases "?r \<noteq> [] \<and> leaves ?r (fst ?s0) t")
    case False
    then have "map_of (bk_floors (fst ?s1)) t = Some v"
      using sw [of t] k assms(2) by (auto simp: switch_floors_eq)
    then show ?thesis
      using fold_update_floor_ge [of ?s1 t v ?r obs] upd by (simp add: update_books_eq)
  next
    case True
    then have "map_of (sub (bk_arch (fst ?s1)) t) (str (sub (regimes b) ws) t) = Some v"
      using sw [of t "str (sub (regimes b) ws) t"] k keys assms(2) by (simp add: switch_floors_eq)
    moreover have "bk_arch (fst (update_books obs ?k)) = bk_arch (fst ?s1)"
      by (simp add: update_books_eq fold_update_floor_frame)
    ultimately show ?thesis
      using True upd k by (simp add: leaves_def Let_def)
  qed
qed

text \<open>
  C2: only ever upward. Whatever the baseline (legacy floors and rounds without a regime included), an
  update loses no floor: it ends at least as high, or it left the floors because its target's
  recorded regime is another one than the round's and its value is in the archive under that
  regime. Rate floors only ever rise.
\<close>

theorem update_never_lowers:
  assumes "wf_map (sub (floors b) ws)" and "map_of (sub (floors b) ws) t = Some v"
  shows "(\<exists>v' \<ge> v. map_of (sub (floors (fst (update ws obs b))) ws) t = Some v') \<or>
     (let p = str (sub (regimes b) ws) t in p \<noteq> [] \<and> p \<noteq> round_key obs \<and>
        map_of (sub (sub (floors_archive (fst (update ws obs b))) ws) t) p = Some v)"
  using assms by (rule update_keeps_floor)

lemma update_never_lowers_witness:
  "(\<exists>v' \<ge> 100. map_of (sub (floors (fst (update ''w'' [ex_obs ''a'' 5 ''jobs=1''] ex_baseline))) ''w'') ''a'' = Some v') \<or>
     (let p = str (sub (regimes ex_baseline) ''w'') ''a'' in p \<noteq> [] \<and> p \<noteq> round_key [ex_obs ''a'' 5 ''jobs=1''] \<and>
        map_of (sub (sub (floors_archive (fst (update ''w'' [ex_obs ''a'' 5 ''jobs=1''] ex_baseline))) ''w'') ''a'') p = Some 100)"
  by (rule update_never_lowers) (simp_all add: ex_baseline_def sub_def)

text \<open>
  The frame of an update. The floors, regimes, rate floors and archive of every other workspace
  are untouched, and within the workspace the rate floors move by themselves: each is the maximum
  of the old one and of the positive rates seen, whatever happened to the execution floors.
\<close>

theorem update_frame:
  "(ws' \<noteq> ws \<longrightarrow> open_books (fst (update ws obs b)) ws' = open_books b ws') \<and>
   map_of (sub (rate_floors (fst (update ws obs b))) ws) t =
     raise_all (map o_rate (filter (\<lambda>ob. o_rate ob > 0 \<and> o_target ob = t) obs))
       (map_of (sub (rate_floors b) ws) t) \<and>
   tolerance (fst (update ws obs b)) = tolerance b"
proof -
  have "bk_rates (fst (update_books obs (open_books b ws))) = sub (rate_floors (fst (update ws obs b))) ws"
    using open_update [of ws obs b] open_books_sel [of "fst (update ws obs b)" ws] by metis
  then have "map_of (sub (rate_floors (fst (update ws obs b))) ws) t =
     raise_all (map o_rate (filter (\<lambda>ob. o_rate ob > 0 \<and> o_target ob = t) obs))
       (map_of (sub (rate_floors b) ws) t)"
    using update_books_rates [of obs "open_books b ws" t] by (simp add: open_books_def)
  moreover have "tolerance (fst (update ws obs b)) = tolerance b"
    by (simp add: update_def close_books_def split: prod.splits)
  moreover have "ws' \<noteq> ws \<longrightarrow> open_books (fst (update ws obs b)) ws' = open_books b ws'"
    by (simp add: update_def open_close_other split: prod.splits)
  ultimately show ?thesis by blast
qed

subsection \<open>what Check says\<close>

text \<open>The pair of numbers that decides one observation, when one is comparable.\<close>

definition below_floor :: "baseline \<Rightarrow> string \<Rightarrow> observation \<Rightarrow> bool" where
  "below_floor b ws ob =
     (let t = o_target ob in
      case (map_of (sub (rate_floors b) ws) t, o_rate ob > 0) of
        (Some rlimit, True) \<Rightarrow> o_rate ob < f64_mul rlimit (tol b)
      | _ \<Rightarrow>
          (case map_of (sub (floors b) ws) t of
             None \<Rightarrow> False
           | Some fv \<Rightarrow> (o_regime ob = [] \<or> str (sub (regimes b) ws) t = o_regime ob) \<and>
               f64_of_int (o_execs ob) < f64_mul (f64_of_int fv) (tol b)))"

lemma judge_outcome:
  "j_outcome (judge tlr acks ob observed limit ef by_rate) =
     (if observed \<ge> f64_mul limit tlr then Pass
      else if map_of acks (o_target ob) = None then Regressed else Acknowledged)"
  by (auto simp: judge_def Let_def split: option.splits)

lemma judge_target: "j_target (judge tlr acks ob observed limit ef by_rate) = o_target ob"
  by (auto simp: judge_def Let_def split: option.splits)

lemma judge_obs_target: "j_target (judge_obs b ws acks ob) = o_target ob"
  by (auto simp: judge_obs_def Let_def judge_target bare_def split: option.splits bool.splits)

lemma judge_obs_regressed:
  "j_outcome (judge_obs b ws acks ob) = Regressed \<longleftrightarrow> below_floor b ws ob \<and> map_of acks (o_target ob) = None"
proof (cases "map_of (sub (rate_floors b) ws) (o_target ob) \<noteq> None \<and> o_rate ob > 0")
  case True
  then obtain rl where "map_of (sub (rate_floors b) ws) (o_target ob) = Some rl" "o_rate ob > 0" by auto
  then show ?thesis by (simp add: judge_obs_def below_floor_def Let_def judge_outcome not_le)
next
  case False
  then have "map_of (sub (rate_floors b) ws) (o_target ob) = None \<or> \<not> o_rate ob > 0" by blast
  then show ?thesis
  proof (cases "map_of (sub (floors b) ws) (o_target ob)")
    case None
    then show ?thesis using False
      by (cases "map_of (sub (rate_floors b) ws) (o_target ob)") (simp_all add: judge_obs_def below_floor_def Let_def bare_def)
  next
    case (Some fv)
    then show ?thesis using False
      by (cases "map_of (sub (rate_floors b) ws) (o_target ob)")
        (auto simp: judge_obs_def below_floor_def Let_def judge_outcome bare_def not_le)
  qed
qed

lemma sub_nonempty: "map_of (sub m ws) t = Some v \<Longrightarrow> sub m ws \<noteq> []"
  by auto

text \<open>
  no observation is dropped and none is judged twice. A workspace with no floors at all is reported
  as seeded, with nothing judged; otherwise the judged targets are exactly the observed ones, each
  as often as it was observed, in ascending order.
\<close>

theorem check_judges_every_observation:
  "(rep_seeded (check b ws obs acks) \<longleftrightarrow> sub (floors b) ws = []) \<and>
   mset (map j_target (rep_judged (check b ws obs acks))) =
     (if sub (floors b) ws = [] then {#} else mset (map o_target obs)) \<and>
   sorted (map j_target (rep_judged (check b ws obs acks)))"
proof -
  have "map (j_target \<circ> judge_obs b ws acks) obs = map o_target obs"
    by (simp add: judge_obs_target)
  then have "image_mset j_target (image_mset (judge_obs b ws acks) (mset obs)) = mset (map o_target obs)"
    by (metis map_map mset_map)
  then show ?thesis by (simp add: check_def)
qed

lemma check_failed:
  "failed (check b ws obs acks) \<longleftrightarrow>
     sub (floors b) ws \<noteq> [] \<and>
     (\<exists>ob. ob \<in> set obs \<and> below_floor b ws ob \<and> map_of acks (o_target ob) = None)"
  by (auto simp: failed_def check_def list_ex_iff judge_obs_regressed)

text \<open>
  C7: a round fails exactly when the workspace has floors and some observation is below a comparable
  floor and unacknowledged, where the rate floor decides whenever there is one and a rate was
  measured, the execution floor decides only within the regime that earned it, and a target that
  was never measured cannot fail.
\<close>

theorem check_fails_iff:
  "failed (check b ws obs acks) \<longleftrightarrow>
     sub (floors b) ws \<noteq> [] \<and>
     (\<exists>ob. ob \<in> set obs \<and> below_floor b ws ob \<and> map_of acks (o_target ob) = None)"
  by (rule check_failed)

text \<open>
  a target that meets its record never fails the round, at any tolerance up to one: not through
  its rate floor when its rate is at least that, nor through its execution floor when its count is.
\<close>

theorem met_record_never_regresses:
  assumes "tol b \<le> 1"
    and "\<And>rf. map_of (sub (rate_floors b) ws) (o_target ob) = Some rf \<Longrightarrow>
           is_f64 rf \<and> 0 \<le> rf \<and> rf \<le> o_rate ob"
    and "\<And>fv. map_of (sub (floors b) ws) (o_target ob) = Some fv \<Longrightarrow>
           0 \<le> fv \<and> fv \<le> 2 ^ 53 \<and> fv \<le> o_execs ob"
  shows "j_outcome (judge_obs b ws acks ob) \<noteq> Regressed"
proof -
  have r: "f64_mul rf (tol b) \<le> o_rate ob" if "map_of (sub (rate_floors b) ws) (o_target ob) = Some rf" for rf
    using assms(2) [OF that] f64_mul_le [of rf "tol b"] assms(1) by linarith
  have e: "f64_mul (f64_of_int fv) (tol b) \<le> f64_of_int (o_execs ob)"
    if "map_of (sub (floors b) ws) (o_target ob) = Some fv" for fv
  proof -
    have fv: "0 \<le> fv" "\<bar>fv\<bar> \<le> 2 ^ 53" "fv \<le> o_execs ob" using assms(3) [OF that] by auto
    then have "is_f64 (f64_of_int fv)" "0 \<le> f64_of_int fv"
      by (simp_all add: is_f64_def f64_of_int_exact f64_int)
    then have "f64_mul (f64_of_int fv) (tol b) \<le> f64_of_int fv" using assms(1) by (rule f64_mul_le)
    also have "\<dots> \<le> f64_of_int (o_execs ob)" using fv(3) by (rule f64_of_int_mono)
    finally show ?thesis .
  qed
  show ?thesis
    using r e by (fastforce simp: judge_obs_regressed below_floor_def Let_def not_less split: option.splits bool.splits)
qed

lemma tol_ex_baseline: "tol ex_baseline \<le> 1"
  by (simp add: tol_def ex_baseline_def DefaultTolerance_def) code_simp

lemma met_record_never_regresses_witness:
  "j_outcome (judge_obs ex_baseline ''w'' [] (ex_obs ''a'' 250 ''jobs=4'')) \<noteq> Regressed"
  by (rule met_record_never_regresses [OF tol_ex_baseline])
     (auto simp: ex_baseline_def ex_obs_def sub_def)

text \<open>
  a legacy floor, one with no recorded regime, is skipped once and then stamped with the regime of the
  round that skipped it, not with the one that earned it. The round that was waved through as
  incomparable fails when it is checked again after its own update, since the old number now counts
  as earned under its regime.
\<close>

theorem legacy_floor_stamped_by_other_round:
  assumes "map_of (sub (floors b) ws) t = Some fv" and "map_of (sub (regimes b) ws) t = None"
    and "sub (rate_floors b) ws = []" and "wf_map (sub (floors b) ws)"
    and "o_target ob = t" and "o_regime ob \<noteq> []" and "o_rate ob = 0" and "o_execs ob \<le> fv"
    and "f64_of_int (o_execs ob) < f64_mul (f64_of_int fv) (tol b)" and "map_of acks t = None"
  shows "\<not> failed (check b ws [ob] acks) \<and> failed (check (fst (update ws [ob] b)) ws [ob] acks) \<and>
    map_of (sub (floors (fst (update ws [ob] b))) ws) t = Some fv \<and>
    map_of (sub (regimes (fst (update ws [ob] b))) ws) t = Some (o_regime ob)"
proof -
  let ?b = "fst (update ws [ob] b)" and ?k = "open_books b ws" and ?r = "o_regime ob"
  have rk: "round_key [ob] = ?r" using assms(6) by simp
  have rate: "update_rate ob (?k, empty_result) = (?k, empty_result)"
    using assms(7) by (simp add: update_rate_def)
  let ?s = "switch_floors ?r (?k, empty_result)"
  have "\<not> leaves ?r ?k t" using assms(2) by (simp add: leaves_def str_def)
  then have s: "map_of (bk_floors (fst ?s)) t = Some fv"
    using switch_fold [of "sub (floors b) ws" ?r "(?k, empty_result)" t] assms(1,4,6)
    by (simp add: switch_floors_eq)
  have upd: "fst (update_books [ob] ?k) = fst (update_floor ?r ob ?s)"
    by (simp only: update_books_eq rk fold.simps comp_apply id_apply rate)
  have "map_of (bk_floors (open_books ?b ws)) t = Some fv"
    unfolding open_update upd using s assms(5,8) by (simp add: update_floor_maps raise_to_def max_def)
  then have f: "map_of (sub (floors ?b) ws) t = Some fv" by simp
  have "map_of (bk_regs (open_books ?b ws)) t = Some ?r"
    unfolding open_update upd using assms(5,6) by (simp add: update_floor_maps)
  then have g: "map_of (sub (regimes ?b) ws) t = Some ?r" by simp
  have t: "tol ?b = tol b"
    using update_frame [of ws ws "[ob]" b t] by (simp add: tol_def)
  have "below_floor ?b ws ob"
    using f g t assms(5,7,9) by (simp add: below_floor_def Let_def str_def split: option.splits)
  moreover have "\<not> below_floor b ws ob"
    using assms(1,2,3,5,6,7) by (auto simp: below_floor_def Let_def str_def)
  ultimately show ?thesis
    using f g assms(5,10) sub_nonempty [OF f] by (auto simp: check_failed)
qed

definition legacy_baseline :: baseline where
  "legacy_baseline = \<lparr>version = 1, tolerance = f64 (1 / 10), floors = [(''w'', [(''a'', 1000)])],
     regimes = [], rate_floors = [], floors_archive = []\<rparr>"

lemma legacy_floor_stamped_by_other_round_witness:
  "failed (check (fst (update ''w'' [ex_obs ''a'' 7 ''jobs=1''] legacy_baseline)) ''w'' [ex_obs ''a'' 7 ''jobs=1''] [])"
proof -
  have "f64_of_int 7 < f64_mul (f64_of_int 1000) (f64 (1 / 10)) \<and> 0 < f64 (1 / 10)" by code_simp
  then have "f64_of_int 7 < f64_mul (f64_of_int 1000) (tol legacy_baseline)"
    by (simp add: tol_def legacy_baseline_def)
  then show ?thesis
    using legacy_floor_stamped_by_other_round [of legacy_baseline "''w''" "''a''" 1000 "ex_obs ''a'' 7 ''jobs=1''" "[]"]
    by (simp add: legacy_baseline_def ex_obs_def sub_def)
qed

text \<open>
  Two rounds are comparable exactly when they ran with the same number of jobs, a number below
  one counting as one.
\<close>

theorem regime_comparable_iff:
  "regime a = regime b \<longleftrightarrow> max 1 a = max 1 b"
proof -
  have inj: "i = j" if "1 \<le> i" "1 \<le> j" "itoa i = itoa j" for i j :: int
  proof -
    have "dec_val (itoa i) = dec_val (itoa j)" using that(3) by simp
    then have "nat i = nat j" using that(1,2) by (simp add: itoa_def)
    then show ?thesis using that(1,2) by simp
  qed
  have "regime n = ''jobs='' @ itoa (max 1 n)" for n
    unfolding regime_def by (cases "n < 1") (simp_all add: max_def)
  then have "regime a = regime b \<longleftrightarrow> itoa (max 1 a) = itoa (max 1 b)" by simp
  also have "\<dots> \<longleftrightarrow> max 1 a = max 1 b"
    using inj [of "max 1 a" "max 1 b"] by (metis max.cobounded1)
  finally show ?thesis .
qed

end
