(* ===== verification/Go_Regexp.thy ===== *)
theory Go_Regexp
  imports Go_Prelude
begin

text \<open>
  The regular expressions of the program, as data, with Go's leftmost-first matching: the matcher
  lists the ways a pattern matches at a position in the order of preference, so the first one is the
  match \<open>regexp\<close> reports. A capture group records the text it covered; on a loop the last
  iteration wins. Patterns are matched against single lines or short words, always finite, so the
  list is finite too (\<open>star\<close> only repeats a body that consumed something).
\<close>

datatype re =
    Class "char \<Rightarrow> bool"
  | Eps
  | Seq re re
  | Alt re re
  | Star re
  | LazyStar re
  | Group nat re
  | Bol
  | Eol
  | LineBol
  | LineEol
  | WordB

text \<open>A position: the byte before it, the rest of the text, the groups captured so far.\<close>

type_synonym pos = "char option \<times> string \<times> (nat \<times> string) list"

definition is_word :: "char \<Rightarrow> bool" where
  "is_word c \<longleftrightarrow> is_digit c \<or> (65 \<le> (of_char c :: nat) \<and> (of_char c :: nat) \<le> 90)
     \<or> (97 \<le> (of_char c :: nat) \<and> (of_char c :: nat) \<le> 122) \<or> c = CHR ''_''"

definition word_boundary :: "char option \<Rightarrow> string \<Rightarrow> bool" where
  "word_boundary p s \<longleftrightarrow>
     (case p of None \<Rightarrow> False | Some c \<Rightarrow> is_word c) \<noteq> (case s of [] \<Rightarrow> False | c # _ \<Rightarrow> is_word c)"

text \<open>Repetition of a matcher, greedy or lazy; each further round must have consumed a byte.\<close>

function star :: "(pos \<Rightarrow> pos list) \<Rightarrow> bool \<Rightarrow> pos \<Rightarrow> pos list" where
  "star m greedy p =
     (let more = concat (map (\<lambda>q. star m greedy q)
                   (filter (\<lambda>q. length (fst (snd q)) < length (fst (snd p))) (m p)))
      in if greedy then more @ [p] else p # more)"
  by pat_completeness auto
termination
  by (relation "measure (\<lambda>(m, g, p). length (fst (snd p)))") auto

declare star.simps [simp del]

fun matches :: "re \<Rightarrow> pos \<Rightarrow> pos list" where
  "matches (Class P) (p, s, g) = (case s of [] \<Rightarrow> [] | c # s' \<Rightarrow> if P c then [(Some c, s', g)] else [])"
| "matches Eps p = [p]"
| "matches (Seq a b) p = concat (map (matches b) (matches a p))"
| "matches (Alt a b) p = matches a p @ matches b p"
| "matches (Star a) p = star (matches a) True p"
| "matches (LazyStar a) p = star (matches a) False p"
| "matches (Group n a) (p, s, g) =
     map (\<lambda>(p', s', g'). (p', s', (n, take (length s - length s') s) # g')) (matches a (p, s, g))"
| "matches Bol (p, s, g) = (if p = None then [(p, s, g)] else [])"
| "matches Eol (p, s, g) = (if s = [] then [(p, s, g)] else [])"
| "matches LineBol (p, s, g) = (if p = None \<or> p = Some newline then [(p, s, g)] else [])"
| "matches LineEol (p, s, g) = (if s = [] \<or> hd s = newline then [(p, s, g)] else [])"
| "matches WordB (p, s, g) = (if word_boundary p s then [(p, s, g)] else [])"

text \<open>\<open>FindStringSubmatch\<close>: the groups of the leftmost match, and \<open>MatchString\<close>.\<close>

fun find_from :: "re \<Rightarrow> char option \<Rightarrow> string \<Rightarrow> (nat \<times> string) list option" where
  "find_from r p s =
     (case matches r (p, s, []) of
        (_, _, g) # _ \<Rightarrow> Some g
      | [] \<Rightarrow> (case s of [] \<Rightarrow> None | c # s' \<Rightarrow> find_from r (Some c) s'))"

definition find_re :: "re \<Rightarrow> string \<Rightarrow> (nat \<times> string) list option" where
  "find_re r s = find_from r None s"

definition match_re :: "re \<Rightarrow> string \<Rightarrow> bool" where
  "match_re r s \<longleftrightarrow> find_re r s \<noteq> None"

text \<open>The text of a group, \<open>""\<close> when the group did not take part.\<close>

definition grp :: "(nat \<times> string) list \<Rightarrow> nat \<Rightarrow> string" where
  "grp g n = (case map_of g n of None \<Rightarrow> [] | Some t \<Rightarrow> t)"

text \<open>\<open>ReplaceAllString\<close> by a constant, for patterns that never match the empty text.\<close>

function replace_from :: "re \<Rightarrow> string \<Rightarrow> char option \<Rightarrow> string \<Rightarrow> string" where
  "replace_from r w p [] = []"
| "replace_from r w p (c # s) =
     (case matches r (p, c # s, []) of
        (p', s', _) # _ \<Rightarrow>
          if length s' \<le> length s then w @ replace_from r w p' s' else c # replace_from r w (Some c) s
      | [] \<Rightarrow> c # replace_from r w (Some c) s)"
  by pat_completeness auto
termination
  by (relation "measure (\<lambda>(r, w, p, s). length s)") auto

definition replace_re :: "re \<Rightarrow> string \<Rightarrow> string \<Rightarrow> string" where
  "replace_re r w s = replace_from r w None s"

text \<open>
  \<open>FindAllStringSubmatch\<close>, for patterns that never match the empty text: the groups of the matches,
  each search starting where the last match ended.
\<close>

function find_all_from :: "re \<Rightarrow> char option \<Rightarrow> string \<Rightarrow> (nat \<times> string) list list" where
  "find_all_from r p [] = []"
| "find_all_from r p (c # s) =
     (case matches r (p, c # s, []) of
        (p', s', g) # _ \<Rightarrow>
          if length s' \<le> length s then g # find_all_from r p' s' else find_all_from r (Some c) s
      | [] \<Rightarrow> find_all_from r (Some c) s)"
  by pat_completeness auto
termination
  by (relation "measure (\<lambda>(r, p, s). length s)") auto

definition find_all :: "re \<Rightarrow> string \<Rightarrow> (nat \<times> string) list list" where
  "find_all r s = find_all_from r None s"

text \<open>\<open>FindStringIndex\<close>, read as the text before the leftmost match and the text after it.\<close>

fun find_split_from :: "re \<Rightarrow> char option \<Rightarrow> string \<Rightarrow> (string \<times> string) option" where
  "find_split_from r p s =
     (case matches r (p, s, []) of
        (_, s', _) # _ \<Rightarrow> Some ([], s')
      | [] \<Rightarrow> (case s of [] \<Rightarrow> None
               | c # t \<Rightarrow> map_option (\<lambda>(u, v). (c # u, v)) (find_split_from r (Some c) t)))"

definition find_split :: "re \<Rightarrow> string \<Rightarrow> (string \<times> string) option" where
  "find_split r s = find_split_from r None s"

subsection \<open>building blocks\<close>

fun lit :: "string \<Rightarrow> re" where
  "lit [] = Eps"
| "lit (c # s) = Seq (Class (\<lambda>x. x = c)) (lit s)"

definition plus :: "re \<Rightarrow> re" where "plus r = Seq r (Star r)"
definition opt :: "re \<Rightarrow> re" where "opt r = Alt r Eps"

text \<open>\<open>r{0,n}\<close>.\<close>

fun up_to :: "nat \<Rightarrow> re \<Rightarrow> re" where
  "up_to 0 r = Eps"
| "up_to (Suc n) r = Alt (Seq r (up_to n r)) Eps"

definition digits :: re where "digits = plus (Class is_digit)"
definition re_space :: "char \<Rightarrow> bool" where "re_space c \<longleftrightarrow> is_space c \<and> c \<noteq> CHR 0x0B"
definition spaces :: re where "spaces = plus (Class re_space)"
definition any :: re where "any = Class (\<lambda>c. c \<noteq> newline)"

fun seqs :: "re list \<Rightarrow> re" where
  "seqs [] = Eps"
| "seqs [r] = r"
| "seqs (r # s # rs) = Seq r (seqs (s # rs))"

definition lower_or :: "string \<Rightarrow> char \<Rightarrow> bool" where
  "lower_or extra c \<longleftrightarrow> (97 \<le> (of_char c :: nat) \<and> (of_char c :: nat) \<le> 122) \<or> c \<in> set extra"

definition lower_digit_or :: "string \<Rightarrow> char \<Rightarrow> bool" where
  "lower_digit_or extra c \<longleftrightarrow> lower_or extra c \<or> is_digit c"

text \<open>A literal under \<open>(?i)\<close>, for patterns of ASCII text.\<close>

definition lower :: "char \<Rightarrow> char" where
  "lower c = (if 65 \<le> (of_char c :: nat) \<and> (of_char c :: nat) \<le> 90 then char_of ((of_char c :: nat) + 32) else c)"

fun lit_ci :: "string \<Rightarrow> re" where
  "lit_ci [] = Eps"
| "lit_ci (c # s) = Seq (Class (\<lambda>x. lower x = lower c)) (lit_ci s)"

fun alts :: "re list \<Rightarrow> re" where
  "alts [] = Class (\<lambda>_. False)"
| "alts [r] = r"
| "alts (r # s # rs) = Alt r (alts (s # rs))"

subsection \<open>what a match covers\<close>

text \<open>
  Every way to match consumes a prefix of the rest; \<open>only\<close> bounds the bytes a pattern can consume, so
  a group whose body is \<open>\d+\<close> captures digits and nothing else.
\<close>

fun only :: "(char \<Rightarrow> bool) \<Rightarrow> re \<Rightarrow> bool" where
  "only Q (Class P) = (\<forall>c. P c \<longrightarrow> Q c)"
| "only Q (Seq a b) = (only Q a \<and> only Q b)"
| "only Q (Alt a b) = (only Q a \<and> only Q b)"
| "only Q (Star a) = only Q a"
| "only Q (LazyStar a) = only Q a"
| "only Q (Group n a) = only Q a"
| "only Q _ = True"

definition consumes :: "(char \<Rightarrow> bool) \<Rightarrow> pos \<Rightarrow> pos \<Rightarrow> bool" where
  "consumes Q p q \<longleftrightarrow> (\<exists>t. fst (snd p) = t @ fst (snd q) \<and> list_all Q t)"

lemma consumes_refl [simp]: "consumes Q p p"
  by (simp add: consumes_def)

lemma consumes_trans: "consumes Q p q \<Longrightarrow> consumes Q q r \<Longrightarrow> consumes Q p r"
proof -
  assume "consumes Q p q" "consumes Q q r"
  then obtain t u where "fst (snd p) = t @ fst (snd q)" "list_all Q t"
    "fst (snd q) = u @ fst (snd r)" "list_all Q u"
    by (auto simp: consumes_def)
  then have "fst (snd p) = (t @ u) @ fst (snd r) \<and> list_all Q (t @ u)" by simp
  then show ?thesis unfolding consumes_def by blast
qed

lemma star_consumes:
  assumes "\<And>p q. q \<in> set (m p) \<Longrightarrow> consumes Q p q"
  shows "q \<in> set (star m g p) \<Longrightarrow> consumes Q p q"
  using assms
proof (induction m g p rule: star.induct)
  case (1 m g p)
  from "1.prems" have "q = p \<or> (\<exists>r \<in> set (m p). length (fst (snd r)) < length (fst (snd p)) \<and>
      q \<in> set (star m g r))"
    by (subst (asm) star.simps) (auto simp: Let_def split: if_splits)
  then show ?case
  proof
    assume "\<exists>r \<in> set (m p). length (fst (snd r)) < length (fst (snd p)) \<and> q \<in> set (star m g r)"
    then obtain r where r: "r \<in> set (m p)" "length (fst (snd r)) < length (fst (snd p))"
      "q \<in> set (star m g r)" by blast
    then have "consumes Q r q" using "1.IH" "1.prems"(2) by simp
    with r "1.prems"(2) show ?thesis by (blast intro: consumes_trans)
  qed simp
qed

lemma matches_consumes: "only Q r \<Longrightarrow> q \<in> set (matches r p) \<Longrightarrow> consumes Q p q"
proof (induction r p arbitrary: q rule: matches.induct)
  case (1 P p s g)
  then show ?case by (auto simp: consumes_def split: list.splits if_splits)
next
  case (3 a b p)
  then obtain r where r: "r \<in> set (matches a p)" "q \<in> set (matches b r)" by auto
  have "consumes Q p r" using 3 r by simp
  moreover have "consumes Q r q" using 3 r by simp
  ultimately show ?case by (rule consumes_trans)
next
  case (5 a p)
  have "\<And>p q. q \<in> set (matches a p) \<Longrightarrow> consumes Q p q"
    using 5 by simp
  from star_consumes [OF this] 5 show ?case by simp
next
  case (6 a p)
  have "\<And>p q. q \<in> set (matches a p) \<Longrightarrow> consumes Q p q"
    using 6 by simp
  from star_consumes [OF this] 6 show ?case by simp
next
  case (7 n a p s g)
  then obtain p' s' g' where "(p', s', g') \<in> set (matches a (p, s, g))" and q: "fst (snd q) = s'"
    by auto
  then have "consumes Q (p, s, g) (p', s', g')" using 7 by simp
  with q show ?case by (simp add: consumes_def)
qed (auto split: if_splits)

fun group_only :: "nat \<Rightarrow> (char \<Rightarrow> bool) \<Rightarrow> re \<Rightarrow> bool" where
  "group_only n Q (Seq a b) = (group_only n Q a \<and> group_only n Q b)"
| "group_only n Q (Alt a b) = (group_only n Q a \<and> group_only n Q b)"
| "group_only n Q (Star a) = group_only n Q a"
| "group_only n Q (LazyStar a) = group_only n Q a"
| "group_only n Q (Group m a) = (group_only n Q a \<and> (m = n \<longrightarrow> only Q a))"
| "group_only n Q _ = True"

definition groups_ok :: "nat \<Rightarrow> (char \<Rightarrow> bool) \<Rightarrow> pos \<Rightarrow> bool" where
  "groups_ok n Q p \<longleftrightarrow> (\<forall>t. (n, t) \<in> set (snd (snd p)) \<longrightarrow> list_all Q t)"

lemma star_groups_ok:
  assumes "\<And>p q. q \<in> set (m p) \<Longrightarrow> groups_ok n Q p \<Longrightarrow> groups_ok n Q q"
  shows "q \<in> set (star m g p) \<Longrightarrow> groups_ok n Q p \<Longrightarrow> groups_ok n Q q"
  using assms
proof (induction m g p rule: star.induct)
  case (1 m g p)
  from "1.prems" have "q = p \<or> (\<exists>r \<in> set (m p). length (fst (snd r)) < length (fst (snd p)) \<and>
      q \<in> set (star m g r))"
    by (subst (asm) star.simps) (auto simp: Let_def split: if_splits)
  then show ?case
  proof
    assume "\<exists>r \<in> set (m p). length (fst (snd r)) < length (fst (snd p)) \<and> q \<in> set (star m g r)"
    then obtain r where r: "r \<in> set (m p)" "length (fst (snd r)) < length (fst (snd p))"
      "q \<in> set (star m g r)" by blast
    then have "groups_ok n Q r" using "1.prems" by blast
    moreover have "r \<in> set (filter (\<lambda>q. length (fst (snd q)) < length (fst (snd p))) (m p))"
      using r by simp
    ultimately show ?thesis using "1.IH" "1.prems"(3) r(3) by blast
  qed (use "1.prems" in simp)
qed

lemma matches_groups_ok:
  "group_only n Q r \<Longrightarrow> q \<in> set (matches r p) \<Longrightarrow> groups_ok n Q p \<Longrightarrow> groups_ok n Q q"
proof (induction r p arbitrary: q rule: matches.induct)
  case (1 P p s g)
  then show ?case by (auto simp: groups_ok_def split: list.splits if_splits)
next
  case (3 a b p)
  then obtain r where r: "r \<in> set (matches a p)" "q \<in> set (matches b r)" by auto
  have "groups_ok n Q r" using 3 r by simp
  then show ?case using 3 r by simp
next
  case (5 a p)
  have "\<And>p q. q \<in> set (matches a p) \<Longrightarrow> groups_ok n Q p \<Longrightarrow> groups_ok n Q q"
    using 5 by simp
  from star_groups_ok [OF this] 5 show ?case by simp
next
  case (6 a p)
  have "\<And>p q. q \<in> set (matches a p) \<Longrightarrow> groups_ok n Q p \<Longrightarrow> groups_ok n Q q"
    using 6 by simp
  from star_groups_ok [OF this] 6 show ?case by simp
next
  case (7 m a p s g)
  then obtain p' s' g' where m: "(p', s', g') \<in> set (matches a (p, s, g))"
    and q: "q = (p', s', (m, take (length s - length s') s) # g')"
    by auto
  have "groups_ok n Q (p', s', g')" using 7 m by simp
  moreover have "m = n \<Longrightarrow> list_all Q (take (length s - length s') s)"
  proof -
    assume "m = n"
    then have "consumes Q (p, s, g) (p', s', g')"
      using "7.prems"(1) m matches_consumes by fastforce
    then show ?thesis by (auto simp: consumes_def)
  qed
  ultimately show ?case using q by (auto simp: groups_ok_def)
qed (auto split: if_splits)

lemma find_from_group:
  "group_only n Q r \<Longrightarrow> find_from r p s = Some g \<Longrightarrow> list_all Q (grp g n)"
proof (induction r p s rule: find_from.induct)
  case (1 r p s)
  show ?case
  proof (cases "matches r (p, s, [])")
    case (Cons q qs)
    obtain c s' g' where q: "q = (c, s', g')" by (cases q)
    then have "g = g'" using Cons "1.prems"(2) by simp
    have "groups_ok n Q (p, s, [])" by (simp add: groups_ok_def)
    then have "groups_ok n Q q"
      using matches_groups_ok [OF "1.prems"(1)] Cons by (metis list.set_intros(1))
    then show ?thesis
      using \<open>g = g'\<close> q by (auto simp: grp_def groups_ok_def split: option.splits dest: map_of_SomeD)
  next
    case Nil
    with 1 show ?thesis by (auto split: list.splits)
  qed
qed

lemma find_re_group:
  "find_re r s = Some g \<Longrightarrow> group_only n Q r \<Longrightarrow> list_all Q (grp g n)"
  unfolding find_re_def by (rule find_from_group)

text \<open>A captured run of digits reads as a number that is not negative.\<close>

lemma find_re_number:
  "find_re r s = Some g \<Longrightarrow> group_only n is_digit r \<Longrightarrow> 0 \<le> fst (atoi (grp g n))"
  by (rule atoi_nonneg) (rule find_re_group)

lemma only_digits [simp]: "only is_digit digits"
  by (simp add: digits_def plus_def)

lemma group_only_lit [simp]: "group_only n Q (lit s)"
  by (induction s) auto

lemma group_only_blocks [simp]:
  "group_only n Q digits" "group_only n Q spaces" "group_only n Q any"
  "group_only n Q (plus a) = group_only n Q a" "group_only n Q (opt a) = group_only n Q a"
  by (auto simp: digits_def spaces_def any_def plus_def opt_def)

subsection \<open>text a pattern cannot do without\<close>

text \<open>
  A cheap test for a literal in front of an expensive pattern is sound when every match of the pattern
  has to consume that literal.
\<close>

definition needs :: "re \<Rightarrow> string \<Rightarrow> bool" where
  "needs r w \<longleftrightarrow> (\<forall>p q. q \<in> set (matches r p) \<longrightarrow> (\<exists>u v. fst (snd p) = u @ w @ v @ fst (snd q)))"

lemma matches_lit: "q \<in> set (matches (lit w) p) \<Longrightarrow> fst (snd p) = w @ fst (snd q)"
proof (induction w arbitrary: p)
  case (Cons c w)
  then show ?case by (cases p) (auto split: list.splits if_splits)
qed simp

lemma needs_lit: "needs (lit w) w"
  unfolding needs_def using matches_lit by (metis append_Nil)

lemma matches_suffix: "q \<in> set (matches r p) \<Longrightarrow> \<exists>u. fst (snd p) = u @ fst (snd q)"
proof -
  assume "q \<in> set (matches r p)"
  moreover have "only (\<lambda>_. True) r" by (induction r) auto
  ultimately have "consumes (\<lambda>_. True) p q" by (rule matches_consumes [rotated])
  then show ?thesis by (auto simp: consumes_def)
qed

lemma needs_seq1: "needs a w \<Longrightarrow> needs (Seq a b) w"
  unfolding needs_def
proof (intro allI impI)
  fix p q
  assume n: "\<forall>p q. q \<in> set (matches a p) \<longrightarrow> (\<exists>u v. fst (snd p) = u @ w @ v @ fst (snd q))"
    and q: "q \<in> set (matches (Seq a b) p)"
  then obtain r where r: "r \<in> set (matches a p)" "q \<in> set (matches b r)" by auto
  obtain u v where "fst (snd p) = u @ w @ v @ fst (snd r)" using n r by blast
  moreover obtain t where "fst (snd r) = t @ fst (snd q)" using matches_suffix r by blast
  ultimately have "fst (snd p) = u @ w @ (v @ t) @ fst (snd q)" by simp
  then show "\<exists>u v. fst (snd p) = u @ w @ v @ fst (snd q)" by blast
qed

lemma needs_seq2: "needs b w \<Longrightarrow> needs (Seq a b) w"
  unfolding needs_def
proof (intro allI impI)
  fix p q
  assume n: "\<forall>p q. q \<in> set (matches b p) \<longrightarrow> (\<exists>u v. fst (snd p) = u @ w @ v @ fst (snd q))"
    and q: "q \<in> set (matches (Seq a b) p)"
  then obtain r where r: "r \<in> set (matches a p)" "q \<in> set (matches b r)" by auto
  obtain u v where "fst (snd r) = u @ w @ v @ fst (snd q)" using n r by blast
  moreover obtain t where "fst (snd p) = t @ fst (snd r)" using matches_suffix r by blast
  ultimately have "fst (snd p) = (t @ u) @ w @ v @ fst (snd q)" by simp
  then show "\<exists>u v. fst (snd p) = u @ w @ v @ fst (snd q)" by blast
qed

lemma needs_alt: "needs a w \<Longrightarrow> needs b w \<Longrightarrow> needs (Alt a b) w"
  unfolding needs_def by (simp only: matches.simps set_append Un_iff) blast

lemma needs_part: "needs r (u @ w @ v) \<Longrightarrow> needs r w"
proof -
  assume n: "needs r (u @ w @ v)"
  have "\<exists>x y. fst (snd p) = x @ w @ y @ fst (snd q)" if q: "q \<in> set (matches r p)" for p q
  proof -
    obtain x y where "fst (snd p) = x @ (u @ w @ v) @ y @ fst (snd q)" using n q unfolding needs_def by blast
    then have "fst (snd p) = (x @ u) @ w @ (v @ y) @ fst (snd q)" by simp
    then show ?thesis by blast
  qed
  then show ?thesis unfolding needs_def by blast
qed

lemma find_from_match:
  "find_from r p s = Some g \<Longrightarrow> \<exists>u p' s' q. s = u @ s' \<and> q \<in> set (matches r (p', s', []))"
proof (induction r p s rule: find_from.induct)
  case (1 r p s)
  show ?case
  proof (cases "matches r (p, s, [])")
    case Nil
    then obtain c t where s: "s = c # t" using "1.prems" by (cases s) (simp_all add: find_from.simps)
    with Nil "1.prems" have "find_from r (Some c) t = Some g" by (subst (asm) find_from.simps) simp
    with "1.IH" [OF Nil s] obtain u p' s' q where "t = u @ s'" "q \<in> set (matches r (p', s', []))" by blast
    then have "s = (c # u) @ s' \<and> q \<in> set (matches r (p', s', []))" by (simp add: s)
    then show ?thesis by blast
  next
    case (Cons q qs)
    then have "s = [] @ s \<and> q \<in> set (matches r (p, s, []))" by simp
    then show ?thesis by blast
  qed
qed

lemma needs_contains: "needs r w \<Longrightarrow> q \<in> set (matches r (p, s, g)) \<Longrightarrow> contains (u @ s) w"
proof -
  assume "needs r w" "q \<in> set (matches r (p, s, g))"
  then obtain x y where "s = x @ w @ y @ fst (snd q)" unfolding needs_def by fastforce
  then have "u @ s = (u @ x) @ w @ (y @ fst (snd q))" by simp
  then show ?thesis unfolding contains_iff by blast
qed

lemma find_re_contains: "needs r w \<Longrightarrow> find_re r s = Some g \<Longrightarrow> contains s w"
  unfolding find_re_def using find_from_match needs_contains by metis

lemma find_re_contains_alt:
  assumes "needs a w" and "needs b v" and "find_re (Alt a b) s = Some g"
  shows "contains s w \<or> contains s v"
proof -
  obtain u p s' q where s: "s = u @ s'" and "q \<in> set (matches (Alt a b) (p, s', []))"
    using assms(3) find_from_match unfolding find_re_def by metis
  then have "q \<in> set (matches a (p, s', [])) \<or> q \<in> set (matches b (p, s', []))" by simp
  then show ?thesis using assms(1,2) needs_contains s by metis
qed

lemma find_all_from_match:
  "find_all_from r p s \<noteq> [] \<Longrightarrow> \<exists>u p' s' q. s = u @ s' \<and> q \<in> set (matches r (p', s', []))"
proof (induction r p s rule: find_all_from.induct)
  case (2 r p c s)
  show ?case
  proof (cases "matches r (p, c # s, [])")
    case Nil
    with "2.prems" have "find_all_from r (Some c) s \<noteq> []" by simp
    with "2.IH"(1) [OF Nil] obtain u p' s' q where "s = u @ s'" "q \<in> set (matches r (p', s', []))" by blast
    then have "c # s = (c # u) @ s' \<and> q \<in> set (matches r (p', s', []))" by simp
    then show ?thesis by blast
  next
    case (Cons q qs)
    then have "c # s = [] @ (c # s) \<and> q \<in> set (matches r (p, c # s, []))" by simp
    then show ?thesis by blast
  qed
qed simp

lemma find_all_contains: "needs r w \<Longrightarrow> \<not> contains s w \<Longrightarrow> find_all r s = []"
  unfolding find_all_def using find_all_from_match needs_contains by metis

lemma needs_group: "needs a w \<Longrightarrow> needs (Group n a) w"
  unfolding needs_def
proof (intro allI impI)
  fix p q
  assume n: "\<forall>p q. q \<in> set (matches a p) \<longrightarrow> (\<exists>u v. fst (snd p) = u @ w @ v @ fst (snd q))"
    and q: "q \<in> set (matches (Group n a) p)"
  obtain b s g where p: "p = (b, s, g)" by (cases p)
  then obtain r where "r \<in> set (matches a p)" "fst (snd q) = fst (snd r)" using q by auto
  with n show "\<exists>u v. fst (snd p) = u @ w @ v @ fst (snd q)" by metis
qed

text \<open>A literal that two consecutive parts of a pattern make up together.\<close>

definition starts_lit :: "re \<Rightarrow> string \<Rightarrow> bool" where
  "starts_lit r w \<longleftrightarrow> (\<forall>p q. q \<in> set (matches r p) \<longrightarrow> (\<exists>y. fst (snd p) = w @ y @ fst (snd q)))"

definition ends_lit :: "re \<Rightarrow> string \<Rightarrow> bool" where
  "ends_lit r w \<longleftrightarrow> (\<forall>p q. q \<in> set (matches r p) \<longrightarrow> (\<exists>x. fst (snd p) = x @ w @ fst (snd q)))"

lemma starts_lit_lit: "starts_lit (lit (w @ v)) w"
  unfolding starts_lit_def using matches_lit by fastforce

lemma starts_lit_seq: "starts_lit a w \<Longrightarrow> starts_lit (Seq a b) w"
  unfolding starts_lit_def
proof (intro allI impI)
  fix p q
  assume n: "\<forall>p q. q \<in> set (matches a p) \<longrightarrow> (\<exists>y. fst (snd p) = w @ y @ fst (snd q))"
    and "q \<in> set (matches (Seq a b) p)"
  then obtain r where r: "r \<in> set (matches a p)" "q \<in> set (matches b r)" by auto
  obtain y where "fst (snd p) = w @ y @ fst (snd r)" using n r by blast
  moreover obtain t where "fst (snd r) = t @ fst (snd q)" using matches_suffix r by blast
  ultimately have "fst (snd p) = w @ (y @ t) @ fst (snd q)" by simp
  then show "\<exists>y. fst (snd p) = w @ y @ fst (snd q)" by blast
qed

lemma ends_lit_lit: "ends_lit (lit w) w"
  unfolding ends_lit_def using matches_lit by (metis append_Nil)

lemma ends_lit_seq: "ends_lit b w \<Longrightarrow> ends_lit (Seq a b) w"
  unfolding ends_lit_def
proof (intro allI impI)
  fix p q
  assume n: "\<forall>p q. q \<in> set (matches b p) \<longrightarrow> (\<exists>x. fst (snd p) = x @ w @ fst (snd q))"
    and "q \<in> set (matches (Seq a b) p)"
  then obtain r where r: "r \<in> set (matches a p)" "q \<in> set (matches b r)" by auto
  obtain x where "fst (snd r) = x @ w @ fst (snd q)" using n r by blast
  moreover obtain t where "fst (snd p) = t @ fst (snd r)" using matches_suffix r by blast
  ultimately have "fst (snd p) = (t @ x) @ w @ fst (snd q)" by simp
  then show "\<exists>x. fst (snd p) = x @ w @ fst (snd q)" by blast
qed

lemma ends_lit_group: "ends_lit a w \<Longrightarrow> ends_lit (Group n a) w"
  unfolding ends_lit_def
proof (intro allI impI)
  fix p q
  assume n: "\<forall>p q. q \<in> set (matches a p) \<longrightarrow> (\<exists>x. fst (snd p) = x @ w @ fst (snd q))"
    and q: "q \<in> set (matches (Group n a) p)"
  obtain b s g where p: "p = (b, s, g)" by (cases p)
  then obtain r where "r \<in> set (matches a p)" "fst (snd q) = fst (snd r)" using q by auto
  with n show "\<exists>x. fst (snd p) = x @ w @ fst (snd q)" by metis
qed

lemma needs_join:
  assumes "ends_lit a u" and "starts_lit b v"
  shows "needs (Seq a b) (u @ v)"
  unfolding needs_def
proof (intro allI impI)
  fix p q
  assume "q \<in> set (matches (Seq a b) p)"
  then obtain r where r: "r \<in> set (matches a p)" "q \<in> set (matches b r)" by auto
  obtain x where "fst (snd p) = x @ u @ fst (snd r)" using assms(1) r unfolding ends_lit_def by blast
  moreover obtain y where "fst (snd r) = v @ y @ fst (snd q)" using assms(2) r unfolding starts_lit_def by blast
  ultimately have "fst (snd p) = x @ (u @ v) @ y @ fst (snd q)" by simp
  then show "\<exists>x y. fst (snd p) = x @ (u @ v) @ y @ fst (snd q)" by blast
qed

lemma needs_join_alt:
  assumes q: "q \<in> set (matches (Seq (Group n (Alt (lit u) (lit w))) (Seq (lit v) c)) (p, s, g))"
  shows "contains (t @ s) (u @ v) \<or> contains (t @ s) (w @ v)"
proof -
  from q have "q \<in> set (matches (Seq (Group n (lit u)) (Seq (lit v) c)) (p, s, g))
      \<or> q \<in> set (matches (Seq (Group n (lit w)) (Seq (lit v) c)) (p, s, g))"
    by auto
  moreover have "needs (Seq (Group n (lit x)) (Seq (lit v) c)) (x @ v)" for x
    by (rule needs_join [OF ends_lit_group [OF ends_lit_lit]])
      (rule starts_lit_seq, use starts_lit_lit [of v "[]"] in simp)
  ultimately show ?thesis using needs_contains by metis
qed

text \<open>The last byte a pattern consumes, for patterns anchored at the end of the text.\<close>

definition ends_in :: "re \<Rightarrow> (char \<Rightarrow> bool) \<Rightarrow> bool" where
  "ends_in r P \<longleftrightarrow> (\<forall>p q. q \<in> set (matches r p) \<longrightarrow> (\<exists>u c. fst (snd p) = u @ c # fst (snd q) \<and> P c))"

lemma ends_in_plus: "ends_in (plus (Class P)) P"
  unfolding ends_in_def
proof (intro allI impI)
  fix p q
  assume "q \<in> set (matches (plus (Class P)) p)"
  then obtain r where r: "r \<in> set (matches (Class P) p)" "q \<in> set (matches (Star (Class P)) r)"
    by (auto simp: plus_def)
  obtain c where c: "fst (snd p) = c # fst (snd r)" "P c"
    using r(1) by (cases p) (auto split: list.splits if_splits)
  have "only P (Star (Class P))" by simp
  from matches_consumes [OF this r(2)] obtain t where t: "fst (snd r) = t @ fst (snd q)" "list_all P t"
    by (auto simp: consumes_def)
  show "\<exists>u c. fst (snd p) = u @ c # fst (snd q) \<and> P c"
  proof (cases t rule: rev_cases)
    case Nil
    with c t show ?thesis by auto
  next
    case (snoc t' d)
    with c t have "fst (snd p) = (c # t') @ d # fst (snd q) \<and> P d" by simp
    then show ?thesis by blast
  qed
qed

lemma ends_in_seq: "ends_in b P \<Longrightarrow> ends_in (Seq a b) P"
  unfolding ends_in_def
proof (intro allI impI)
  fix p q
  assume e: "\<forall>p q. q \<in> set (matches b p) \<longrightarrow> (\<exists>u c. fst (snd p) = u @ c # fst (snd q) \<and> P c)"
    and "q \<in> set (matches (Seq a b) p)"
  then obtain r where r: "r \<in> set (matches a p)" "q \<in> set (matches b r)" by auto
  obtain u c where "fst (snd r) = u @ c # fst (snd q)" "P c" using e r by blast
  moreover obtain t where "fst (snd p) = t @ fst (snd r)" using matches_suffix r by blast
  ultimately have "fst (snd p) = (t @ u) @ c # fst (snd q) \<and> P c" by simp
  then show "\<exists>u c. fst (snd p) = u @ c # fst (snd q) \<and> P c" by blast
qed

lemma ends_in_eol: "ends_in b P \<Longrightarrow> ends_in (Seq b Eol) P"
  unfolding ends_in_def by (fastforce split: if_splits)

definition to_end :: "re \<Rightarrow> bool" where
  "to_end r \<longleftrightarrow> (\<forall>p q. q \<in> set (matches r p) \<longrightarrow> fst (snd q) = [])"

lemma to_end_eol: "to_end Eol"
  by (auto simp: to_end_def split: if_splits)

lemma to_end_seq: "to_end b \<Longrightarrow> to_end (Seq a b)"
  unfolding to_end_def
proof (intro allI impI)
  fix p q
  assume e: "\<forall>p q. q \<in> set (matches b p) \<longrightarrow> fst (snd q) = []" and "q \<in> set (matches (Seq a b) p)"
  then obtain r where "q \<in> set (matches b r)" by auto
  with e show "fst (snd q) = []" by blast
qed

lemma find_re_last:
  assumes "ends_in r P" and "to_end r" and "find_re r s = Some g"
  shows "s \<noteq> [] \<and> P (last s)"
proof -
  obtain u p s' q where s: "s = u @ s'" and q: "q \<in> set (matches r (p, s', []))"
    using assms(3) find_from_match unfolding find_re_def by metis
  have "fst (snd q) = []" using assms(2) q unfolding to_end_def by blast
  with assms(1) q obtain v c where "s' = v @ [c]" "P c" unfolding ends_in_def by fastforce
  with s show ?thesis by simp
qed

subsection \<open>the preferred match, step by step\<close>

text \<open>
  A run of a pattern in which every part matches at its first choice gives the first of all matches: the
  rules below follow a pattern along a text without listing the alternatives.
\<close>

definition firstly :: "re \<Rightarrow> pos \<Rightarrow> pos \<Rightarrow> bool" where
  "firstly r p q \<longleftrightarrow> (\<exists>qs. matches r p = q # qs)"

definition fails :: "re \<Rightarrow> pos \<Rightarrow> bool" where
  "fails r p \<longleftrightarrow> matches r p = []"

lemma firstly_seq: "firstly a p q \<Longrightarrow> firstly b q r \<Longrightarrow> firstly (Seq a b) p r"
  by (auto simp: firstly_def)

lemma firstly_alt1: "firstly a p q \<Longrightarrow> firstly (Alt a b) p q"
  by (auto simp: firstly_def)

lemma firstly_alt2: "fails a p \<Longrightarrow> firstly b p q \<Longrightarrow> firstly (Alt a b) p q"
  by (auto simp: firstly_def fails_def)

lemma firstly_eps: "firstly Eps p p"
  by (simp add: firstly_def)

lemma firstly_class: "P c \<Longrightarrow> firstly (Class P) (p, c # s, g) (Some c, s, g)"
  by (simp add: firstly_def)

lemma firstly_line_bol: "p = None \<or> p = Some newline \<Longrightarrow> firstly LineBol (p, s, g) (p, s, g)"
  by (simp add: firstly_def)

lemma firstly_line_eol: "s = [] \<or> hd s = newline \<Longrightarrow> firstly LineEol (p, s, g) (p, s, g)"
  by (simp add: firstly_def)

lemma firstly_bol: "firstly Bol (None, s, g) (None, s, g)"
  by (simp add: firstly_def)

lemma firstly_eol: "firstly Eol (p, [], g) (p, [], g)"
  by (simp add: firstly_def)

lemma firstly_group:
  "firstly a (p, s, g) (p', s', g') \<Longrightarrow>
   firstly (Group n a) (p, s, g) (p', s', (n, take (length s - length s') s) # g')"
  by (auto simp: firstly_def)

definition end_of :: "char option \<Rightarrow> string \<Rightarrow> char option" where
  "end_of p w = (if w = [] then p else Some (last w))"

lemma end_of_simps [simp]: "end_of p [] = p" "end_of p (c # w) = end_of (Some c) w"
  by (simp_all add: end_of_def)

lemma end_of_snoc [simp]: "end_of p (w @ [c]) = Some c"
  by (simp add: end_of_def)

lemma firstly_lit: "firstly (lit w) (p, w @ s, g) (end_of p w, s, g)"
proof (induction w arbitrary: p)
  case (Cons c w)
  show ?case using firstly_seq [OF firstly_class Cons.IH] by simp
qed (simp add: firstly_eps)

lemma star_step:
  assumes "matches a p = q # qs" and "length (fst (snd q)) < length (fst (snd p))"
    and "\<exists>rs. star (matches a) True q = r # rs"
  shows "\<exists>rs. star (matches a) True p = r # rs"
  using assms by (subst star.simps) (auto simp: Let_def)

lemma firstly_star_stop: "fails a p \<Longrightarrow> firstly (Star a) p p"
  unfolding firstly_def fails_def by (cases p) (subst matches.simps, subst star.simps, simp)

lemma firstly_star_class:
  "list_all P w \<Longrightarrow> s = [] \<or> \<not> P (hd s) \<Longrightarrow> firstly (Star (Class P)) (p, w @ s, g) (end_of p w, s, g)"
proof (induction w arbitrary: p)
  case Nil
  then have "fails (Class P) (p, s, g)" by (cases s) (simp_all add: fails_def)
  then show ?case using firstly_star_stop by simp
next
  case (Cons c w)
  from Cons.IH [of "Some c"] Cons.prems
  have "\<exists>rs. star (matches (Class P)) True (Some c, w @ s, g) = (end_of (Some c) w, s, g) # rs"
    by (simp add: firstly_def)
  then show ?case
    unfolding firstly_def using Cons.prems by (simp add: star_step [of "Class P" _ "(Some c, w @ s, g)"])
qed

lemma firstly_plus_class:
  "list_all P w \<Longrightarrow> w \<noteq> [] \<Longrightarrow> s = [] \<or> \<not> P (hd s) \<Longrightarrow>
   firstly (plus (Class P)) (p, w @ s, g) (end_of p w, s, g)"
  unfolding plus_def
  by (cases w) (auto intro: firstly_seq [OF firstly_class firstly_star_class])

lemma firstly_opt: "firstly a p q \<Longrightarrow> firstly (opt a) p q"
  unfolding opt_def by (rule firstly_alt1)

lemma firstly_opt_skip: "fails a p \<Longrightarrow> firstly (opt a) p p"
  unfolding opt_def by (rule firstly_alt2 [OF _ firstly_eps])

lemma fails_seq: "fails a p \<Longrightarrow> fails (Seq a b) p"
  by (cases p) (simp add: fails_def)

lemma fails_line_bol: "p \<noteq> None \<Longrightarrow> p \<noteq> Some newline \<Longrightarrow> fails LineBol (p, s, g)"
  by (simp add: fails_def)

lemma fails_lit: "\<not> has_prefix s w \<Longrightarrow> fails (lit w) (p, s, g)"
  unfolding fails_def
proof (rule ccontr)
  assume "\<not> has_prefix s w" "matches (lit w) (p, s, g) \<noteq> []"
  then obtain q where "q \<in> set (matches (lit w) (p, s, g))" by (metis last_in_set)
  from matches_lit [OF this] have "has_prefix s w" by (simp add: has_prefix_iff)
  with \<open>\<not> has_prefix s w\<close> show False by simp
qed

lemma fails_bol_lit: "\<not> has_prefix s w \<Longrightarrow> fails (Seq LineBol (Seq (lit w) r)) (p, s, g)"
  using fails_lit [of s w p g] by (simp add: fails_def)

lemma find_from_here: "firstly r (p, s, []) (p', s', g) \<Longrightarrow> find_from r p s = Some g"
  by (auto simp: firstly_def find_from.simps)

lemma find_from_skip: "fails r (p, c # s, []) \<Longrightarrow> find_from r p (c # s) = find_from r (Some c) s"
  by (subst find_from.simps) (simp add: fails_def)

lemma find_from_none: "fails r (p, [], []) \<Longrightarrow> find_from r p [] = None"
  by (subst find_from.simps) (simp add: fails_def)

text \<open>A pattern anchored at the start of a line passes over the rest of a line.\<close>

lemma find_from_line:
  assumes "newline \<notin> set l"
  shows "p \<noteq> None \<Longrightarrow> p \<noteq> Some newline \<Longrightarrow>
    find_from (Seq LineBol r) p (l @ newline # s) = find_from (Seq LineBol r) (Some newline) s"
  using assms
proof (induction l arbitrary: p)
  case Nil
  then show ?case by (simp add: find_from_skip fails_seq fails_line_bol del: find_from.simps)
next
  case (Cons c l)
  have "find_from (Seq LineBol r) p ((c # l) @ newline # s) = find_from (Seq LineBol r) (Some c) (l @ newline # s)"
    using Cons.prems by (simp add: find_from_skip fails_seq fails_line_bol del: find_from.simps)
  also have "\<dots> = find_from (Seq LineBol r) (Some newline) s"
    by (rule Cons.IH) (use Cons.prems in auto)
  finally show ?case .
qed

lemma replace_none: "needs r w \<Longrightarrow> \<not> contains s w \<Longrightarrow> replace_from r u p s = s"
proof (induction r u p s rule: replace_from.induct)
  case (2 r u p c s)
  have "matches r (p, c # s, []) = []"
  proof (rule ccontr)
    assume "matches r (p, c # s, []) \<noteq> []"
    then obtain q where "q \<in> set (matches r (p, c # s, []))" by (metis last_in_set)
    from needs_contains [OF "2.prems"(1) this, of "[]"] "2.prems"(2) show False by simp
  qed
  moreover have "\<not> contains s w" using "2.prems"(2) contains_append [of s w "[c]" "[]"] by auto
  ultimately show ?case using 2 by simp
qed simp

text \<open>A pattern anchored at the start of a line is not found in lines that lack its first literal.\<close>

lemma find_from_lines:
  assumes "\<forall>l \<in> set ls. newline \<notin> set l \<and> \<not> has_prefix l w" and "newline \<notin> set w" and "w \<noteq> []"
    and "p = None \<or> p = Some newline"
  shows "find_from (Seq LineBol (Seq (lit w) r)) p (unlines ls @ s)
    = find_from (Seq LineBol (Seq (lit w) r)) (if ls = [] then p else Some newline) s"
  using assms(1,4)
proof (induction ls arbitrary: p)
  case (Cons l ls)
  let ?r = "Seq LineBol (Seq (lit w) r)"
  have no: "\<not> has_prefix (l @ newline # t) w" for t
  proof
    assume "has_prefix (l @ newline # t) w"
    then obtain u where "l @ newline # t = w @ u" by (auto simp: has_prefix_iff)
    then have "(\<exists>x. w = l @ newline # x) \<or> (\<exists>x. l = w @ x)" by (auto simp: append_eq_append_conv2 Cons_eq_append_conv)
    then show False using assms(2) Cons.prems(1) by (auto simp: has_prefix_iff)
  qed
  have "find_from ?r p (l @ newline # unlines ls @ s) = find_from ?r (Some newline) (unlines ls @ s)"
  proof (cases l)
    case Nil
    then show ?thesis using no [of "unlines ls @ s"] by (simp add: find_from_skip fails_bol_lit del: find_from.simps)
  next
    case (Cons c l')
    have "find_from ?r p (l @ newline # unlines ls @ s) = find_from ?r (Some c) (l' @ newline # unlines ls @ s)"
      using no [of "unlines ls @ s"] Cons by (simp add: find_from_skip fails_bol_lit del: find_from.simps)
    also have "\<dots> = find_from ?r (Some newline) (unlines ls @ s)"
      by (rule find_from_line) (use Cons \<open>\<forall>l \<in> set (l # ls). _ l\<close> in auto)
    finally show ?thesis .
  qed
  also have "\<dots> = find_from ?r (Some newline) s"
    using Cons.IH [of "Some newline"] Cons.prems by (auto simp del: find_from.simps)
  finally show ?case by (simp add: unlines_def del: find_from.simps)
qed (simp add: unlines_def del: find_from.simps)

end
