(* ===== verification/Line_Machine.thy ===== *)
theory Line_Machine
  imports Go_Map Go_Regexp
begin

text \<open>
  Every log reader of the program is a fold of one step over the lines of a file. This interface says
  what such a reader promises: an invariant each line keeps, and an order in which no line takes the
  state back. Its clients get both for whole logs and for a log that has grown since.
\<close>

locale line_machine =
  fixes step :: "'l \<Rightarrow> 's \<Rightarrow> 's"
    and inv :: "'s \<Rightarrow> bool"
    and le :: "'s \<Rightarrow> 's \<Rightarrow> bool"
  assumes inv_step: "inv s \<Longrightarrow> inv (step l s)"
    and le_refl: "le s s"
    and le_trans: "le s t \<Longrightarrow> le t u \<Longrightarrow> le s u"
    and le_step: "inv s \<Longrightarrow> le s (step l s)"
begin

lemma inv_run: "inv s \<Longrightarrow> inv (fold step ls s)"
  by (induction ls arbitrary: s) (auto intro: inv_step)

lemma le_run: "inv s \<Longrightarrow> le s (fold step ls s)"
proof (induction ls arbitrary: s)
  case (Cons l ls)
  then have "le (step l s) (fold step ls (step l s))" by (simp add: inv_step)
  with Cons.prems show ?case by (auto intro: le_trans le_step)
qed (simp add: le_refl)

lemma le_grown: "inv s \<Longrightarrow> le (fold step ls s) (fold step (ls @ more) s)"
  by (simp add: le_run inv_run)

end

text \<open>The number in a capture group, with Go's ignored error, and the value when there is no error.\<close>

definition num_grp :: "(nat \<times> string) list \<Rightarrow> nat \<Rightarrow> int" where
  "num_grp g n = fst (atoi (grp g n))"

definition num_grp_ok :: "(nat \<times> string) list \<Rightarrow> nat \<Rightarrow> bool" where
  "num_grp_ok g n = snd (atoi (grp g n))"

lemma num_grp_nonneg:
  "find_re r s = Some g \<Longrightarrow> group_only n is_digit r \<Longrightarrow> 0 \<le> num_grp g n"
  unfolding num_grp_def by (rule find_re_number)

text \<open>The escape sequences of a coloured terminal: \<open>\x1b\[[0-9;]*m\<close>.\<close>

definition ansi :: re where
  "ansi = seqs [lit [CHR 0x1B], lit ''['', Star (Class (\<lambda>c. is_digit c \<or> c = CHR '';'')), lit ''m'']"

definition strip :: "string \<Rightarrow> string" where
  "strip s = replace_re ansi [] s"

text \<open>Text without an escape byte is left alone.\<close>

lemma matches_ansi_plain: "c \<noteq> CHR 0x1B \<Longrightarrow> matches ansi (p, c # s, g) = []"
  by (simp add: ansi_def)

lemma strip_plain: "CHR 0x1B \<notin> set s \<Longrightarrow> strip s = s"
proof -
  have "CHR 0x1B \<notin> set s \<Longrightarrow> replace_from ansi [] p s = s" for p
    by (induction s arbitrary: p) (auto simp: matches_ansi_plain)
  then show "CHR 0x1B \<notin> set s \<Longrightarrow> strip s = s" by (simp add: strip_def replace_re_def)
qed

end
