(* ===== verification/Logs.thy ===== *)
theory Logs
  imports Line_Machine Go_Float
begin

text \<open>
  Reading a run log (\<open>internal/logs/logs.go\<close>): the statistics of one target's run, the step of the
  parser for one line, the derivation of executions and rate at the end, and what a log says about
  whether the target ever became a fuzzer. A log is the list of its lines; the scanner's 8 MiB line
  limit and the gzip layer are not modelled.
\<close>

record ub_site =
  ub_function :: string
  ub_file :: string
  ub_line :: int
  ub_class :: string
  ub_text :: string

record stats =
  st_target :: string
  st_inited :: int
  st_done :: int
  st_execs :: int
  st_partial :: bool
  st_new_units :: int
  st_slowest_unit :: int
  st_peak_rss :: int
  st_cov :: int
  st_ft :: int
  st_corpus :: int
  st_timeout :: int
  st_runs :: int
  st_seconds :: int
  st_rate :: f64
  st_ub :: "ub_site list"
  st_crashes :: "string list"
  st_banner :: bool
  st_aborted :: bool
  st_avg_rate :: int
  st_stat_execs :: int
  st_progress_execs :: int

definition empty_stats :: stats where
  "empty_stats = \<lparr>st_target = [], st_inited = 0, st_done = 0, st_execs = 0, st_partial = False,
     st_new_units = 0, st_slowest_unit = 0, st_peak_rss = 0, st_cov = 0, st_ft = 0, st_corpus = 0,
     st_timeout = 0, st_runs = 0, st_seconds = 0, st_rate = 0, st_ub = [], st_crashes = [],
     st_banner = False, st_aborted = False, st_avg_rate = 0, st_stat_execs = 0, st_progress_execs = 0\<rparr>"

subsection \<open>the patterns\<close>

definition reInited :: re where "reInited = seqs [Bol, lit ''#'', Group 1 digits, spaces, lit ''INITED'']"
definition reDone :: re where "reDone = seqs [Bol, lit ''#'', Group 1 digits, spaces, lit ''DONE'']"
definition reStat :: re where
  "reStat = seqs [Bol, lit ''stat::'', Group 1 (plus (Class (lower_or ''_''))), lit '':'',
     Star (Class re_space), Group 2 digits]"
definition reCovFt :: re where
  "reCovFt = seqs [lit ''cov: '', Group 1 digits, lit '' ft: '', Group 2 digits]"
definition reRSS :: re where
  "reRSS = seqs [WordB, lit ''rss:'', Star (Class re_space), Group 1 digits, lit ''Mb'', WordB]"
definition reCorp :: re where "reCorp = seqs [lit ''corp: '', Group 1 digits]"
definition reTimeout :: re where "reTimeout = seqs [lit ''-timeout='', Group 1 digits]"
definition reRunsLine :: re where
  "reRunsLine = seqs [Bol, lit ''Done '', Group 1 digits, lit '' runs in '', Group 2 digits, lit '' second'']"
definition reAvgRate :: re where
  "reAvgRate = seqs [lit ''stat::average_exec_per_sec:'', Star (lit '' ''), Group 1 digits]"
definition reUB :: re where
  "reUB = seqs [Group 1 (seqs [plus (Class (\<lambda>c. is_word c \<or> c \<in> set ''./-'')), lit ''.'',
       Class (\<lambda>c. c \<in> set ''ch'')]), lit '':'', Group 2 digits, lit '':'', digits,
     lit '': runtime error: '', Group 3 (plus any)]"
definition reDedup :: re where
  "reDedup = seqs [Bol, lit ''DEDUP_TOKEN: '',
     Group 1 (Seq (Class (\<lambda>c. is_word c \<and> \<not> is_digit c)) (Star (Class is_word)))]"
definition reCrash :: re where
  "reCrash = seqs [Bol, opt (seqs [lit ''=='', digits, lit ''=='']), lit ''ERROR: '',
     Group 1 (seqs [plus (Class is_word), lit ''Sanitizer: '', plus any])]"
definition reTrap :: re where
  "reTrap = seqs [Bol, lit (''TRAP: failed Assert('' @ [CHR 0x22]),
     Group 1 (plus (Class (\<lambda>c. c \<noteq> CHR 0x22))), lit ([CHR 0x22] @ '')'')]"
definition reProgress :: re where
  "reProgress = seqs [Bol, lit ''#'', Group 1 digits, spaces, Group 2 (plus (Class (\<lambda>c. \<not> re_space c))),
     spaces, lit ''cov: '', Group 3 digits, lit '' ft: '', Group 4 digits, lit '' corp: '', Group 5 digits]"

definition base :: "string \<Rightarrow> string" where
  "base p = (case last_index CHR ''/'' p of Some i \<Rightarrow> drop (Suc i) p | None \<Rightarrow> p)"

definition classify :: "string \<Rightarrow> string" where
  "classify t =
     (if contains t ''signed integer overflow'' \<or> contains t ''negation of'' then ''signed-overflow''
      else if contains t ''shift exponent'' then ''shift''
      else if contains t ''null pointer'' then ''null-deref''
      else if contains t ''out of bounds'' then ''out-of-bounds''
      else ''other'')"

subsection \<open>one line\<close>

text \<open>The counters a line can move, in the order of the loop body.\<close>

definition see_banner :: "string \<Rightarrow> stats \<Rightarrow> stats" where
  "see_banner l s =
     (if contains l ''Running with entropic'' \<or> contains l ''INFO: Seed:'' \<or> contains l ''INFO: Loaded ''
      then s\<lparr>st_banner := True\<rparr> else s)"

definition see_abort :: "string \<Rightarrow> stats \<Rightarrow> stats" where
  "see_abort l s =
     (if contains l ''ERROR: libFuzzer: a leak has been found in the initial corpus''
        \<or> contains l ''ERROR: libFuzzer: no interesting inputs were found''
      then s\<lparr>st_aborted := True\<rparr> else s)"

definition see_progress :: "string \<Rightarrow> stats \<Rightarrow> stats" where
  "see_progress l s =
     (case find_re reProgress l of
        Some m \<Rightarrow> if grp m 2 \<noteq> ''INITED'' \<and> num_grp_ok m 1 \<and> num_grp m 1 > st_progress_execs s
                   then s\<lparr>st_progress_execs := num_grp m 1\<rparr> else s
      | None \<Rightarrow> s)"

definition see_inited :: "string \<Rightarrow> stats \<Rightarrow> stats" where
  "see_inited l s =
     (case find_re reInited l of
        Some m \<Rightarrow> if st_inited s = 0 then s\<lparr>st_inited := num_grp m 1\<rparr> else s
      | None \<Rightarrow> s)"

definition see_done :: "string \<Rightarrow> stats \<Rightarrow> stats" where
  "see_done l s = (case find_re reDone l of Some m \<Rightarrow> s\<lparr>st_done := num_grp m 1\<rparr> | None \<Rightarrow> s)"

definition see_stat :: "string \<Rightarrow> stats \<Rightarrow> stats" where
  "see_stat l s =
     (case find_re reStat l of
        Some m \<Rightarrow>
          (let n = num_grp m 2; k = grp m 1 in
           if k = ''number_of_executed_units'' then s\<lparr>st_stat_execs := st_stat_execs s + n\<rparr>
           else if k = ''new_units_added'' then s\<lparr>st_new_units := st_new_units s + n\<rparr>
           else if k = ''slowest_unit_time_sec'' then s\<lparr>st_slowest_unit := max n (st_slowest_unit s)\<rparr>
           else if k = ''peak_rss_mb'' then s\<lparr>st_peak_rss := max n (st_peak_rss s)\<rparr>
           else s)
      | None \<Rightarrow> s)"

definition see_rss :: "string \<Rightarrow> stats \<Rightarrow> stats" where
  "see_rss l s =
     (case find_re reRSS l of
        Some m \<Rightarrow> if num_grp_ok m 1 \<and> num_grp m 1 > st_peak_rss s then s\<lparr>st_peak_rss := num_grp m 1\<rparr> else s
      | None \<Rightarrow> s)"

definition see_cov :: "string \<Rightarrow> stats \<Rightarrow> stats" where
  "see_cov l s =
     (case find_re reCovFt l of Some m \<Rightarrow> s\<lparr>st_cov := num_grp m 1, st_ft := num_grp m 2\<rparr> | None \<Rightarrow> s)"

definition see_corp :: "string \<Rightarrow> stats \<Rightarrow> stats" where
  "see_corp l s = (case find_re reCorp l of Some m \<Rightarrow> s\<lparr>st_corpus := num_grp m 1\<rparr> | None \<Rightarrow> s)"

definition see_timeout :: "string \<Rightarrow> stats \<Rightarrow> stats" where
  "see_timeout l s =
     (case find_re reTimeout l of
        Some m \<Rightarrow> if st_timeout s = 0 then s\<lparr>st_timeout := num_grp m 1\<rparr> else s
      | None \<Rightarrow> s)"

definition see_runs :: "string \<Rightarrow> stats \<Rightarrow> stats" where
  "see_runs l s =
     (case find_re reRunsLine l of
        Some m \<Rightarrow> s\<lparr>st_runs := st_runs s + num_grp m 1, st_seconds := max (num_grp m 2) (st_seconds s)\<rparr>
      | None \<Rightarrow> s)"

definition see_avg :: "string \<Rightarrow> stats \<Rightarrow> stats" where
  "see_avg l s =
     (case find_re reAvgRate l of
        Some m \<Rightarrow> if st_avg_rate s = 0 then s\<lparr>st_avg_rate := num_grp m 1\<rparr> else s
      | None \<Rightarrow> s)"

definition see_counters :: "string \<Rightarrow> stats \<Rightarrow> stats" where
  "see_counters l = see_avg l \<circ> see_runs l \<circ> see_timeout l \<circ> see_corp l \<circ> see_cov l \<circ> see_rss l
     \<circ> see_stat l \<circ> see_done l \<circ> see_inited l \<circ> see_progress l \<circ> see_abort l \<circ> see_banner l"

text \<open>A report's site; a token names the most recent site that still has none.\<close>

definition ub_of :: "(nat \<times> string) list \<Rightarrow> ub_site" where
  "ub_of m = \<lparr>ub_function = [], ub_file = base (grp m 1), ub_line = num_grp m 2,
     ub_class = classify (grp m 3), ub_text = trim_space (grp m 3)\<rparr>"

fun name_first :: "string \<Rightarrow> ub_site list \<Rightarrow> ub_site list" where
  "name_first f [] = []"
| "name_first f (u # us) = (if ub_function u = [] then u\<lparr>ub_function := f\<rparr> # us else u # name_first f us)"

definition name_latest :: "string \<Rightarrow> ub_site list \<Rightarrow> ub_site list" where
  "name_latest f us = rev (name_first f (rev us))"

definition see_dedup :: "string \<Rightarrow> stats \<Rightarrow> stats" where
  "see_dedup l s =
     (case find_re reDedup l of Some m \<Rightarrow> s\<lparr>st_ub := name_latest (grp m 1) (st_ub s)\<rparr> | None \<Rightarrow> s)"

definition see_crash :: "string \<Rightarrow> stats \<Rightarrow> stats" where
  "see_crash l s =
     (case find_re reCrash l of Some m \<Rightarrow> s\<lparr>st_crashes := st_crashes s @ [grp m 1]\<rparr> | None \<Rightarrow> s)"

definition see_trap :: "string \<Rightarrow> stats \<Rightarrow> stats" where
  "see_trap l s =
     (case find_re reTrap l of
        Some m \<Rightarrow> s\<lparr>st_crashes := st_crashes s @ [''Assert('' @ grp m 1 @ '')'']\<rparr>
      | None \<Rightarrow> s)"

definition parse_line :: "string \<Rightarrow> stats \<Rightarrow> stats" where
  "parse_line raw s =
     (let l = strip raw; s1 = see_counters l s in
      case find_re reUB l of
        Some m \<Rightarrow> s1\<lparr>st_ub := st_ub s1 @ [ub_of m]\<rparr>
      | None \<Rightarrow> see_trap l (see_crash l (see_dedup l s1)))"

subsection \<open>the whole log\<close>

definition two_decimals :: "int \<Rightarrow> int \<Rightarrow> f64" where
  "two_decimals runs secs =
     f64_div (of_int (math_round (f64_mul (f64_div (f64_of_int runs) (f64_of_int secs)) 100))) 100"

definition finish :: "stats \<Rightarrow> stats" where
  "finish s =
     (let s1 = s\<lparr>st_execs := (if st_runs s > 0 then st_runs s else st_stat_execs s)\<rparr>;
          s2 = (if st_execs s1 = 0 \<and> st_progress_execs s1 > 0
                then s1\<lparr>st_execs := st_progress_execs s1, st_partial := True\<rparr> else s1)
      in if st_seconds s2 > 0 \<and> st_runs s2 > 0 then s2\<lparr>st_rate := two_decimals (st_runs s2) (st_seconds s2)\<rparr>
         else if st_avg_rate s2 > 0 then s2\<lparr>st_rate := f64_of_int (st_avg_rate s2)\<rparr>
         else s2)"

definition scan_log :: "string list \<Rightarrow> stats" where
  "scan_log ls = fold parse_line ls empty_stats"

definition parse :: "string \<Rightarrow> stats" where
  "parse text = finish (scan_log (scan_lines text))"

definition replay_only :: "stats \<Rightarrow> bool" where
  "replay_only s \<longleftrightarrow> st_done s > 0 \<and> st_inited s > 0 \<and> st_new_units s = 0
     \<and> st_done s - st_inited s < quot (st_inited s) 100"

datatype startup = NoEvidence | Died | Inited | Fuzzed

definition startup_of :: "stats \<Rightarrow> startup" where
  "startup_of s =
     (if st_execs s > 0 \<or> st_done s > 0 then Fuzzed
      else if st_inited s > 0 \<or> st_banner s then Inited
      else if st_aborted s then Died
      else NoEvidence)"

fun startup_string :: "startup \<Rightarrow> string" where
  "startup_string Died = ''died before libFuzzer started''"
| "startup_string Inited = ''started but never fuzzed''"
| "startup_string Fuzzed = ''fuzzed''"
| "startup_string NoEvidence = ''no evidence either way''"

subsection \<open>what every line keeps\<close>

definition counters_ok :: "stats \<Rightarrow> bool" where
  "counters_ok s \<longleftrightarrow> 0 \<le> st_inited s \<and> 0 \<le> st_done s \<and> 0 \<le> st_new_units s \<and> 0 \<le> st_slowest_unit s
     \<and> 0 \<le> st_peak_rss s \<and> 0 \<le> st_cov s \<and> 0 \<le> st_ft s \<and> 0 \<le> st_corpus s \<and> 0 \<le> st_timeout s
     \<and> 0 \<le> st_runs s \<and> 0 \<le> st_seconds s \<and> 0 \<le> st_avg_rate s \<and> 0 \<le> st_stat_execs s
     \<and> 0 \<le> st_progress_execs s"

text \<open>A site once recorded stays, and keeps its name once it has one.\<close>

definition same_site :: "ub_site \<Rightarrow> ub_site \<Rightarrow> bool" where
  "same_site u v \<longleftrightarrow> v\<lparr>ub_function := ub_function u\<rparr> = u \<and> (ub_function u \<noteq> [] \<longrightarrow> v = u)"

definition sites_grow :: "ub_site list \<Rightarrow> ub_site list \<Rightarrow> bool" where
  "sites_grow us vs \<longleftrightarrow> length us \<le> length vs \<and> (\<forall>i < length us. same_site (us ! i) (vs ! i))"

definition grows :: "stats \<Rightarrow> stats \<Rightarrow> bool" where
  "grows s t \<longleftrightarrow> st_stat_execs s \<le> st_stat_execs t \<and> st_new_units s \<le> st_new_units t
     \<and> st_slowest_unit s \<le> st_slowest_unit t \<and> st_peak_rss s \<le> st_peak_rss t
     \<and> st_runs s \<le> st_runs t \<and> st_seconds s \<le> st_seconds t
     \<and> st_progress_execs s \<le> st_progress_execs t
     \<and> (st_inited s \<noteq> 0 \<longrightarrow> st_inited t = st_inited s) \<and> (st_timeout s \<noteq> 0 \<longrightarrow> st_timeout t = st_timeout s)
     \<and> (st_banner s \<longrightarrow> st_banner t) \<and> (st_aborted s \<longrightarrow> st_aborted t)
     \<and> sites_grow (st_ub s) (st_ub t) \<and> (\<exists>cs. st_crashes t = st_crashes s @ cs)
     \<and> st_partial t = st_partial s"

lemma same_site_refl [simp]: "same_site u u"
  by (simp add: same_site_def)

lemma same_site_trans: "same_site u v \<Longrightarrow> same_site v w \<Longrightarrow> same_site u w"
  by (cases u; cases v; cases w) (auto simp: same_site_def)

lemma sites_grow_refl [simp]: "sites_grow us us"
  by (simp add: sites_grow_def)

lemma sites_grow_trans: "sites_grow us vs \<Longrightarrow> sites_grow vs xs \<Longrightarrow> sites_grow us xs"
  unfolding sites_grow_def by (meson less_le_trans order_trans same_site_trans)

lemma sites_grow_snoc [simp]: "sites_grow us (us @ [u])"
  by (simp add: sites_grow_def nth_append)

lemma name_first_length [simp]: "length (name_first f us) = length us"
  by (induction us) auto

lemma name_first_same: "i < length us \<Longrightarrow> same_site (us ! i) (name_first f us ! i)"
proof (induction us arbitrary: i)
  case (Cons u us)
  then show ?case by (cases i) (auto simp: same_site_def)
qed simp

lemma name_latest_grow [simp]: "sites_grow us (name_latest f us)"
proof -
  have "same_site (us ! i) (name_latest f us ! i)" if "i < length us" for i
    using name_first_same [of "length us - Suc i" "rev us" f] that
    by (simp add: name_latest_def rev_nth)
  then show ?thesis by (simp add: sites_grow_def name_latest_def)
qed

lemma grows_refl [simp]: "grows s s"
  by (simp add: grows_def)

lemma grows_trans: "grows s t \<Longrightarrow> grows t u \<Longrightarrow> grows s u"
proof -
  assume g: "grows s t" "grows t u"
  then have "sites_grow (st_ub s) (st_ub u)"
    unfolding grows_def by (elim conjE) (rule sites_grow_trans)
  moreover have "\<exists>cs. st_crashes u = st_crashes s @ cs"
    using g unfolding grows_def by (elim conjE exE) simp
  ultimately show ?thesis
    using g unfolding grows_def by (elim conjE exE, intro conjI) simp_all
qed

definition good_step :: "(stats \<Rightarrow> stats) \<Rightarrow> bool" where
  "good_step f \<longleftrightarrow> (\<forall>s. counters_ok s \<longrightarrow> counters_ok (f s) \<and> grows s (f s))"

lemma good_step_comp [go_intros]: "good_step f \<Longrightarrow> good_step g \<Longrightarrow> good_step (f \<circ> g)"
  unfolding good_step_def by (auto intro: grows_trans)

lemmas log_patterns = reInited_def reDone_def reStat_def reCovFt_def reRSS_def reCorp_def reTimeout_def
  reRunsLine_def reAvgRate_def reProgress_def reUB_def

lemma log_pattern_groups [simp]:
  "group_only (Suc 0) is_digit reInited" "group_only (Suc 0) is_digit reDone" "group_only 2 is_digit reStat"
  "group_only (Suc 0) is_digit reCovFt" "group_only 2 is_digit reCovFt" "group_only (Suc 0) is_digit reRSS"
  "group_only (Suc 0) is_digit reCorp" "group_only (Suc 0) is_digit reTimeout" "group_only (Suc 0) is_digit reRunsLine"
  "group_only 2 is_digit reRunsLine" "group_only (Suc 0) is_digit reAvgRate" "group_only (Suc 0) is_digit reProgress"
  by (simp_all add: log_patterns)

lemmas see_flags = see_banner_def see_abort_def

lemma good_see_flags [go_intros]: "good_step (see_banner l)" "good_step (see_abort l)"
  by (auto simp: good_step_def see_flags counters_ok_def grows_def)

lemma good_see_marks [go_intros]:
  "good_step (see_progress l)" "good_step (see_inited l)" "good_step (see_done l)" "good_step (see_timeout l)"
  "good_step (see_cov l)" "good_step (see_corp l)" "good_step (see_avg l)"
  unfolding good_step_def see_progress_def see_inited_def see_done_def see_timeout_def see_cov_def
    see_corp_def see_avg_def
  by (auto simp: counters_ok_def grows_def num_grp_nonneg split: option.splits)

lemma good_see_sums [go_intros]: "good_step (see_stat l)" "good_step (see_rss l)" "good_step (see_runs l)"
  unfolding good_step_def see_stat_def see_rss_def see_runs_def Let_def
  by (auto simp: counters_ok_def grows_def num_grp_nonneg split: option.splits)

lemma good_see_counters [go_intros]: "good_step (see_counters l)"
  unfolding see_counters_def by (intro go_intros)

lemma good_see_reports [go_intros]: "good_step (see_dedup l)" "good_step (see_crash l)" "good_step (see_trap l)"
  unfolding good_step_def see_dedup_def see_crash_def see_trap_def
  by (auto simp: counters_ok_def grows_def split: option.splits)

lemma good_add_site [go_intros]: "good_step (\<lambda>s. s\<lparr>st_ub := st_ub s @ [u]\<rparr>)"
  by (auto simp: good_step_def counters_ok_def grows_def)

lemma good_parse_line: "good_step (parse_line l)"
proof (cases "find_re reUB (strip l)")
  case None
  then have "parse_line l = see_trap (strip l) \<circ> see_crash (strip l) \<circ> see_dedup (strip l) \<circ> see_counters (strip l)"
    by (simp add: parse_line_def fun_eq_iff Let_def)
  then show ?thesis by (simp only:) (intro go_intros)
next
  case (Some m)
  then have "parse_line l = (\<lambda>s. s\<lparr>st_ub := st_ub s @ [ub_of m]\<rparr>) \<circ> see_counters (strip l)"
    by (simp add: parse_line_def fun_eq_iff Let_def)
  then show ?thesis by (simp only:) (intro go_intros)
qed

interpretation run_log: line_machine parse_line counters_ok grows
  using good_parse_line by unfold_locales (auto simp: good_step_def intro: grows_trans)

lemma counters_ok_empty [simp]: "counters_ok empty_stats"
  by (simp add: counters_ok_def empty_stats_def)

lemma counters_ok_scan: "counters_ok (scan_log ls)"
  unfolding scan_log_def by (rule run_log.inv_run) simp

subsection \<open>properties of a parsed log\<close>

lemma finish_sel [simp]:
  "st_ub (finish s) = st_ub s" "st_aborted (finish s) = st_aborted s" "st_banner (finish s) = st_banner s"
  "st_done (finish s) = st_done s" "st_inited (finish s) = st_inited s" "st_new_units (finish s) = st_new_units s"
  "st_runs (finish s) = st_runs s" "st_stat_execs (finish s) = st_stat_execs s"
  "st_progress_execs (finish s) = st_progress_execs s" "st_peak_rss (finish s) = st_peak_rss s"
  "st_slowest_unit (finish s) = st_slowest_unit s" "st_seconds (finish s) = st_seconds s"
  "st_crashes (finish s) = st_crashes s"
  by (simp_all add: finish_def Let_def)

lemma finish_execs:
  "st_execs (finish s) =
     (let e = (if st_runs s > 0 then st_runs s else st_stat_execs s)
      in if e = 0 \<and> st_progress_execs s > 0 then st_progress_execs s else e)"
  by (simp add: finish_def Let_def)

lemma finish_partial:
  "st_partial (finish s) \<longleftrightarrow> st_partial s \<or>
     (if st_runs s > 0 then st_runs s else st_stat_execs s) = 0 \<and> st_progress_execs s > 0"
  by (auto simp: finish_def Let_def)

lemma scan_log_grows: "grows empty_stats (scan_log ls)"
  unfolding scan_log_def by (rule run_log.le_run) simp

lemma scan_log_partial: "\<not> st_partial (scan_log ls)"
  using scan_log_grows [of ls] by (simp add: grows_def empty_stats_def)

lemmas see_defs = see_progress_def see_inited_def see_done_def see_stat_def see_rss_def see_cov_def
  see_corp_def see_timeout_def see_runs_def see_avg_def

lemma see_marks_keep [simp]:
  "st_aborted (see_progress l s) = st_aborted s" "st_aborted (see_inited l s) = st_aborted s"
  "st_aborted (see_done l s) = st_aborted s" "st_aborted (see_stat l s) = st_aborted s"
  "st_aborted (see_rss l s) = st_aborted s" "st_aborted (see_cov l s) = st_aborted s"
  "st_aborted (see_corp l s) = st_aborted s" "st_aborted (see_timeout l s) = st_aborted s"
  "st_aborted (see_runs l s) = st_aborted s" "st_aborted (see_avg l s) = st_aborted s"
  "st_aborted (see_banner l s) = st_aborted s" "st_aborted (see_dedup l s) = st_aborted s"
  "st_aborted (see_crash l s) = st_aborted s" "st_aborted (see_trap l s) = st_aborted s"
  by (simp_all add: see_defs see_banner_def see_dedup_def see_crash_def see_trap_def Let_def split: option.split)

lemma see_ub_keep [simp]:
  "st_ub (see_progress l s) = st_ub s" "st_ub (see_inited l s) = st_ub s" "st_ub (see_done l s) = st_ub s"
  "st_ub (see_stat l s) = st_ub s" "st_ub (see_rss l s) = st_ub s" "st_ub (see_cov l s) = st_ub s"
  "st_ub (see_corp l s) = st_ub s" "st_ub (see_timeout l s) = st_ub s" "st_ub (see_runs l s) = st_ub s"
  "st_ub (see_avg l s) = st_ub s" "st_ub (see_banner l s) = st_ub s" "st_ub (see_abort l s) = st_ub s"
  "st_ub (see_crash l s) = st_ub s" "st_ub (see_trap l s) = st_ub s"
  by (simp_all add: see_defs see_flags see_crash_def see_trap_def Let_def split: option.split)

definition abort_line :: "string \<Rightarrow> bool" where
  "abort_line l \<longleftrightarrow> contains l ''ERROR: libFuzzer: a leak has been found in the initial corpus''
     \<or> contains l ''ERROR: libFuzzer: no interesting inputs were found''"

lemma parse_line_aborted: "st_aborted (parse_line l s) \<longleftrightarrow> st_aborted s \<or> abort_line (strip l)"
proof -
  have "st_aborted (see_counters k s) \<longleftrightarrow> st_aborted s \<or> abort_line k" for k
    by (auto simp: see_counters_def see_abort_def abort_line_def)
  then show ?thesis by (simp add: parse_line_def Let_def split: option.split)
qed

lemma scan_log_aborted: "st_aborted (scan_log ls) \<longleftrightarrow> (\<exists>l \<in> set ls. abort_line (strip l))"
proof -
  have "st_aborted (fold parse_line ls s) \<longleftrightarrow> st_aborted s \<or> (\<exists>l \<in> set ls. abort_line (strip l))" for s
    by (induction ls arbitrary: s) (auto simp: parse_line_aborted)
  then show ?thesis by (simp add: scan_log_def empty_stats_def)
qed

lemma parse_line_ub:
  "st_ub (parse_line l s) =
     (case find_re reUB (strip l) of
        Some m \<Rightarrow> st_ub s @ [ub_of m]
      | None \<Rightarrow> (case find_re reDedup (strip l) of
                 Some m \<Rightarrow> name_latest (grp m 1) (st_ub s) | None \<Rightarrow> st_ub s))"
proof -
  have "st_ub (see_counters k s) = st_ub s" for k by (simp add: see_counters_def)
  then show ?thesis by (simp add: parse_line_def Let_def see_dedup_def split: option.split)
qed

abbreviation named_sites :: "ub_site list \<Rightarrow> nat" where
  "named_sites us \<equiv> length (filter (\<lambda>u. ub_function u \<noteq> []) us)"

lemma named_name_first: "named_sites (name_first f us) \<le> Suc (named_sites us)"
  by (induction us) auto

lemma named_name_latest: "named_sites (name_latest f us) \<le> Suc (named_sites us)"
  using named_name_first [of f "rev us"] by (simp add: name_latest_def rev_filter [symmetric])

lemma name_latest_length [simp]: "length (name_latest f us) = length us"
  by (simp add: name_latest_def)

definition report_lines :: "re \<Rightarrow> string list \<Rightarrow> nat" where
  "report_lines r ls = length (filter (\<lambda>l. find_re r (strip l) \<noteq> None) ls)"

lemma report_lines_Cons:
  "report_lines r (l # ls) = (if find_re r (strip l) \<noteq> None then 1 else 0) + report_lines r ls"
  by (simp add: report_lines_def)

lemma report_lines_Nil [simp]: "report_lines r [] = 0"
  by (simp add: report_lines_def)

lemma scan_log_length:
  "length (st_ub (fold parse_line ls s)) = length (st_ub s) + report_lines reUB ls"
proof (induction ls arbitrary: s)
  case (Cons l ls)
  have "length (st_ub (parse_line l s)) = length (st_ub s) + report_lines reUB [l]"
    by (auto simp: parse_line_ub report_lines_Cons split: option.split)
  then show ?case using Cons.IH [of "parse_line l s"] by (simp add: report_lines_Cons [of _ l ls] report_lines_Cons [of _ l "[]"])
qed simp

lemma scan_log_named:
  "named_sites (st_ub (fold parse_line ls s)) \<le> named_sites (st_ub s) + report_lines reDedup ls"
proof (induction ls arbitrary: s)
  case (Cons l ls)
  have "named_sites (st_ub (parse_line l s)) \<le> named_sites (st_ub s) + report_lines reDedup [l]"
    using named_name_latest [of _ "st_ub s"]
    by (auto simp: parse_line_ub report_lines_Cons ub_of_def split: option.split)
  then show ?case
    using Cons.IH [of "parse_line l s"] by (simp add: report_lines_Cons [of _ l ls] report_lines_Cons [of _ l "[]"])
qed simp

text \<open>Completed runs are the sum over the lines that report one.\<close>

definition done_runs :: "string \<Rightarrow> int" where
  "done_runs raw = (case find_re reRunsLine (strip raw) of Some m \<Rightarrow> num_grp m 1 | None \<Rightarrow> 0)"

lemma see_runs_keep:
  "st_runs (see_progress l s) = st_runs s" "st_runs (see_inited l s) = st_runs s"
  "st_runs (see_done l s) = st_runs s" "st_runs (see_stat l s) = st_runs s" "st_runs (see_rss l s) = st_runs s"
  "st_runs (see_cov l s) = st_runs s" "st_runs (see_corp l s) = st_runs s" "st_runs (see_timeout l s) = st_runs s"
  "st_runs (see_avg l s) = st_runs s" "st_runs (see_banner l s) = st_runs s" "st_runs (see_abort l s) = st_runs s"
  "st_runs (see_dedup l s) = st_runs s" "st_runs (see_crash l s) = st_runs s" "st_runs (see_trap l s) = st_runs s"
  by (simp_all add: see_defs see_flags see_dedup_def see_crash_def see_trap_def Let_def split: option.split)

lemma parse_line_runs: "st_runs (parse_line raw s) = st_runs s + done_runs raw"
proof -
  have "st_runs (see_counters l s) = st_runs s + (case find_re reRunsLine l of Some m \<Rightarrow> num_grp m 1 | None \<Rightarrow> 0)" for l
    by (simp add: see_counters_def see_runs_keep see_runs_def split: option.split)
  then show ?thesis by (simp add: parse_line_def Let_def done_runs_def see_runs_keep split: option.split)
qed

lemma scan_log_runs: "st_runs (scan_log ls) = sum_list (map done_runs ls)"
proof -
  have "st_runs (fold parse_line ls s) = st_runs s + sum_list (map done_runs ls)" for s
    by (induction ls arbitrary: s) (simp_all add: parse_line_runs)
  then show ?thesis by (simp add: scan_log_def empty_stats_def)
qed

lemma parse_execs_runs: "sum_list (map done_runs (scan_lines text)) > 0 \<Longrightarrow>
  st_execs (parse text) = sum_list (map done_runs (scan_lines text))"
  by (simp add: parse_def finish_execs scan_log_runs)

text \<open>
  where the execution count of a parsed log comes from. Completed runs win, since the stat block is
  printed twice per job under ASan; without them the stat sum; and only a log with neither falls
  back on the highest progress counter, marked partial. A total is never marked partial and a
  partial count is never negative.
\<close>

theorem parse_execs_source:
  "(st_execs (parse text), st_partial (parse text)) =
     (if st_runs (parse text) > 0 then (st_runs (parse text), False)
      else if st_stat_execs (parse text) > 0 then (st_stat_execs (parse text), False)
      else if st_progress_execs (parse text) > 0 then (st_progress_execs (parse text), True)
      else (0, False)) \<and>
   0 \<le> st_runs (parse text) \<and> 0 \<le> st_stat_execs (parse text) \<and> 0 \<le> st_progress_execs (parse text)"
  using counters_ok_scan [of "scan_lines text"] scan_log_partial [of "scan_lines text"]
  by (auto simp: parse_def finish_execs finish_partial counters_ok_def Let_def)

text \<open>
  a log that is still being written only ever gains evidence. Compared with what its first lines
  said, the complete log has at least the same sums, maxima and progress, keeps the first INITED
  count and the configured timeout, keeps the banner and the abort, has the same crashes in front,
  and the same undefined-behaviour sites in the same places, each with the name it already had.
\<close>

theorem log_only_gains: "grows (scan_log ls) (scan_log (ls @ rest))"
  unfolding scan_log_def by (rule run_log.le_grown) simp

text \<open>
  LibFuzzer's abort is recognised by its own error lines alone: a log counts as aborted exactly when
  one of its lines, freed of colour codes, contains one of the two messages with the error prefix, so
  the warning with the same wording never aborts a run.
\<close>

theorem aborted_iff_error_line:
  "st_aborted (parse text) \<longleftrightarrow> (\<exists>l. l \<in> set (scan_lines text) \<and> abort_line (strip l))"
  by (auto simp: parse_def scan_log_aborted)

text \<open>
  Every undefined-behaviour report is kept and no name is invented: a parsed log has one site per
  line that reports one, and at most one of them is named per line that carries a token.
\<close>

theorem ub_sites_accounted:
  "length (st_ub (parse text)) = report_lines reUB (scan_lines text) \<and>
   named_sites (st_ub (parse text)) \<le> report_lines reDedup (scan_lines text)"
  using scan_log_length [of "scan_lines text" empty_stats] scan_log_named [of "scan_lines text" empty_stats]
  by (simp add: parse_def scan_log_def empty_stats_def)

text \<open>
  The verdict that a target died before libFuzzer started is only ever reached through a line that
  libFuzzer itself printed. A log in which libFuzzer never spoke has no error line, so it is
  classified as no evidence instead.
\<close>

theorem died_needs_libfuzzer_error:
  assumes "startup_of (parse text) = Died"
  shows "\<exists>l. l \<in> set (scan_lines text) \<and> contains (strip l) ''ERROR: libFuzzer: ''"
proof -
  have "st_aborted (parse text)" using assms by (auto simp: startup_of_def split: if_splits)
  then obtain l where "l \<in> set (scan_lines text)" "abort_line (strip l)"
    by (auto simp: aborted_iff_error_line)
  moreover have "contains (strip l) ''ERROR: libFuzzer: ''" if "abort_line (strip l)"
    using that contains_trans [of "strip l" "[]" "''ERROR: libFuzzer: ''"]
    by (auto simp: abort_line_def)
  ultimately show ?thesis by blast
qed

end
