(* ===== verification/Sweep_Logs.thy ===== *)
theory Sweep_Logs
  imports Logs
begin

text \<open>
  A sweep log holds many targets in one file (\<open>internal/logs/sweep.go\<close>): the totals per target, the
  regime the round was launched with, and the frontier a slice ended at. The target a line belongs to
  is a matter of what came before it, so the parser is a machine over the lines; the section-wise sums
  it promises are stated independently of it and it is proved to compute them.
\<close>

record sweep_stats =
  ss_execs :: int
  ss_new_units :: int
  ss_rate :: f64

record sweep_state =
  sw_target :: string
  sw_execs :: "int gomap"
  sw_new :: "int gomap"
  sw_avg :: "int gomap"
  sw_runs :: "int gomap"
  sw_secs :: "int gomap"

definition sweep_start :: sweep_state where
  "sweep_start = \<lparr>sw_target = [], sw_execs = [], sw_new = [], sw_avg = [], sw_runs = [], sw_secs = []\<rparr>"

definition reFuzzing :: re where
  "reFuzzing = Alt
     (seqs [lit ''fuzzing '', Group 1 (plus (Class (lower_or ''_''))), lit '' for''])
     (seqs [Bol, Star (Class re_space), lit ''---- '',
        Group 2 (Seq (plus (Class (lower_or ''_''))) (lit ''_fuzzer'')), lit '' ----''])"
definition reExecs :: re where
  "reExecs = seqs [lit ''stat::number_of_executed_units:'', Star (Class re_space), Group 1 digits]"
definition reNew :: re where
  "reNew = seqs [lit ''stat::new_units_added:'', Star (Class re_space), Group 1 digits]"
definition reAvg :: re where
  "reAvg = seqs [lit ''stat::average_exec_per_sec:'', Star (lit '' ''), Group 1 digits]"
definition reRuns :: re where
  "reRuns = seqs [Bol, lit ''Done '', Group 1 digits, lit '' runs in '', Group 2 digits, lit '' second'']"

definition prefilter :: "string \<Rightarrow> bool" where
  "prefilter raw \<longleftrightarrow> contains raw ''stat::'' \<or> contains raw ''fuzzing '' \<or> contains raw ''----''
     \<or> contains raw ''Done ''"

definition banner_name :: "(nat \<times> string) list \<Rightarrow> string" where
  "banner_name m = (if grp m 1 \<noteq> [] then grp m 1 else grp m 2)"

definition sweep_count :: "string \<Rightarrow> sweep_state \<Rightarrow> sweep_state" where
  "sweep_count line s =
     (let t = sw_target s in
      case find_re reExecs line of
        Some m \<Rightarrow> s\<lparr>sw_execs := bump t (num_grp m 1) (sw_execs s)\<rparr>
      | None \<Rightarrow>
     (case find_re reNew line of
        Some m \<Rightarrow> s\<lparr>sw_new := bump t (num_grp m 1) (sw_new s)\<rparr>
      | None \<Rightarrow>
     (case find_re reAvg line of
        Some m \<Rightarrow> s\<lparr>sw_avg := bump t (num_grp m 1) (sw_avg s)\<rparr>
      | None \<Rightarrow>
     (case find_re reRuns (trim_space line) of
        Some m \<Rightarrow> s\<lparr>sw_runs := bump t (num_grp m 1) (sw_runs s),
                     sw_secs := (if num_grp m 2 > num (sw_secs s) t
                                 then AList.update t (num_grp m 2) (sw_secs s) else sw_secs s)\<rparr>
      | None \<Rightarrow> s))))"

definition sweep_body :: "string \<Rightarrow> sweep_state \<Rightarrow> sweep_state" where
  "sweep_body raw s =
     (let line = strip raw in
      case find_re reFuzzing line of
        Some m \<Rightarrow> s\<lparr>sw_target := banner_name m\<rparr>
      | None \<Rightarrow> if sw_target s = [] then s else sweep_count line s)"

definition sweep_line :: "string \<Rightarrow> sweep_state \<Rightarrow> sweep_state" where
  "sweep_line raw s = (if prefilter raw then sweep_body raw s else s)"

definition sweep_rate :: "sweep_state \<Rightarrow> string \<Rightarrow> f64" where
  "sweep_rate s t =
     (if num (sw_secs s) t > 0 \<and> num (sw_runs s) t > 0 then two_decimals (num (sw_runs s) t) (num (sw_secs s) t)
      else if num (sw_avg s) t > 0 then f64_of_int (num (sw_avg s) t)
      else 0)"

definition sweep_result :: "sweep_state \<Rightarrow> sweep_stats gomap" where
  "sweep_result s = map (\<lambda>(t, e).
     (t, \<lparr>ss_execs = e, ss_new_units = num (sw_new s) t, ss_rate = sweep_rate s t\<rparr>)) (sw_execs s)"

definition parse_sweep :: "string \<Rightarrow> sweep_stats gomap" where
  "parse_sweep text = sweep_result (fold sweep_line (scan_lines text) sweep_start)"

subsection \<open>the regime and the frontier\<close>

record run_regime =
  rr_jobs :: int
  rr_secs :: int
  rr_dict :: bool

definition reJobsFlag :: re where "reJobsFlag = seqs [lit ''-jobs='', Group 1 digits]"
definition reMaxTime :: re where "reMaxTime = seqs [lit ''max_total_time='', Group 1 digits]"
definition reCovFtSweep :: re where
  "reCovFtSweep = seqs [WordB, lit ''cov: '', Group 1 digits, lit '' ft: '', Group 2 digits]"

definition regime_line :: "string \<Rightarrow> run_regime" where
  "regime_line line =
     \<lparr>rr_jobs = (case find_re reJobsFlag line of Some m \<Rightarrow> num_grp m 1 | None \<Rightarrow> 1),
      rr_secs = (case find_re reMaxTime line of Some m \<Rightarrow> num_grp m 1 | None \<Rightarrow> 0),
      rr_dict = contains line ''-dict=''\<rparr>"

fun parse_regime_lines :: "string list \<Rightarrow> run_regime" where
  "parse_regime_lines [] = \<lparr>rr_jobs = 1, rr_secs = 0, rr_dict = False\<rparr>"
| "parse_regime_lines (l # ls) =
     (if contains l ''max_total_time='' then regime_line l else parse_regime_lines ls)"

definition parse_regime :: "string \<Rightarrow> run_regime" where
  "parse_regime text = parse_regime_lines (scan_lines text)"

definition frontier_line :: "string \<Rightarrow> (int \<times> int) option \<Rightarrow> (int \<times> int) option" where
  "frontier_line l s =
     (if \<not> contains l ''cov: '' then s
      else case find_re reCovFtSweep l of Some m \<Rightarrow> Some (num_grp m 1, num_grp m 2) | None \<Rightarrow> s)"

definition frontier :: "string \<Rightarrow> (int \<times> int) option" where
  "frontier text = fold frontier_line (scan_lines text) None"

subsection \<open>the prefilter\<close>

lemma needs_sweep_patterns:
  "needs reExecs ''stat::''" "needs reNew ''stat::''" "needs reAvg ''stat::''" "needs reRuns ''Done ''"
proof -
  have "needs reExecs ([] @ ''stat::'' @ ''number_of_executed_units:'')"
    by (simp add: reExecs_def needs_seq1 needs_lit [of "''stat::number_of_executed_units:''", simplified])
  then show "needs reExecs ''stat::''" by (rule needs_part)
  have "needs reNew ([] @ ''stat::'' @ ''new_units_added:'')"
    by (simp add: reNew_def needs_seq1 needs_lit [of "''stat::new_units_added:''", simplified])
  then show "needs reNew ''stat::''" by (rule needs_part)
  have "needs reAvg ([] @ ''stat::'' @ ''average_exec_per_sec:'')"
    by (simp add: reAvg_def needs_seq1 needs_lit [of "''stat::average_exec_per_sec:''", simplified])
  then show "needs reAvg ''stat::''" by (rule needs_part)
  show "needs reRuns ''Done ''"
    unfolding reRuns_def seqs.simps by (intro needs_seq2 needs_seq1 needs_lit)
qed

lemma reFuzzing_filtered:
  assumes "find_re reFuzzing l = Some m"
  shows "contains l ''fuzzing '' \<or> contains l ''----''"
proof (rule find_re_contains_alt [OF _ _ assms [unfolded reFuzzing_def]])
  show "needs (seqs [lit ''fuzzing '', Group 1 (plus (Class (lower_or ''_''))), lit '' for'']) ''fuzzing ''"
    unfolding seqs.simps by (intro needs_seq1 needs_lit)
  have "needs (lit ''---- '') ([] @ ''----'' @ '' '')"
    using needs_lit [of "''---- ''"] by simp
  then have "needs (lit ''---- '') ''----''" by (rule needs_part)
  then show "needs (seqs [Bol, Star (Class re_space), lit ''---- '',
      Group 2 (Seq (plus (Class (lower_or ''_''))) (lit ''_fuzzer'')), lit '' ----'']) ''----''"
    unfolding seqs.simps by (intro needs_seq2 needs_seq1)
qed

lemma filtered_line_idle: "CHR 0x1B \<notin> set raw \<Longrightarrow> \<not> prefilter raw \<Longrightarrow> sweep_body raw s = s"
proof -
  assume esc: "CHR 0x1B \<notin> set raw" and f: "\<not> prefilter raw"
  have "find_re reFuzzing raw = None" "find_re reExecs raw = None" "find_re reNew raw = None"
    "find_re reAvg raw = None" "find_re reRuns (trim_space raw) = None"
    using f reFuzzing_filtered needs_sweep_patterns [THEN find_re_contains] contains_trim_by [of is_space raw]
    unfolding prefilter_def by (metis not_Some_eq)+
  with esc show "sweep_body raw s = s" by (simp add: sweep_body_def sweep_count_def strip_plain)
qed

subsection \<open>the totals, section by section\<close>

text \<open>
  The specification: a line belongs to the target named by the last banner before it, and a target's
  totals are those of the lines that belong to it, however many sections they are spread over.
\<close>

definition banner_of :: "string \<Rightarrow> string option" where
  "banner_of raw = (if prefilter raw then map_option banner_name (find_re reFuzzing (strip raw)) else None)"

fun owned :: "string \<Rightarrow> string \<Rightarrow> string list \<Rightarrow> string list" where
  "owned t cur [] = []"
| "owned t cur (l # ls) =
     (case banner_of l of
        Some b \<Rightarrow> owned t b ls
      | None \<Rightarrow> if cur = t then l # owned t cur ls else owned t cur ls)"

definition is_execs :: "string \<Rightarrow> bool" where
  "is_execs raw \<longleftrightarrow> prefilter raw \<and> find_re reExecs (strip raw) \<noteq> None"

definition execs_in :: "string \<Rightarrow> int" where
  "execs_in raw = (case (prefilter raw, find_re reExecs (strip raw)) of
     (True, Some m) \<Rightarrow> num_grp m 1 | _ \<Rightarrow> 0)"

definition new_in :: "string \<Rightarrow> int" where
  "new_in raw = (case (prefilter raw, find_re reExecs (strip raw), find_re reNew (strip raw)) of
     (True, None, Some m) \<Rightarrow> num_grp m 1 | _ \<Rightarrow> 0)"

definition avg_in :: "string \<Rightarrow> int" where
  "avg_in raw = (case (prefilter raw, find_re reExecs (strip raw), find_re reNew (strip raw),
       find_re reAvg (strip raw)) of
     (True, None, None, Some m) \<Rightarrow> num_grp m 1 | _ \<Rightarrow> 0)"

definition runs_in :: "string \<Rightarrow> int \<times> int" where
  "runs_in raw = (case (prefilter raw, find_re reExecs (strip raw), find_re reNew (strip raw),
       find_re reAvg (strip raw), find_re reRuns (trim_space (strip raw))) of
     (True, None, None, None, Some m) \<Rightarrow> (num_grp m 1, num_grp m 2) | _ \<Rightarrow> (0, 0))"

definition spec_rate :: "int \<Rightarrow> int \<Rightarrow> int \<Rightarrow> f64" where
  "spec_rate runs secs avg =
     (if secs > 0 \<and> runs > 0 then two_decimals runs secs else if avg > 0 then f64_of_int avg else 0)"

definition section_stats :: "string list \<Rightarrow> sweep_stats" where
  "section_stats own = \<lparr>ss_execs = sum_list (map execs_in own), ss_new_units = sum_list (map new_in own),
     ss_rate = spec_rate (sum_list (map (fst \<circ> runs_in) own)) (fold max (map (snd \<circ> runs_in) own) 0)
                 (sum_list (map avg_in own))\<rparr>"

lemmas line_figures = execs_in_def new_in_def avg_in_def runs_in_def is_execs_def
lemmas sweep_steps = sweep_line_def sweep_body_def sweep_count_def banner_of_def Let_def

lemma sweep_line_target: "sw_target (sweep_line l s) = (case banner_of l of Some b \<Rightarrow> b | None \<Rightarrow> sw_target s)"
  by (simp add: sweep_steps split: option.split)

lemma sweep_line_banner: "banner_of l = Some b \<Longrightarrow> sweep_line l s = s\<lparr>sw_target := b\<rparr>"
  by (auto simp: sweep_steps split: if_splits)

lemma sweep_line_frame: "sw_target s \<noteq> t \<Longrightarrow> banner_of l = None \<Longrightarrow>
  num (sw_execs (sweep_line l s)) t = num (sw_execs s) t \<and> num (sw_new (sweep_line l s)) t = num (sw_new s) t \<and>
  num (sw_avg (sweep_line l s)) t = num (sw_avg s) t \<and> num (sw_runs (sweep_line l s)) t = num (sw_runs s) t \<and>
  num (sw_secs (sweep_line l s)) t = num (sw_secs s) t \<and>
  (t \<in> dom (map_of (sw_execs (sweep_line l s))) \<longleftrightarrow> t \<in> dom (map_of (sw_execs s)))"
  by (auto simp: sweep_steps tm.num_bump bump_def num_def split: option.split if_splits)

lemma sweep_line_own:
  assumes "sw_target s = t" and "t \<noteq> []" and "banner_of l = None" and "0 \<le> num (sw_secs s) t"
  shows "num (sw_execs (sweep_line l s)) t = num (sw_execs s) t + execs_in l"
    and "num (sw_new (sweep_line l s)) t = num (sw_new s) t + new_in l"
    and "num (sw_avg (sweep_line l s)) t = num (sw_avg s) t + avg_in l"
    and "num (sw_runs (sweep_line l s)) t = num (sw_runs s) t + fst (runs_in l)"
    and "num (sw_secs (sweep_line l s)) t = max (snd (runs_in l)) (num (sw_secs s) t)"
    and "t \<in> dom (map_of (sw_execs (sweep_line l s))) \<longleftrightarrow> t \<in> dom (map_of (sw_execs s)) \<or> is_execs l"
  using assms
  by (auto simp: sweep_steps line_figures tm.num_bump bump_def split: option.split if_splits)

lemma sweep_run_own:
  assumes "t \<noteq> []" and "0 \<le> num (sw_secs s) t"
  defines "own \<equiv> \<lambda>ls s. owned t (sw_target s) ls"
  shows "num (sw_execs (fold sweep_line ls s)) t = num (sw_execs s) t + sum_list (map execs_in (own ls s)) \<and>
    num (sw_new (fold sweep_line ls s)) t = num (sw_new s) t + sum_list (map new_in (own ls s)) \<and>
    num (sw_avg (fold sweep_line ls s)) t = num (sw_avg s) t + sum_list (map avg_in (own ls s)) \<and>
    num (sw_runs (fold sweep_line ls s)) t = num (sw_runs s) t + sum_list (map (fst \<circ> runs_in) (own ls s)) \<and>
    num (sw_secs (fold sweep_line ls s)) t = fold max (map (snd \<circ> runs_in) (own ls s)) (num (sw_secs s) t) \<and>
    (t \<in> dom (map_of (sw_execs (fold sweep_line ls s))) \<longleftrightarrow>
       t \<in> dom (map_of (sw_execs s)) \<or> (\<exists>l \<in> set (own ls s). is_execs l))"
  using assms(2)
proof (induction ls arbitrary: s)
  case (Cons l ls)
  show ?case
  proof (cases "banner_of l")
    case (Some b)
    then show ?thesis
      using Cons.IH [of "s\<lparr>sw_target := b\<rparr>"] Cons.prems by (simp add: own_def sweep_line_banner)
  next
    case None
    note frame = sweep_line_frame [OF _ None, of s t]
    note mine = sweep_line_own [OF _ assms(1) None, of s]
    have "0 \<le> num (sw_secs (sweep_line l s)) t"
      using Cons.prems frame mine(5) by (cases "sw_target s = t") auto
    from Cons.IH [OF this] show ?thesis
      using frame mine Cons.prems None
      by (cases "sw_target s = t") (simp_all add: own_def sweep_line_target disj_assoc)
  qed
qed (simp add: own_def)

text \<open>
  a sweep log's totals are those of its sections. For every target the parser reports exactly when one
  of the lines that belong to it carries an execution count, and then with the sums of executions
  and new units over those lines, and a rate from summed runs over the longest worker's seconds, or
  from the averages when no run finished. Interleaved or repeated sections of a target are merged.
\<close>

theorem parse_sweep_sections:
  assumes "t \<noteq> []"
  shows "map_of (parse_sweep text) t =
    (let own = owned t [] (scan_lines text)
     in if list_ex is_execs own then Some (section_stats own) else None)"
proof -
  let ?s = "fold sweep_line (scan_lines text) sweep_start"
  note run = sweep_run_own [OF assms, of sweep_start "scan_lines text"]
  have m: "map_of (parse_sweep text) t =
    map_option (\<lambda>e. \<lparr>ss_execs = e, ss_new_units = num (sw_new ?s) t, ss_rate = sweep_rate ?s t\<rparr>)
      (map_of (sw_execs ?s) t)"
    unfolding parse_sweep_def sweep_result_def by (rule map_of_map_key)
  show ?thesis
  proof (cases "map_of (sw_execs ?s) t")
    case None
    then show ?thesis using run m by (auto simp: sweep_start_def Let_def list_ex_iff)
  next
    case (Some e)
    then have "num (sw_execs ?s) t = e" by (simp add: num_def)
    with Some show ?thesis
      using run m
      by (auto simp: sweep_start_def Let_def list_ex_iff section_stats_def sweep_rate_def spec_rate_def)
  qed
qed

definition sample_sweep :: string where
  "sample_sweep = join [newline]
     [''---- a_fuzzer ----  (1/2)'', ''stat::number_of_executed_units: 7'', ''stat::new_units_added: 2'',
      ''---- b_fuzzer ----  (2/2)'', ''stat::number_of_executed_units: 5'',
      ''---- a_fuzzer ---- '', ''stat::number_of_executed_units: 4'', ''Done 9 runs in 2 second(s)'']"

definition figures_of :: "string \<Rightarrow> int \<times> int \<times> (int \<times> int) \<times> int" where
  "figures_of l = (execs_in l, new_in l, runs_in l, avg_in l)"

lemma sample_figures_of:
  "figures_of ''stat::number_of_executed_units: 7'' = (7, 0, (0, 0), 0)"
  "figures_of ''stat::number_of_executed_units: 4'' = (4, 0, (0, 0), 0)"
  "figures_of ''stat::new_units_added: 2'' = (0, 2, (0, 0), 0)"
  "figures_of ''Done 9 runs in 2 second(s)'' = (0, 0, (9, 2), 0)"
  by (code_simp, code_simp, code_simp, code_simp)

lemmas sample_figures = sample_figures_of [unfolded figures_of_def prod.inject]

lemma sample_rate: "spec_rate 9 2 0 = 9 / 2" by code_simp

theorem parse_sweep_sections_witness:
  "map_of (parse_sweep sample_sweep) ''a_fuzzer'' =
     Some (section_stats (owned ''a_fuzzer'' [] (scan_lines sample_sweep))) \<and>
   map_of (parse_sweep sample_sweep) ''a_fuzzer'' =
     Some \<lparr>ss_execs = 11, ss_new_units = 2, ss_rate = 9 / 2\<rparr>"
proof -
  have o: "owned ''a_fuzzer'' [] (scan_lines sample_sweep) =
      [''stat::number_of_executed_units: 7'', ''stat::new_units_added: 2'', ''stat::number_of_executed_units: 4'',
       ''Done 9 runs in 2 second(s)'']" by code_simp
  have own: "list_ex is_execs (owned ''a_fuzzer'' [] (scan_lines sample_sweep))" unfolding o by code_simp
  have "section_stats (owned ''a_fuzzer'' [] (scan_lines sample_sweep)) =
      \<lparr>ss_execs = 11, ss_new_units = 2, ss_rate = 9 / 2\<rparr>"
    unfolding o section_stats_def using sample_figures by (simp add: sample_rate)
  then show ?thesis
    using parse_sweep_sections [of "''a_fuzzer''" sample_sweep] own by (simp add: Let_def)
qed

text \<open>
  the cheap test in front of the sweep parser's patterns loses nothing. On a log without terminal
  escape bytes the parser with its prefilter and the parser that runs every pattern on every line
  give the same result.
\<close>

theorem prefilter_transparent:
  assumes "CHR 0x1B \<notin> set text"
  shows "parse_sweep text = sweep_result (fold sweep_body (scan_lines text) sweep_start)"
proof -
  have "fold sweep_line ls s = fold sweep_body ls s" if "\<forall>l \<in> set ls. CHR 0x1B \<notin> set l" for ls s
    using that by (induction ls arbitrary: s) (simp_all add: sweep_line_def filtered_line_idle)
  moreover have "\<forall>l \<in> set (scan_lines text). CHR 0x1B \<notin> set l"
    using assms scan_lines_sub by blast
  ultimately show ?thesis by (simp add: parse_sweep_def)
qed

theorem prefilter_transparent_witness:
  "parse_sweep sample_sweep = sweep_result (fold sweep_body (scan_lines sample_sweep) sweep_start)"
proof (rule prefilter_transparent)
  show "CHR 0x1B \<notin> set sample_sweep" by code_simp
qed

text \<open>
  The two readers of the package disagree about a log whose stat block is printed twice per job: the
  run parser takes the completed runs, the sweep parser the sum of the blocks, so its total is twice
  the executions while its rate is computed from the runs.
\<close>

definition doubled_block :: string where
  "doubled_block = join [newline]
     [''---- a_fuzzer ----  (1/1)'', ''stat::number_of_executed_units: 6'', ''Done 6 runs in 2 second(s)'',
      ''stat::number_of_executed_units: 6'']"

lemma doubled_block_disagrees:
  "st_execs (parse doubled_block) = 6 \<and>
   map_of (parse_sweep doubled_block) ''a_fuzzer'' = Some \<lparr>ss_execs = 12, ss_new_units = 0, ss_rate = 3\<rparr>"
proof
  have "sum_list (map done_runs (scan_lines doubled_block)) = 6" by code_simp
  then show "st_execs (parse doubled_block) = 6" using parse_execs_runs [of doubled_block] by simp
  show "map_of (parse_sweep doubled_block) ''a_fuzzer'' = Some \<lparr>ss_execs = 12, ss_new_units = 0, ss_rate = 3\<rparr>"
    by code_simp
qed

end
