(* ===== verification/Trajectory.thy ===== *)
theory Trajectory
  imports Logs "HOL-Library.Multiset"
begin

text \<open>
  What a run reached and what it gained (\<open>internal/logs/trajectory.go\<close>): the progress lines of a log as
  points, the hand-written insertion sort by execution count, and the summary a report quotes. The
  sort is modelled swap by swap and proved equal to the library's stable sort.
\<close>

record point =
  pt_execs :: int
  pt_cov :: int
  pt_ft :: int
  pt_corpus :: int

record trajectory =
  tj_cov :: int
  tj_ft :: int
  tj_cov_start :: int
  tj_ft_start :: int
  tj_cov_gained :: int
  tj_ft_gained :: int
  tj_corpus_end :: int
  tj_last_new_edge :: int
  tj_last_exec :: int
  tj_saturated :: "f64 option"

definition point_of :: "string \<Rightarrow> point option" where
  "point_of raw =
     (if \<not> contains raw ''cov: '' then None
      else map_option (\<lambda>m. \<lparr>pt_execs = num_grp m 1, pt_cov = num_grp m 3, pt_ft = num_grp m 4,
             pt_corpus = num_grp m 5\<rparr>) (find_re reProgress (strip raw)))"

definition read_trajectory :: "string \<Rightarrow> point list" where
  "read_trajectory text = List.map_filter point_of (scan_lines text)"

text \<open>The inner loop moves element \<open>j\<close> down past larger neighbours; the outer one runs over \<open>i\<close>.\<close>

fun sink :: "nat \<Rightarrow> point list \<Rightarrow> point list" where
  "sink 0 p = p"
| "sink (Suc j) p =
     (if pt_execs (p ! Suc j) < pt_execs (p ! j) then sink j (p[Suc j := p ! j, j := p ! Suc j]) else p)"

definition sort_points :: "point list \<Rightarrow> point list" where
  "sort_points p = fold sink [1..<length p] p"

definition see_point :: "point \<Rightarrow> int \<times> trajectory \<Rightarrow> int \<times> trajectory" where
  "see_point p = (\<lambda>(best, t).
     (let t1 = (if pt_cov p > tj_cov t then t\<lparr>tj_cov := pt_cov p\<rparr> else t);
          t2 = (if pt_ft p > tj_ft t1 then t1\<lparr>tj_ft := pt_ft p\<rparr> else t1);
          t3 = (if pt_execs p > tj_last_exec t2 then t2\<lparr>tj_last_exec := pt_execs p\<rparr> else t2)
      in if pt_cov p > best then (pt_cov p, t3\<lparr>tj_last_new_edge := pt_execs p\<rparr>) else (best, t3)))"

definition saturation :: "int \<Rightarrow> int \<Rightarrow> f64" where
  "saturation idle_execs all_execs =
     f64_div (of_int (math_round (f64_mul (f64_div (f64_mul 100 (f64_of_int idle_execs)) (f64_of_int all_execs)) 10))) 10"

definition empty_trajectory :: trajectory where
  "empty_trajectory = \<lparr>tj_cov = 0, tj_ft = 0, tj_cov_start = 0, tj_ft_start = 0, tj_cov_gained = 0,
     tj_ft_gained = 0, tj_corpus_end = 0, tj_last_new_edge = 0, tj_last_exec = 0, tj_saturated = None\<rparr>"

definition summarise :: "point list \<Rightarrow> trajectory" where
  "summarise traj =
     (if traj = [] then empty_trajectory
      else
        let ordered = sort_points traj;
            t0 = empty_trajectory\<lparr>tj_cov_start := pt_cov (hd ordered), tj_ft_start := pt_ft (hd ordered),
                   tj_corpus_end := pt_corpus (last ordered)\<rparr>;
            t = snd (fold see_point ordered (- 1, t0));
            t1 = t\<lparr>tj_cov_gained := tj_cov t - tj_cov_start t, tj_ft_gained := tj_ft t - tj_ft_start t\<rparr>
        in if tj_last_exec t1 > 0
           then t1\<lparr>tj_saturated := Some (saturation (tj_last_exec t1 - tj_last_new_edge t1) (tj_last_exec t1))\<rparr>
           else t1)"

subsection \<open>the sort\<close>

fun insr :: "point \<Rightarrow> point list \<Rightarrow> point list" where
  "insr x [] = [x]"
| "insr x (y # ys) = (if list_all (\<lambda>z. pt_execs x < pt_execs z) (y # ys) then x # y # ys else y # insr x ys)"

lemma length_insr [simp]: "length (insr x ys) = Suc (length ys)"
  by (induction ys) auto

lemma insr_snoc:
  "sorted (map pt_execs (ys @ [y])) \<Longrightarrow>
   insr x (ys @ [y]) = (if pt_execs x < pt_execs y then insr x ys @ [y] else ys @ [y, x])"
proof (induction ys)
  case (Cons z ys)
  have le: "\<forall>w \<in> set ys. pt_execs w \<le> pt_execs y" "pt_execs z \<le> pt_execs y"
    using Cons.prems by (auto simp: sorted_append)
  show ?case
  proof (cases "pt_execs x < pt_execs y")
    case True
    with Cons show ?thesis by simp
  next
    case False
    with Cons show ?thesis by simp
  qed
qed simp

lemma sink_insr:
  "sorted (map pt_execs ys) \<Longrightarrow> sink (length ys) (ys @ x # zs) = insr x ys @ zs"
proof (induction ys arbitrary: zs rule: rev_induct)
  case (snoc y ys)
  have swap: "((ys @ [y]) @ x # zs)[Suc (length ys) := y, length ys := x] = ys @ x # y # zs"
    by (simp add: list_update_append)
  have s: "sorted (map pt_execs ys)" using snoc.prems by (simp add: sorted_append)
  have "sink (length (ys @ [y])) ((ys @ [y]) @ x # zs) =
      (if pt_execs x < pt_execs y then sink (length ys) (ys @ x # y # zs) else ys @ y # x # zs)"
    using swap by (simp add: nth_append)
  with snoc.IH [OF s, of "y # zs"] insr_snoc [OF snoc.prems, of x] show ?case by simp
qed simp

lemma mset_insr [simp]: "mset (insr x ys) = add_mset x (mset ys)"
  by (induction ys) auto

lemma insr_sorted: "sorted (map pt_execs ys) \<Longrightarrow> sorted (map pt_execs (insr x ys))"
proof (induction ys rule: rev_induct)
  case (snoc y ys)
  have "set (insr x ys) = insert x (set ys)" by (metis mset_insr set_mset_add_mset_insert set_mset_mset)
  with snoc insr_snoc [OF snoc.prems, of x] show ?case by (auto simp: sorted_append)
qed simp

lemma insr_stable:
  "sorted (map pt_execs ys) \<Longrightarrow>
   filter (\<lambda>z. pt_execs z = k) (insr x ys) = filter (\<lambda>z. pt_execs z = k) (ys @ [x])"
proof (induction ys rule: rev_induct)
  case (snoc y ys)
  then have "sorted (map pt_execs ys)" by (simp add: sorted_append)
  with snoc insr_snoc [OF snoc.prems, of x] show ?case by (auto simp: sorted_append)
qed simp

lemma sort_key_snoc: "sort_key pt_execs (xs @ [x]) = insr x (sort_key pt_execs xs)"
proof (rule properties_for_sort_key)
  show "mset (insr x (sort_key pt_execs xs)) = mset (xs @ [x])" by simp
  show "filter (\<lambda>z. pt_execs k = pt_execs z) (insr x (sort_key pt_execs xs)) =
      filter (\<lambda>z. pt_execs k = pt_execs z) (xs @ [x])" for k
    using insr_stable [of "sort_key pt_execs xs" "pt_execs k" x]
      sort_key_stable [of pt_execs "pt_execs k" xs]
    by (simp add: eq_commute [of "pt_execs k"])
  show "sorted (map pt_execs (insr x (sort_key pt_execs xs)))" by (simp add: insr_sorted)
qed

lemma sort_points_steps: "k \<le> length p \<Longrightarrow> fold sink [1..<k] p = sort_key pt_execs (take k p) @ drop k p"
proof (induction k)
  case (Suc k)
  then have k: "k < length p" by simp
  show ?case
  proof (cases k)
    case 0
    then show ?thesis using k Cons_nth_drop_Suc [of 0 p] by (simp add: take_Suc_conv_app_nth)
  next
    case (Suc m)
    then have "fold sink [1..<Suc k] p = sink k (fold sink [1..<k] p)" by simp
    also have "\<dots> = sink k (sort_key pt_execs (take k p) @ p ! k # drop (Suc k) p)"
      using Suc.IH k by (simp add: Cons_nth_drop_Suc)
    also have "\<dots> = insr (p ! k) (sort_key pt_execs (take k p)) @ drop (Suc k) p"
      using sink_insr [of "sort_key pt_execs (take k p)" "p ! k" "drop (Suc k) p"] k by simp
    finally show ?thesis using k by (simp add: take_Suc_conv_app_nth sort_key_snoc)
  qed
qed simp

text \<open>
  The hand-written insertion sort orders the points by execution count, loses none, and keeps the
  file's order among points with the same count: it is the library's stable sort.
\<close>

theorem sort_points_stable: "sort_points p = sort_key pt_execs p"
proof -
  show ?thesis using sort_points_steps [of "length p" p] by (simp add: sort_points_def)
qed

subsection \<open>the summary\<close>

definition seen :: "point list \<Rightarrow> int \<times> trajectory \<Rightarrow> bool" where
  "seen ps = (\<lambda>(best, t).
     (ps = [] \<longrightarrow> best = - 1 \<and> tj_cov t = 0 \<and> tj_ft t = 0 \<and> tj_last_exec t = 0) \<and>
     (ps \<noteq> [] \<longrightarrow> best = tj_cov t \<and> tj_cov t = Max (pt_cov ` set ps) \<and> tj_ft t = Max (pt_ft ` set ps)
        \<and> tj_last_exec t = Max (pt_execs ` set ps)
        \<and> tj_last_new_edge t = Min (pt_execs ` {p \<in> set ps. pt_cov p = tj_cov t})))"

definition natural :: "point \<Rightarrow> bool" where
  "natural p \<longleftrightarrow> 0 \<le> pt_execs p \<and> 0 \<le> pt_cov p \<and> 0 \<le> pt_ft p"

lemma see_point_sel:
  "tj_cov (snd (see_point p (b, t))) = max (pt_cov p) (tj_cov t)"
  "tj_ft (snd (see_point p (b, t))) = max (pt_ft p) (tj_ft t)"
  "tj_last_exec (snd (see_point p (b, t))) = max (pt_execs p) (tj_last_exec t)"
  "fst (see_point p (b, t)) = max (pt_cov p) b"
  "tj_last_new_edge (snd (see_point p (b, t))) = (if pt_cov p > b then pt_execs p else tj_last_new_edge t)"
  "tj_cov_start (snd (see_point p (b, t))) = tj_cov_start t" "tj_ft_start (snd (see_point p (b, t))) = tj_ft_start t"
  "tj_corpus_end (snd (see_point p (b, t))) = tj_corpus_end t" "tj_saturated (snd (see_point p (b, t))) = tj_saturated t"
  by (simp_all add: see_point_def Let_def max_def)

lemma see_points_frame:
  "tj_cov_start (snd (fold see_point ps bt)) = tj_cov_start (snd bt) \<and>
   tj_ft_start (snd (fold see_point ps bt)) = tj_ft_start (snd bt) \<and>
   tj_corpus_end (snd (fold see_point ps bt)) = tj_corpus_end (snd bt) \<and>
   tj_saturated (snd (fold see_point ps bt)) = tj_saturated (snd bt)"
proof (induction ps arbitrary: bt)
  case (Cons p ps)
  show ?case using Cons.IH [of "see_point p bt"] by (cases bt) (simp add: see_point_sel)
qed simp

lemma seen_step:
  assumes "seen ps bt" and "\<forall>q \<in> set ps. pt_execs q \<le> pt_execs p" and "natural p"
  shows "seen (ps @ [p]) (see_point p bt)"
proof (cases bt)
  case (Pair b t)
  let ?r = "see_point p (b, t)"
  show ?thesis
  proof (cases "ps = []")
    case True
    have "{q. q = p \<and> pt_cov q = pt_cov p} = {p}" by auto
    with True show ?thesis
      using assms(1,3) Pair
      by (auto simp: seen_def natural_def see_point_sel case_prod_beta)
  next
    case False
    then have s: "b = tj_cov t" "tj_cov t = Max (pt_cov ` set ps)" "tj_ft t = Max (pt_ft ` set ps)"
      "tj_last_exec t = Max (pt_execs ` set ps)"
      "tj_last_new_edge t = Min (pt_execs ` {q \<in> set ps. pt_cov q = tj_cov t})"
      using assms(1) Pair by (auto simp: seen_def)
    have ub: "\<forall>q \<in> set ps. pt_cov q \<le> tj_cov t" using s(2) by simp
    have new: "{q \<in> set (ps @ [p]). pt_cov q = pt_cov p} = {p}" if "pt_cov p > tj_cov t"
      using ub that by fastforce
    have att: "\<exists>q \<in> set ps. pt_cov q = tj_cov t"
      using s(2) False Max_in [of "pt_cov ` set ps"] by (metis (no_types, lifting) finite_imageI finite_set image_iff image_is_empty set_empty)
    have old: "Min (pt_execs ` {q \<in> set (ps @ [p]). pt_cov q = tj_cov t}) =
        Min (pt_execs ` {q \<in> set ps. pt_cov q = tj_cov t})" if "\<not> pt_cov p > tj_cov t"
    proof (cases "pt_cov p = tj_cov t")
      case True
      let ?A = "pt_execs ` {q \<in> set ps. pt_cov q = tj_cov t}"
      have "?A \<noteq> {}" using att by auto
      moreover have "Min ?A \<le> pt_execs p"
      proof -
        obtain q where q: "q \<in> set ps" "pt_cov q = tj_cov t" using att by blast
        then have "Min ?A \<le> pt_execs q" by (intro Min_le) auto
        moreover have "pt_execs q \<le> pt_execs p" using q assms(2) by blast
        ultimately show ?thesis by (rule order_trans)
      qed
      moreover have "pt_execs ` {q \<in> set (ps @ [p]). pt_cov q = tj_cov t} = insert (pt_execs p) ?A"
        using True by auto
      ultimately show ?thesis by simp
    next
      case False
      then have "{q \<in> set (ps @ [p]). pt_cov q = tj_cov t} = {q \<in> set ps. pt_cov q = tj_cov t}" by auto
      then show ?thesis by simp
    qed
    show ?thesis
      unfolding Pair seen_def case_prod_beta see_point_sel
      using False s(1-4) new old s(5) [symmetric]
      by (cases "pt_cov p > tj_cov t") (simp_all add: image_Un Max_insert max.absorb1 max.absorb2 del: Max_less_iff)
  qed
qed

lemma seen_all:
  "sorted (map pt_execs ps) \<Longrightarrow> list_all natural ps \<Longrightarrow> seen [] bt \<Longrightarrow> seen ps (fold see_point ps bt)"
proof (induction ps rule: rev_induct)
  case (snoc p ps)
  then have "seen ps (fold see_point ps bt)" by (simp add: sorted_append)
  with snoc.prems show ?case by (simp add: seen_step sorted_append)
qed simp

lemma summarise_sel:
  assumes "traj \<noteq> []"
  defines "ord \<equiv> sort_points traj"
  defines "t \<equiv> snd (fold see_point ord (- 1, empty_trajectory\<lparr>tj_cov_start := pt_cov (hd ord),
      tj_ft_start := pt_ft (hd ord), tj_corpus_end := pt_corpus (last ord)\<rparr>))"
  shows "tj_cov (summarise traj) = tj_cov t" "tj_ft (summarise traj) = tj_ft t"
    "tj_last_exec (summarise traj) = tj_last_exec t" "tj_last_new_edge (summarise traj) = tj_last_new_edge t"
    "tj_cov_start (summarise traj) = pt_cov (hd ord)" "tj_ft_start (summarise traj) = pt_ft (hd ord)"
    "tj_corpus_end (summarise traj) = pt_corpus (last ord)"
    "tj_cov_gained (summarise traj) = tj_cov t - pt_cov (hd ord)"
    "tj_ft_gained (summarise traj) = tj_ft t - pt_ft (hd ord)"
    "tj_saturated (summarise traj) = (if tj_last_exec t > 0
       then Some (saturation (tj_last_exec t - tj_last_new_edge t) (tj_last_exec t)) else None)"
  using assms(1) unfolding ord_def t_def
  by (simp_all add: summarise_def Let_def see_points_frame empty_trajectory_def)

lemma map_filter_set: "x \<in> set (List.map_filter f xs) \<Longrightarrow> \<exists>y \<in> set xs. f y = Some x"
  by (induction xs) (auto simp: List.map_filter_simps split: option.splits)

lemma reProgress_groups [simp]: "group_only 3 is_digit reProgress" "group_only 4 is_digit reProgress"
  by (simp_all add: reProgress_def)

lemma point_of_natural: "point_of l = Some p \<Longrightarrow> natural p"
  by (auto simp: point_of_def natural_def num_grp_nonneg split: if_splits)

lemma read_trajectory_natural: "list_all natural (read_trajectory text)"
  by (auto simp: read_trajectory_def list_all_iff dest!: map_filter_set intro: point_of_natural)

lemma sort_points_facts:
  "set (sort_points p) = set p" "sorted (map pt_execs (sort_points p))"
  by (simp_all add: sort_points_steps [of "length p" p, simplified] sort_points_def)

lemma saturation_bounds:
  assumes "0 \<le> a" and "a \<le> b" and "0 < b" and "b \<le> 2 ^ 46"
  shows "0 \<le> saturation a b" and "saturation a b \<le> 100"
proof -
  have ex: "f64_of_int b = of_int b" "f64_of_int a = of_int a" "f64_mul 100 (of_int b) = of_int (100 * b)"
    using assms f64_of_int_exact [of "100 * b"] f64_of_int_exact [of a] f64_of_int_exact [of b]
    by (simp_all add: f64_mul_def f64_of_int_def)
  let ?q = "f64_div (f64_mul 100 (of_int a)) (of_int b)"
  have q0: "0 \<le> ?q" using assms by (simp add: f64_div_def f64_mul_def f64_nonneg)
  have "f64_mul 100 (of_int a) \<le> f64_mul 100 (of_int b)" using assms by (simp add: f64_mul_def f64_mono)
  then have "f64_mul 100 (of_int a) / of_int b \<le> 100" using assms ex by (simp add: field_simps)
  then have "?q \<le> f64 100" unfolding f64_div_def by (rule f64_mono)
  then have q100: "?q \<le> 100" using f64_of_int_exact [of 100] by (simp add: f64_of_int_def)
  have "f64_mul ?q 10 \<le> f64 1000" using q100 unfolding f64_mul_def by (intro f64_mono) simp
  then have m: "f64_mul ?q 10 \<le> 1000" using f64_of_int_exact [of 1000] by (simp add: f64_of_int_def)
  have m0: "0 \<le> f64_mul ?q 10" using q0 by (simp add: f64_mul_def f64_nonneg)
  have r: "0 \<le> math_round (f64_mul ?q 10)" "math_round (f64_mul ?q 10) \<le> 1000"
    using m m0 by (simp_all add: math_round_def floor_le_iff)
  have s: "saturation a b = f64 (of_int (math_round (f64_mul ?q 10)) / 10)"
    by (simp add: saturation_def ex f64_div_def)
  show "0 \<le> saturation a b" unfolding s using r by (simp add: f64_nonneg)
  have "of_int (math_round (f64_mul ?q 10)) / (10 :: rat) \<le> 100" using r(2) by simp
  then have "saturation a b \<le> f64 100" unfolding s by (rule f64_mono)
  then show "saturation a b \<le> 100" using f64_of_int_exact [of 100] by (simp add: f64_of_int_def)
qed

lemma summarise_facts:
  assumes "read_trajectory text \<noteq> []"
  defines "ps \<equiv> set (read_trajectory text)" and "t \<equiv> summarise (read_trajectory text)"
  shows "tj_cov t = Max (pt_cov ` ps)" "tj_ft t = Max (pt_ft ` ps)" "tj_last_exec t = Max (pt_execs ` ps)"
    "tj_last_new_edge t = Min (pt_execs ` {p \<in> ps. pt_cov p = tj_cov t})"
    "\<exists>p \<in> ps. pt_execs p = Min (pt_execs ` ps) \<and> tj_cov_start t = pt_cov p \<and> tj_ft_start t = pt_ft p"
    "0 \<le> tj_cov_gained t" "0 \<le> tj_ft_gained t"
    "tj_last_exec t \<le> 2 ^ 46 \<longrightarrow> pred_option (\<lambda>v. 0 \<le> v \<and> v \<le> 100) (tj_saturated t)"
proof -
  let ?traj = "read_trajectory text"
  let ?o = "sort_points ?traj"
  note sel = summarise_sel [OF assms(1)]
  have ne: "?o \<noteq> []" using assms(1) sort_points_facts(1) [of ?traj] by force
  have nat: "list_all natural ?o"
    using read_trajectory_natural [of "text"] by (simp add: list_all_iff sort_points_facts)
  let ?t0 = "empty_trajectory\<lparr>tj_cov_start := pt_cov (hd ?o), tj_ft_start := pt_ft (hd ?o),
      tj_corpus_end := pt_corpus (last ?o)\<rparr>"
  have "seen ?o (fold see_point ?o (- 1, ?t0))"
    by (rule seen_all [OF sort_points_facts(2) nat]) (simp add: seen_def empty_trajectory_def)
  then have f: "tj_cov t = Max (pt_cov ` ps)" "tj_ft t = Max (pt_ft ` ps)" "tj_last_exec t = Max (pt_execs ` ps)"
      "tj_last_new_edge t = Min (pt_execs ` {p \<in> ps. pt_cov p = tj_cov t})"
    using ne by (simp_all add: seen_def case_prod_beta sel t_def ps_def sort_points_facts)
  then show "tj_cov t = Max (pt_cov ` ps)" "tj_ft t = Max (pt_ft ` ps)" "tj_last_exec t = Max (pt_execs ` ps)"
      "tj_last_new_edge t = Min (pt_execs ` {p \<in> ps. pt_cov p = tj_cov t})" by simp_all
  have fin: "finite ps" by (simp add: ps_def)
  obtain h r where hr: "?o = h # r" using ne by (meson neq_Nil_conv)
  have "set (h # r) = ps" using sort_points_facts(1) [of ?traj] unfolding hr ps_def .
  moreover have "sorted (map pt_execs (h # r))" using sort_points_facts(2) [of ?traj] unfolding hr .
  ultimately have hd: "hd ?o \<in> ps" "\<forall>p \<in> ps. pt_execs (hd ?o) \<le> pt_execs p"
    unfolding hr by auto
  then have "pt_execs (hd ?o) = Min (pt_execs ` ps)"
    using fin by (intro Min_eqI [symmetric]) auto
  with hd show "\<exists>p \<in> ps. pt_execs p = Min (pt_execs ` ps) \<and> tj_cov_start t = pt_cov p \<and> tj_ft_start t = pt_ft p"
    by (auto simp: t_def sel)
  show "0 \<le> tj_cov_gained t" "0 \<le> tj_ft_gained t"
    using f(1,2) hd(1) fin by (simp_all add: t_def sel)
  have att: "tj_cov t \<in> pt_cov ` ps" unfolding f(1) using hd(1) fin by (intro Max_in) auto
  let ?A = "pt_execs ` {p \<in> ps. pt_cov p = tj_cov t}"
  have "tj_last_new_edge t \<in> ?A" unfolding f(4) using att fin by (intro Min_in) auto
  then have "0 \<le> tj_last_new_edge t" "tj_last_new_edge t \<le> tj_last_exec t"
    using read_trajectory_natural [of "text"] fin f(3) by (auto simp: natural_def list_all_iff ps_def)
  then show "tj_last_exec t \<le> 2 ^ 46 \<longrightarrow> pred_option (\<lambda>v. 0 \<le> v \<and> v \<le> 100) (tj_saturated t)"
    using saturation_bounds [of "tj_last_exec t - tj_last_new_edge t" "tj_last_exec t"]
    by (simp add: t_def sel)
qed

text \<open>
  what a trajectory's summary says. Coverage and features are the highest any point reached, the
  last new edge is the earliest execution count at which the highest coverage was seen, the start is
  the point with the fewest executions, so neither gain is ever negative, and the saturated share is
  a percentage between 0 and 100 for any run of up to two to the 46 executions.
\<close>

theorem summarise_figures:
  assumes "read_trajectory text \<noteq> []"
  shows "let ps = set (read_trajectory text); t = summarise (read_trajectory text)
    in tj_cov t = Max (pt_cov ` ps) \<and> tj_ft t = Max (pt_ft ` ps) \<and> tj_last_exec t = Max (pt_execs ` ps) \<and>
       tj_last_new_edge t = Min (pt_execs ` {p \<in> ps. pt_cov p = tj_cov t}) \<and>
       (\<exists>p \<in> ps. pt_execs p = Min (pt_execs ` ps) \<and> tj_cov_start t = pt_cov p \<and> tj_ft_start t = pt_ft p) \<and>
       0 \<le> tj_cov_gained t \<and> 0 \<le> tj_ft_gained t \<and>
       (tj_last_exec t \<le> 2 ^ 46 \<longrightarrow> pred_option (\<lambda>v. 0 \<le> v \<and> v \<le> 100) (tj_saturated t))"
  unfolding Let_def using summarise_facts [OF assms] by (intro conjI)

definition sample_progress :: string where
  "sample_progress = join [newline]
     [''#9 NEW cov: 5 ft: 7 corp: 3'', ''#2 INITED cov: 4 ft: 6 corp: 2'', ''#12 pulse cov: 5 ft: 8 corp: 3'']"

theorem summarise_figures_witness:
  "read_trajectory sample_progress \<noteq> [] \<and>
   0 \<le> tj_cov_gained (summarise (read_trajectory sample_progress)) \<and>
   tj_saturated (summarise (read_trajectory sample_progress)) = Some 25"
proof -
  have ne: "read_trajectory sample_progress \<noteq> []" by code_simp
  moreover have "tj_saturated (summarise (read_trajectory sample_progress)) = Some 25" by code_simp
  ultimately show ?thesis using summarise_figures [OF ne] by (simp add: Let_def)
qed

end
