(* ===== verification/Go_Glob.thy ===== *)
theory Go_Glob
  imports Go_Prelude
begin

text \<open>
  \<open>path.Match\<close> as a predicate: true when the pattern is well formed and matches the whole name. A star
  or a question mark stands for bytes other than a slash, a bracket is a class of ranges, a
  backslash takes the next byte literally. A malformed part never matches.
\<close>

definition get_esc :: "string \<Rightarrow> (char \<times> string) option" where
  "get_esc s =
     (case s of
        [] \<Rightarrow> None
      | c # r \<Rightarrow>
          if c = CHR ''-'' \<or> c = CHR '']'' then None
          else if c = CHR 0x5C then (case r of x # y # r' \<Rightarrow> Some (x, y # r') | _ \<Rightarrow> None)
          else if r = [] then None else Some (c, r))"

lemma get_esc_shorter: "get_esc s = Some (c, r) \<Longrightarrow> length r < length s"
  by (auto simp: get_esc_def split: list.splits if_splits)

definition range_of :: "string \<Rightarrow> ((char \<times> char) \<times> string) option" where
  "range_of s =
     (case get_esc s of
        None \<Rightarrow> None
      | Some (lo, r) \<Rightarrow>
          (case r of
             c # r' \<Rightarrow> if c = CHR ''-'' then map_option (\<lambda>(hi, r''). ((lo, hi), r'')) (get_esc r') else Some ((lo, lo), r)
           | [] \<Rightarrow> Some ((lo, lo), r)))"

lemma range_of_shorter: "range_of s = Some (x, r) \<Longrightarrow> length r < length s"
  by (auto simp: range_of_def dest!: get_esc_shorter split: option.splits list.splits if_splits)

text \<open>The ranges of a class up to its closing bracket; at least one is required.\<close>

function class_of :: "bool \<Rightarrow> string \<Rightarrow> ((char \<times> char) list \<times> string) option" where
  "class_of any_yet s =
     (if any_yet \<and> s \<noteq> [] \<and> hd s = CHR '']'' then Some ([], tl s)
      else case range_of s of
             None \<Rightarrow> None
           | Some (x, r) \<Rightarrow> map_option (\<lambda>(xs, r'). (x # xs, r')) (class_of True r))"
  by pat_completeness auto
termination
  by (relation "measure (\<lambda>(b, s). length s)") (auto dest: range_of_shorter)

declare class_of.simps [simp del]

lemma class_of_shorter: "class_of b s = Some (xs, r) \<Longrightarrow> length r < length s"
proof (induction b s arbitrary: xs r rule: class_of.induct)
  case (1 b s)
  show ?case
  proof (cases "b \<and> s \<noteq> [] \<and> hd s = CHR '']''")
    case True
    with "1.prems" show ?thesis by (subst (asm) class_of.simps) auto
  next
    case False
    with "1.prems" obtain x r' xs' where r: "range_of s = Some (x, r')" "class_of True r' = Some (xs', r)"
      by (subst (asm) class_of.simps) (auto split: option.splits)
    with "1.IH" [OF False r(1) refl r(2)] range_of_shorter [OF r(1)] show ?thesis by simp
  qed
qed

definition in_class :: "char \<Rightarrow> (char \<times> char) list \<Rightarrow> bool" where
  "in_class c xs = list_ex (\<lambda>(lo, hi). (of_char lo :: nat) \<le> of_char c \<and> (of_char c :: nat) \<le> of_char hi) xs"

function glob :: "string \<Rightarrow> string \<Rightarrow> bool" where
  "glob [] s = (s = [])"
| "glob (p # ps) s =
     (if p = CHR ''*'' then
        glob ps s \<or> (case s of [] \<Rightarrow> False | c # s' \<Rightarrow> c \<noteq> CHR ''/'' \<and> glob (p # ps) s')
      else if p = CHR ''?'' then (case s of [] \<Rightarrow> False | c # s' \<Rightarrow> c \<noteq> CHR ''/'' \<and> glob ps s')
      else if p = CHR ''['' then
        (case s of
           [] \<Rightarrow> False
         | c # s' \<Rightarrow>
             let neg = (ps \<noteq> [] \<and> hd ps = CHR ''^'')
             in (case class_of False (if neg then tl ps else ps) of
                   None \<Rightarrow> False
                 | Some (xs, r) \<Rightarrow> in_class c xs \<noteq> neg \<and> (if length r < length (p # ps) then glob r s' else False)))
      else if p = CHR 0x5C then
        (case ps of [] \<Rightarrow> False | q # ps' \<Rightarrow> (case s of [] \<Rightarrow> False | c # s' \<Rightarrow> c = q \<and> glob ps' s'))
      else (case s of [] \<Rightarrow> False | c # s' \<Rightarrow> c = p \<and> glob ps s'))"
  by pat_completeness auto
termination
  by (relation "measures [\<lambda>(p, s). length p + length s]") auto

declare glob.simps(2) [simp del]

text \<open>A pattern without metacharacters is an equality test, and a lone star matches any name without a slash.\<close>

definition plain :: "string \<Rightarrow> bool" where
  "plain p \<longleftrightarrow> set p \<inter> {CHR ''*'', CHR ''?'', CHR ''['', CHR 0x5C} = {}"

lemma glob_plain: "plain p \<Longrightarrow> glob p s \<longleftrightarrow> s = p"
proof (induction p arbitrary: s)
  case (Cons c p)
  then show ?case by (cases s) (auto simp: plain_def glob.simps)
qed (simp add: plain_def)

lemma glob_star_suffix: "CHR ''/'' \<notin> set s \<Longrightarrow> glob [CHR ''*''] s"
  by (induction s) (auto simp: glob.simps)

lemma glob_prefix_star: "plain p \<Longrightarrow> CHR ''/'' \<notin> set s \<Longrightarrow> glob (p @ [CHR ''*'']) s \<longleftrightarrow> has_prefix s p"
proof (induction p arbitrary: s)
  case (Cons c p)
  then show ?case by (cases s) (auto simp: plain_def glob.simps)
qed (simp add: glob_star_suffix)

end
