(* ===== verification/Go_Time.thy ===== *)
theory Go_Time
  imports Go_Float Go_Prelude
begin

text \<open>
  What the program uses of Go's \<open>time\<close>: durations in nanoseconds, \<open>Hours\<close>, the date layout
  \<open>2006-01-02\<close>, and \<open>Since\<close> with its saturation. A moment is nanoseconds since 1970 in UTC.
\<close>

definition hour :: int where "hour = 3600000000000"

definition hours :: "int \<Rightarrow> f64" where
  "hours d = f64_add (f64_of_int (quot d hour)) (f64_div (f64_of_int (d - quot d hour * hour)) (f64_of_int hour))"

definition clamp64 :: "int \<Rightarrow> int" where
  "clamp64 d = max (- max_int64 - 1) (min max_int64 d)"

definition leap :: "int \<Rightarrow> bool" where
  "leap y \<longleftrightarrow> y mod 4 = 0 \<and> (y mod 100 \<noteq> 0 \<or> y mod 400 = 0)"

definition month_days :: "int \<Rightarrow> int \<Rightarrow> int" where
  "month_days y m = (if m = 2 then (if leap y then 29 else 28) else if m \<in> {4, 6, 9, 11} then 30 else 31)"

text \<open>Days from the start of year 0 to the start of a year, and from 1970 to a date.\<close>

definition year_start :: "int \<Rightarrow> int" where
  "year_start y = 365 * y + (y + 3) div 4 - (y + 99) div 100 + (y + 399) div 400"

definition unix_days :: "int \<Rightarrow> int \<Rightarrow> int \<Rightarrow> int" where
  "unix_days y m d = year_start y - year_start 1970 + sum_list (map (month_days y) [1..m - 1]) + (d - 1)"

definition parse_date :: "string \<Rightarrow> int option" where
  "parse_date s =
     (if length s = 10 \<and> s ! 4 = CHR ''-'' \<and> s ! 7 = CHR ''-'' \<and>
         list_all is_digit (take 4 s @ take 2 (drop 5 s) @ drop 8 s)
      then let y = int (dec_val (take 4 s)); m = int (dec_val (take 2 (drop 5 s))); d = int (dec_val (drop 8 s))
           in if 1 \<le> m \<and> m \<le> 12 \<and> 1 \<le> d \<and> d \<le> month_days y m then Some (unix_days y m d * 24 * hour) else None
      else None)"

definition since :: "int \<Rightarrow> int \<Rightarrow> int" where
  "since now t = clamp64 (now - t)"

lemma month_days_bounds: "28 \<le> month_days y m \<and> month_days y m \<le> 31"
  by (simp add: month_days_def)

end
