(* ===== verification/Gate.thy ===== *)
theory Gate
  imports Logs Go_Glob Go_Time
begin

text \<open>
  The checks that fail a round (\<open>internal/gate\<close>) and the round verdict built from them (\<open>cmdGate\<close> in
  \<open>cmd/pgfuzz/main.go\<close>). Each gate is a function from parsed logs to a verdict with its reasons; what
  they promise to whoever prints and counts them is the interface \<open>gate\<close>, and each of them is an
  instance of it.
\<close>

datatype subject = Harness | Finding

fun subject_string :: "subject \<Rightarrow> string" where
  "subject_string Finding = ''finding''" | "subject_string Harness = ''harness''"

record verdict =
  vd_name :: string
  vd_failed :: bool
  vd_detail :: "string list"
  vd_about :: subject

definition new_verdict :: "string \<Rightarrow> subject \<Rightarrow> verdict" where
  "new_verdict n a = \<lparr>vd_name = n, vd_failed = False, vd_detail = [], vd_about = a\<rparr>"

definition fail_with :: "string list \<Rightarrow> verdict \<Rightarrow> verdict" where
  "fail_with ds v = v\<lparr>vd_failed := True, vd_detail := vd_detail v @ ds\<rparr>"

definition remark :: "string list \<Rightarrow> verdict \<Rightarrow> verdict" where
  "remark ds v = v\<lparr>vd_detail := vd_detail v @ ds\<rparr>"

definition verdict_string :: "verdict \<Rightarrow> string" where
  "verdict_string v =
     (if \<not> vd_failed v then vd_name v @ '': ok''
      else vd_name v @ '': FAILED'' @ [newline] @ ''  '' @ join ([newline] @ ''  '') (vd_detail v))"

subsection \<open>what every gate promises\<close>

locale gate =
  fixes check :: "'i \<Rightarrow> verdict" and gate_name :: string and about :: subject
  assumes named: "vd_name (check i) = gate_name"
    and subject: "vd_about (check i) = about"
    and told: "vd_failed (check i) \<Longrightarrow> vd_detail (check i) \<noteq> []"
begin

lemma failure_printed:
  "vd_failed (check i) \<Longrightarrow>
   \<exists>d ds. vd_detail (check i) = d # ds \<and> has_prefix (verdict_string (check i)) (gate_name @ '': FAILED'' @ [newline] @ ''  '' @ d)"
proof -
  assume f: "vd_failed (check i)"
  then obtain d ds where d: "vd_detail (check i) = d # ds" using told by (meson neq_Nil_conv)
  have "has_prefix (join sep (d # ds)) d" for sep
    by (cases ds) (simp_all add: has_prefix_def)
  then show ?thesis
    using f d named by (auto simp: verdict_string_def has_prefix_iff)
qed

lemma pass_printed: "\<not> vd_failed (check i) \<Longrightarrow> verdict_string (check i) = gate_name @ '': ok''"
  by (simp add: verdict_string_def named)

end

subsection \<open>starvation\<close>

definition StaleAck :: int where "StaleAck = 30 * 24 * hour"

definition ackReason :: "string \<Rightarrow> string" where
  "ackReason row =
     (let f = split_at tab row
      in if length f \<ge> 2 \<and> trim_space (f ! 1) \<noteq> [] then trim_space (f ! 1) else ''no reason recorded'')"

definition ackAge :: "int \<Rightarrow> string \<Rightarrow> int option" where
  "ackAge now row =
     (let f = split_at tab row
      in if length f < 4 then None else map_option (since now) (parse_date (trim_space (f ! 3))))"

definition floor_line :: "stats \<Rightarrow> int \<Rightarrow> string" where
  "floor_line s fl = st_target s @ '': '' @ itoa (st_execs s) @ '' executions, floor '' @ itoa fl"

definition starve_floor :: "int \<Rightarrow> stats \<Rightarrow> int \<Rightarrow> string gomap \<Rightarrow> verdict \<Rightarrow> verdict" where
  "starve_floor now s fl acks v =
     (if st_execs s < fl then
        (case map_of acks (st_target s) of
           Some row \<Rightarrow>
             remark ([floor_line s fl @ '' -- known: '' @ ackReason row] @
               (case ackAge now row of
                  Some d \<Rightarrow> if d > StaleAck
                    then [st_target s @ '': the acknowledgement is '' @ itoa (f64_to_int (f64_div (hours d) 24))
                            @ '' days old -- re-check the cause'']
                    else []
                | None \<Rightarrow> [])) v
         | None \<Rightarrow> fail_with [floor_line s fl] v)
      else v)"

definition Starvation :: "int \<Rightarrow> stats \<Rightarrow> int \<Rightarrow> string gomap \<Rightarrow> verdict" where
  "Starvation now s fl acks =
     (let v = new_verdict ''starvation'' Harness in
      if st_execs s = 0 \<and> st_done s = 0 then
        fail_with [st_target s @ '': no executed-unit count in the log -- '' @ startup_string (startup_of s)] v
      else
        let v1 = starve_floor now s fl acks v;
            v2 = (if st_aborted s then fail_with [st_target s @ '': libFuzzer aborted on the initial corpus -- it never fuzzed''] v1 else v1);
            v3 = (if startup_of s = Died then fail_with [st_target s @ '': died before libFuzzer started -- check the harness initialiser''] v2 else v2)
        in if replay_only s then
             fail_with [st_target s @ '': spent the slice on corpus replay -- INITED '' @ itoa (st_inited s) @
               '', DONE '' @ itoa (st_done s) @ '', '' @ itoa (st_new_units s) @ '' new units''] v3
           else v3)"

subsection \<open>slow units\<close>

definition to_lower :: "string \<Rightarrow> string" where
  "to_lower = map (\<lambda>c. if 65 \<le> (of_char c :: nat) \<and> (of_char c :: nat) \<le> 90 then char_of (of_char c + 32 :: nat) else c)"

fun options_scan :: "bool \<Rightarrow> string list \<Rightarrow> int" where
  "options_scan sec [] = 0"
| "options_scan sec (raw # ls) =
     (let line = trim_space raw in
      if has_prefix line ''['' then options_scan (to_lower line = ''[libfuzzer]'') ls
      else if \<not> sec \<or> line = [] \<or> has_prefix line ''#'' then options_scan sec ls
      else case cut_at CHR ''='' line of
             None \<Rightarrow> options_scan sec ls
           | Some (k, v) \<Rightarrow>
               if trim_space k \<noteq> ''timeout'' then options_scan sec ls
               else let (n, ok) = atoi (trim_space v) in if ok \<and> n > 0 then n else options_scan sec ls)"

definition optionsTimeout :: "string option \<Rightarrow> int" where
  "optionsTimeout f = (case f of None \<Rightarrow> 0 | Some b \<Rightarrow> options_scan False (split_at newline b))"

text \<open>The build directory is the function that reads a file of it, or nothing when none is given.\<close>

definition slow_limit :: "stats \<Rightarrow> (string \<Rightarrow> string option) option \<Rightarrow> int" where
  "slow_limit s dir =
     (let l1 = st_timeout s;
          l2 = (if l1 = 0 \<and> st_target s \<noteq> [] then
                  (case dir of None \<Rightarrow> l1 | Some read \<Rightarrow> optionsTimeout (read (st_target s @ ''.options'')))
                else l1)
      in if l2 = 0 then 25 else l2)"

definition SlowUnitsIn :: "stats \<Rightarrow> (string \<Rightarrow> string option) option \<Rightarrow> verdict" where
  "SlowUnitsIn s dir =
     (let limit = slow_limit s dir; v = new_verdict ''slow-units'' Harness
      in if st_slowest_unit s > limit then
           fail_with [st_target s @ '': slowest unit '' @ itoa (st_slowest_unit s) @ ''s against -timeout='' @ itoa limit @
             '' -- the timeout did not fire, and the unit was NOT saved because it completed''] v
         else v)"

definition SlowUnits :: "stats \<Rightarrow> verdict" where
  "SlowUnits s = SlowUnitsIn s None"

subsection \<open>the accept-list\<close>

record accepted =
  ac_function :: string
  ac_scope :: "string list"
  ac_site :: string
  ac_class :: string

definition matchGlob :: "string \<Rightarrow> string \<Rightarrow> bool" where
  "matchGlob pat s = glob pat s"

definition in_scope_row :: "accepted \<Rightarrow> string \<Rightarrow> bool" where
  "in_scope_row a ws = list_ex (\<lambda>g. g = ''*'' \<or> matchGlob g ws) (ac_scope a)"

definition inScope :: "accepted list \<Rightarrow> string \<Rightarrow> string \<Rightarrow> bool" where
  "inScope acc fn ws = list_ex (\<lambda>a. ac_function a = fn \<and> in_scope_row a ws) acc"

definition InScope :: "accepted \<Rightarrow> string \<Rightarrow> bool" where
  "InScope a ws = (if ac_scope a = [] then True
     else list_ex (\<lambda>g. g = [] \<or> g = ''*'' \<or> matchGlob g ws) (ac_scope a))"

definition accepted_row :: "string \<Rightarrow> accepted option" where
  "accepted_row line =
     (if has_prefix (trim_space line) ''#'' \<or> trim_space line = [] then None
      else let f = split_at tab line in
        if length f < 4 then None
        else Some \<lparr>ac_function = trim_space (f ! 0), ac_scope = split_at CHR '','' (trim_space (f ! 1)),
                    ac_site = trim_space (f ! 2), ac_class = trim_space (f ! 3)\<rparr>)"

definition LoadAccepted :: "string \<Rightarrow> accepted list" where
  "LoadAccepted text = List.map_filter accepted_row (scan_lines text)"

subsection \<open>undefined behaviour\<close>

definition ubsan_site :: "string \<Rightarrow> accepted list \<Rightarrow> ub_site \<Rightarrow> string set \<times> verdict \<Rightarrow> string set \<times> verdict" where
  "ubsan_site ws acc u = (\<lambda>(seen, v).
     (if ub_function u = [] then
        let key = ub_file u @ '':'' @ itoa (ub_line u) in
        if key \<in> seen then (seen, v)
        else (insert key seen, fail_with [''unattributed UB at '' @ key @ '' (no DEDUP_TOKEN): '' @ ub_text u] v)
      else if inScope acc (ub_function u) ws then (seen, v)
      else if ub_function u \<in> seen then (seen, v)
      else (insert (ub_function u) seen,
            fail_with [ub_function u @ '' at '' @ ub_file u @ '':'' @ itoa (ub_line u) @ '' ('' @ ub_class u @
              '') is not in the accept-list: '' @ ub_text u] v)))"

definition UBSan :: "stats \<Rightarrow> string \<Rightarrow> accepted list \<Rightarrow> verdict" where
  "UBSan s ws acc = snd (fold (ubsan_site ws acc) (st_ub s) ({}, new_verdict ''ubsan'' Finding))"

subsection \<open>the round as a whole\<close>

definition RoundComplete :: "string list \<Rightarrow> string list \<Rightarrow> verdict" where
  "RoundComplete swept built =
     (let missing = filter (\<lambda>t. t \<notin> set swept) built; v = new_verdict ''round-complete'' Harness
      in if length missing > 0 then
           fail_with [itoa (int (length missing)) @ '' of '' @ itoa (int (length built)) @ '' targets never ran: '' @
               join '' '' missing, ''a short round is an untested cell that reads like a clean one''] v
         else v)"

definition silent_slice :: "stats \<Rightarrow> bool" where
  "silent_slice s \<longleftrightarrow> st_execs s = 0 \<and> st_done s = 0 \<and> st_inited s = 0"

definition FinalStats :: "stats list \<Rightarrow> int \<Rightarrow> verdict" where
  "FinalStats ss minPercent =
     (let v = new_verdict ''final-stats'' Harness in
      if ss = [] then v
      else
        let silent = map st_target (filter silent_slice ss);
            reported = int (length ss) - int (length silent);
            pct = quot (reported * 100) (int (length ss))
        in if pct \<ge> minPercent then v
           else fail_with [itoa reported @ '' of '' @ itoa (int (length ss)) @ '' slices reported final stats ('' @
                  itoa pct @ ''%, floor '' @ itoa minPercent @ ''%)'', ''silent: '' @ join '' '' (sort silent),
                  ''a floor cannot be verified against a slice that never said what it did''] v)"

subsection \<open>retiring accepted rows\<close>

record ubsan_round =
  ur_ws :: string
  ur_log :: string
  ur_informative :: bool
  ur_sites :: "string list"

definition WithdrawRounds :: int where "WithdrawRounds = 3"

text \<open>What is appended to the series: the sites sorted, and informative when there are any.\<close>

definition RecordUBSanRound :: "ubsan_round list \<Rightarrow> ubsan_round \<Rightarrow> ubsan_round list" where
  "RecordUBSanRound series r = series @ [r\<lparr>ur_sites := sort (ur_sites r), ur_informative := (ur_sites r \<noteq> [])\<rparr>]"

fun streak_back :: "string \<Rightarrow> ubsan_round list \<Rightarrow> int" where
  "streak_back token [] = 0"
| "streak_back token (r # rs) = (if list_ex (\<lambda>s. s = token) (ur_sites r) then 0 else 1 + streak_back token rs)"

definition AbsentStreak :: "ubsan_round list \<Rightarrow> string \<Rightarrow> string \<Rightarrow> int" where
  "AbsentStreak series ws token =
     streak_back token (rev (filter (\<lambda>r. ur_ws r = ws \<and> ur_informative r) series))"

definition quiet_rows :: "string list \<Rightarrow> string list \<Rightarrow> string list" where
  "quiet_rows acc seen = filter (\<lambda>t. t \<notin> set seen) acc"

definition withdrawable_rows :: "ubsan_round list \<Rightarrow> string \<Rightarrow> string list \<Rightarrow> string list \<Rightarrow> string list" where
  "withdrawable_rows series ws acc seen =
     filter (\<lambda>t. AbsentStreak series ws t + 1 \<ge> WithdrawRounds) (quiet_rows acc seen)"

definition withdrawable_line :: "string \<Rightarrow> string" where
  "withdrawable_line tok = ''withdrawable: '' @ tok @ '' has not fired in '' @ itoa WithdrawRounds @
     '' informative rounds -- remove its row''"

definition quiet_line :: "ubsan_round list \<Rightarrow> string \<Rightarrow> string \<Rightarrow> string list" where
  "quiet_line series ws tok =
     (let n = AbsentStreak series ws tok + 1
      in if n < WithdrawRounds then [''quiet ('' @ itoa n @ ''/'' @ itoa WithdrawRounds @ ''): '' @ tok] else [])"

definition alarm_line :: "nat \<Rightarrow> string" where
  "alarm_line n = ''every accepted row ('' @ itoa (int n) @ '') went quiet in one round -- that is more likely detection being OFF than ''
     @ itoa (int n) @ '' upstream fixes; check the build kept -fsanitize=signed-integer-overflow before deleting anything''"

definition UBSanWithdrawals :: "ubsan_round list \<Rightarrow> string \<Rightarrow> string list \<Rightarrow> string list \<Rightarrow> verdict" where
  "UBSanWithdrawals series ws acc seen =
     (let v = new_verdict ''ubsan-withdrawal'' Finding in
      if acc = [] then v
      else
        let quiet = sort (quiet_rows acc seen); withdrawable = sort (withdrawable_rows series ws acc seen)
        in if length acc > 1 \<and> length quiet = length acc then remark [alarm_line (length acc)] v
           else remark (map withdrawable_line withdrawable @ concat (map (quiet_line series ws) quiet)) v)"

subsection \<open>recorded failures\<close>

text \<open>The JSON decoder is the library's; a line that does not decode is skipped.\<close>

fun split_lines_from :: "string \<Rightarrow> string \<Rightarrow> string list" where
  "split_lines_from acc [] = (if acc = [] then [] else [acc])"
| "split_lines_from acc (c # b) = (if c = newline then acc # split_lines_from [] b else split_lines_from (acc @ [c]) b)"

definition splitLines :: "string \<Rightarrow> string list" where
  "splitLines b = split_lines_from [] b"

definition ReadFailures :: "(string \<Rightarrow> 'f option) \<Rightarrow> string option \<Rightarrow> 'f list" where
  "ReadFailures decode f =
     (case f of None \<Rightarrow> [] | Some b \<Rightarrow> List.map_filter (\<lambda>l. if l = [] then None else decode l) (splitLines b))"

subsection \<open>the round verdict of the gate command\<close>

definition slice_verdicts :: "int \<Rightarrow> int \<Rightarrow> string gomap \<Rightarrow> (string \<Rightarrow> string option) option \<Rightarrow> string \<Rightarrow> accepted list \<Rightarrow>
    stats \<Rightarrow> verdict list" where
  "slice_verdicts now fl acks dir ws acc s = [Starvation now s fl acks, SlowUnitsIn s dir, UBSan s ws acc]"

definition round_verdicts :: "int \<Rightarrow> int \<Rightarrow> string gomap \<Rightarrow> (string \<Rightarrow> string option) option \<Rightarrow> string \<Rightarrow> accepted list \<Rightarrow>
    int \<Rightarrow> string list \<Rightarrow> stats list \<Rightarrow> verdict list" where
  "round_verdicts now fl acks dir ws acc minStats built ss =
     concat (map (slice_verdicts now fl acks dir ws acc) ss) @
     [FinalStats ss minStats, RoundComplete (remdups (map st_target ss)) built]"

definition noted :: "verdict list \<Rightarrow> verdict list" where
  "noted vs = filter vd_failed vs"

definition gate_exit :: "verdict list \<Rightarrow> int" where
  "gate_exit vs =
     (let findings = length (filter (\<lambda>v. vd_about v = Finding) (noted vs));
          failed = length (filter (\<lambda>v. vd_about v \<noteq> Finding) (noted vs))
      in if failed = 0 \<and> findings = 0 then 0 else if failed = 0 then 3 else 1)"

subsection \<open>the gates are gates\<close>

lemma new_verdict_sel [simp]:
  "vd_name (new_verdict n a) = n" "vd_failed (new_verdict n a) = False" "vd_detail (new_verdict n a) = []"
  "vd_about (new_verdict n a) = a"
  by (simp_all add: new_verdict_def)

lemma fail_with_sel [simp]:
  "vd_name (fail_with ds v) = vd_name v" "vd_failed (fail_with ds v)" "vd_detail (fail_with ds v) = vd_detail v @ ds"
  "vd_about (fail_with ds v) = vd_about v" "vd_name (remark ds v) = vd_name v" "vd_failed (remark ds v) = vd_failed v"
  "vd_detail (remark ds v) = vd_detail v @ ds" "vd_about (remark ds v) = vd_about v"
  by (simp_all add: fail_with_def remark_def)

lemma starve_floor_sel [simp]:
  "vd_name (starve_floor now s fl acks v) = vd_name v" "vd_about (starve_floor now s fl acks v) = vd_about v"
  "vd_failed (starve_floor now s fl acks v) \<longleftrightarrow> vd_failed v \<or> st_execs s < fl \<and> map_of acks (st_target s) = None"
  "vd_failed (starve_floor now s fl acks v) \<Longrightarrow> vd_detail v \<noteq> [] \<or> \<not> vd_failed v \<Longrightarrow> vd_detail (starve_floor now s fl acks v) \<noteq> []"
  by (auto simp: starve_floor_def split: option.splits)

interpretation starvation_gate: gate "\<lambda>(now, s, fl, acks). Starvation now s fl acks" "''starvation''" Harness
  by unfold_locales (auto simp: Starvation_def Let_def split: if_splits)

interpretation slow_units_gate: gate "\<lambda>(s, dir). SlowUnitsIn s dir" "''slow-units''" Harness
  by unfold_locales (auto simp: SlowUnitsIn_def Let_def split: if_splits)

interpretation round_gate: gate "\<lambda>(swept, built). RoundComplete swept built" "''round-complete''" Harness
  by unfold_locales (auto simp: RoundComplete_def Let_def split: if_splits)

interpretation final_stats_gate: gate "\<lambda>(ss, m). FinalStats ss m" "''final-stats''" Harness
  by unfold_locales (auto simp: FinalStats_def Let_def split: if_splits)

text \<open>The keys of the offending sites, in the order they are met, each once.\<close>

definition offends :: "string \<Rightarrow> accepted list \<Rightarrow> ub_site \<Rightarrow> bool" where
  "offends ws acc u \<longleftrightarrow> ub_function u = [] \<or> \<not> inScope acc (ub_function u) ws"

definition site_key :: "ub_site \<Rightarrow> string" where
  "site_key u = (if ub_function u = [] then ub_file u @ '':'' @ itoa (ub_line u) else ub_function u)"

lemma ubsan_site_step:
  "ubsan_site ws acc u (seen, v) =
     (if offends ws acc u \<and> site_key u \<notin> seen
      then (insert (site_key u) seen, snd (ubsan_site ws acc u (seen, v))) else (seen, v))"
  by (simp add: ubsan_site_def offends_def site_key_def Let_def)

lemma ubsan_site_verdict:
  "offends ws acc u \<and> site_key u \<notin> seen \<Longrightarrow>
     vd_failed (snd (ubsan_site ws acc u (seen, v))) \<and>
     length (vd_detail (snd (ubsan_site ws acc u (seen, v)))) = Suc (length (vd_detail v)) \<and>
     vd_name (snd (ubsan_site ws acc u (seen, v))) = vd_name v \<and> vd_about (snd (ubsan_site ws acc u (seen, v))) = vd_about v"
  by (auto simp: ubsan_site_def offends_def site_key_def Let_def split: if_splits)

lemma ubsan_run:
  fixes ws :: string and acc :: "accepted list"
  assumes "finite seen"
  defines "r \<equiv> \<lambda>us seen v. fold (ubsan_site ws acc) us (seen, v)"
  shows "fst (r us seen v) = seen \<union> site_key ` {u \<in> set us. offends ws acc u} \<and>
    (vd_failed (snd (r us seen v)) \<longleftrightarrow> vd_failed v \<or> \<not> site_key ` {u \<in> set us. offends ws acc u} \<subseteq> seen) \<and>
    length (vd_detail (snd (r us seen v))) = length (vd_detail v) + card (site_key ` {u \<in> set us. offends ws acc u} - seen) \<and>
    vd_name (snd (r us seen v)) = vd_name v \<and> vd_about (snd (r us seen v)) = vd_about v"
  using assms(1)
proof (induction us arbitrary: seen v)
  case (Cons u us)
  let ?K = "\<lambda>us. site_key ` {u \<in> set us. offends ws acc u}"
  show ?case
  proof (cases "offends ws acc u \<and> site_key u \<notin> seen")
    case True
    let ?v = "snd (ubsan_site ws acc u (seen, v))"
    have step: "r (u # us) seen v = r us (insert (site_key u) seen) ?v"
      using ubsan_site_step [of ws acc u seen v] True by (simp add: r_def)
    have K: "?K (u # us) = insert (site_key u) (?K us)" using True by auto
    have "?K (u # us) - seen = insert (site_key u) (?K us - insert (site_key u) seen)" using K True by auto
    then have "card (?K (u # us) - seen) = Suc (card (?K us - insert (site_key u) seen))" by simp
    with Cons.IH [of "insert (site_key u) seen" ?v] Cons.prems ubsan_site_verdict [OF True, of v] K True step
    show ?thesis by auto
  next
    case False
    then have step: "r (u # us) seen v = r us seen v"
      using ubsan_site_step [of ws acc u seen v] by (auto simp: r_def)
    have "offends ws acc u \<longrightarrow> site_key u \<in> seen" using False by blast
    then have "seen \<union> ?K (u # us) = seen \<union> ?K us" "(?K (u # us) \<subseteq> seen) = (?K us \<subseteq> seen)"
      "?K (u # us) - seen = ?K us - seen" by auto
    then show ?thesis using Cons.IH [OF Cons.prems, of v] by (simp only: step)
  qed
qed (simp add: r_def)

lemma ubsan_facts:
  "vd_failed (UBSan s ws acc) \<longleftrightarrow> (\<exists>u \<in> set (st_ub s). offends ws acc u)"
  "length (vd_detail (UBSan s ws acc)) = card (site_key ` {u \<in> set (st_ub s). offends ws acc u})"
  "vd_name (UBSan s ws acc) = ''ubsan''" "vd_about (UBSan s ws acc) = Finding"
  using ubsan_run [of "{}" ws acc "st_ub s" "new_verdict ''ubsan'' Finding"]
  by (auto simp: UBSan_def)

interpretation ubsan_gate: gate "\<lambda>(s, ws, acc). UBSan s ws acc" "''ubsan''" Finding
proof unfold_locales
  fix i :: "stats \<times> string \<times> accepted list"
  obtain s ws acc where i: "i = (s, ws, acc)" by (cases i)
  show "vd_failed (case i of (s, ws, acc) \<Rightarrow> UBSan s ws acc) \<Longrightarrow> vd_detail (case i of (s, ws, acc) \<Rightarrow> UBSan s ws acc) \<noteq> []"
    using ubsan_facts(1,2) [of s ws acc] by (auto simp: i card_gt_0_iff [symmetric] simp del: card_gt_0_iff)
qed (auto simp: ubsan_facts)

subsection \<open>properties\<close>

text \<open>A slice of the round: a run log read under the name of its target.\<close>

definition slice :: "string \<times> string \<Rightarrow> stats" where
  "slice = (\<lambda>(t, log). (parse log)\<lparr>st_target := t\<rparr>)"

lemma slice_nonneg: "0 \<le> st_execs (slice l)" "0 \<le> st_done (slice l)"
proof -
  obtain t log where l: "l = (t, log)" by (cases l)
  have "counters_ok (scan_log (scan_lines log))" by (rule counters_ok_scan)
  then show "0 \<le> st_execs (slice l)" "0 \<le> st_done (slice l)"
    by (auto simp: l slice_def parse_def finish_execs counters_ok_def Let_def)
qed

text \<open>
  when a parsed slice starves. It fails when its log has no count at all, when it is below the floor
  without an acknowledgement, when libFuzzer aborted, or when it only replayed its corpus; an
  acknowledgement lifts the floor and nothing else. The branch for a target that died before
  libFuzzer started never decides, because a log with a count has always fuzzed.
\<close>

theorem starvation_fails_iff:
  "vd_failed (Starvation now (slice l) fl acks) \<longleftrightarrow>
     st_execs (slice l) = 0 \<and> st_done (slice l) = 0 \<or>
     st_execs (slice l) < fl \<and> map_of acks (fst l) = None \<or> st_aborted (slice l) \<or> replay_only (slice l)"
proof -
  have t: "st_target (slice l) = fst l" by (simp add: slice_def split: prod.split)
  have "startup_of (slice l) \<noteq> Died" if "\<not> (st_execs (slice l) = 0 \<and> st_done (slice l) = 0)"
    using that slice_nonneg [of l] by (auto simp: startup_of_def)
  then show ?thesis by (auto simp: Starvation_def Let_def t)
qed

text \<open>
  the undefined-behaviour gate. It fails exactly when some site of the log has no function name or
  a function that no accept-list row covers in this workspace, and it reports every such function,
  or file and line where there is no name, exactly once however often it fired.
\<close>

theorem ubsan_reports_each_once:
  "(vd_failed (UBSan s ws acc) \<longleftrightarrow>
      (\<exists>u. u \<in> set (st_ub s) \<and> (ub_function u = [] \<or> \<not> inScope acc (ub_function u) ws))) \<and>
   length (vd_detail (UBSan s ws acc)) = card (site_key ` {u \<in> set (st_ub s). offends ws acc u})"
  using ubsan_facts(1,2) [of s ws acc] by (auto simp: offends_def)

definition f_site :: "int \<Rightarrow> ub_site" where
  "f_site n = \<lparr>ub_function = ''f'', ub_file = ''a.c'', ub_line = n, ub_class = [], ub_text = []\<rparr>"

definition fired_twice :: stats where
  "fired_twice = empty_stats\<lparr>st_ub := [f_site 1, f_site 2]\<rparr>"

theorem ubsan_reports_each_once_witness:
  "vd_failed (UBSan fired_twice ''w'' []) \<and> length (vd_detail (UBSan fired_twice ''w'' [])) = 1"
proof -
  have ub: "set (st_ub fired_twice) = {f_site 1, f_site 2}" by (simp add: fired_twice_def)
  have f: "ub_function (f_site n) = ''f''" for n by (simp add: f_site_def)
  have out: "\<not> inScope [] ''f'' ''w''" by code_simp
  then have "offends ''w'' [] (f_site n)" for n by (simp add: offends_def f)
  then have "{u \<in> set (st_ub fired_twice). offends ''w'' [] u} = {f_site 1, f_site 2}" unfolding ub by blast
  then have k: "site_key ` {u \<in> set (st_ub fired_twice). offends ''w'' [] u} = {''f''}" by (simp add: site_key_def f)
  have "f_site 1 \<in> set (st_ub fired_twice)" "\<not> inScope [] (ub_function (f_site 1)) ''w''" unfolding ub f using out by simp_all
  with ubsan_reports_each_once [of fired_twice "''w''" "[]"] show ?thesis unfolding k by auto
qed

lemma round_complete_failed: "vd_failed (RoundComplete swept built) \<longleftrightarrow> \<not> set built \<subseteq> set swept"
  by (auto simp: RoundComplete_def Let_def filter_empty_conv)

lemma final_stats_failed:
  "vd_failed (FinalStats ss m) \<longleftrightarrow>
     ss \<noteq> [] \<and> quot (int (length (filter (\<lambda>s. \<not> silent_slice s) ss)) * 100) (int (length ss)) < m"
proof -
  have n: "int (length (filter (\<lambda>s. \<not> silent_slice s) ss)) = int (length ss) - int (length (filter silent_slice ss))"
    using sum_length_filter_compl [of silent_slice ss] by simp
  show ?thesis unfolding n by (auto simp: FinalStats_def Let_def)
qed

lemma slow_units_failed: "vd_failed (SlowUnitsIn s dir) \<longleftrightarrow> slow_limit s dir < st_slowest_unit s"
  by (simp add: SlowUnitsIn_def Let_def)

text \<open>What has to hold for the harness to be trusted, and for the fuzzer to have found nothing new.\<close>

definition harness_sound :: "int \<Rightarrow> string gomap \<Rightarrow> (string \<Rightarrow> string option) option \<Rightarrow> int \<Rightarrow> string list \<Rightarrow>
    (string \<times> string) list \<Rightarrow> bool" where
  "harness_sound fl acks dir m built ls \<longleftrightarrow>
     (\<forall>l \<in> set ls. (st_execs (slice l) \<noteq> 0 \<or> st_done (slice l) \<noteq> 0) \<and>
        (fl \<le> st_execs (slice l) \<or> map_of acks (fst l) \<noteq> None) \<and> \<not> st_aborted (slice l) \<and> \<not> replay_only (slice l) \<and>
        st_slowest_unit (slice l) \<le> slow_limit (slice l) dir) \<and>
     (ls \<noteq> [] \<longrightarrow> m \<le> quot (int (length (filter (\<lambda>l. \<not> silent_slice (slice l)) ls)) * 100) (int (length ls))) \<and>
     set built \<subseteq> fst ` set ls"

definition nothing_new :: "string \<Rightarrow> accepted list \<Rightarrow> (string \<times> string) list \<Rightarrow> bool" where
  "nothing_new ws acc ls \<longleftrightarrow>
     (\<forall>l \<in> set ls. \<forall>u \<in> set (st_ub (slice l)). ub_function u \<noteq> [] \<and> inScope acc (ub_function u) ws)"

lemma gate_exit_iff:
  "gate_exit vs = (if \<forall>v \<in> set vs. vd_failed v \<longrightarrow> vd_about v = Finding
     then if \<forall>v \<in> set vs. \<not> vd_failed v then 0 else 3 else 1)"
proof -
  have "(filter (\<lambda>v. vd_about v \<noteq> Finding) (noted vs) = []) = (\<forall>v \<in> set vs. vd_failed v \<longrightarrow> vd_about v = Finding)"
    by (auto simp: noted_def filter_empty_conv)
  moreover have "(\<forall>v \<in> set vs. vd_failed v \<longrightarrow> vd_about v = Finding) \<Longrightarrow>
      (filter (\<lambda>v. vd_about v = Finding) (noted vs) = []) = (\<forall>v \<in> set vs. \<not> vd_failed v)"
    by (auto simp: noted_def filter_empty_conv)
  ultimately show ?thesis by (simp add: gate_exit_def Let_def)
qed

lemma gate_abouts [simp]:
  "vd_about (Starvation now s fl acks) = Harness" "vd_about (SlowUnitsIn s dir) = Harness"
  "vd_about (RoundComplete sw bu) = Harness" "vd_about (FinalStats ss m) = Harness" "vd_about (UBSan s ws acc) = Finding"
  using starvation_gate.subject [of "(now, s, fl, acks)"] slow_units_gate.subject [of "(s, dir)"]
    round_gate.subject [of "(sw, bu)"] final_stats_gate.subject [of "(ss, m)"] ubsan_gate.subject [of "(s, ws, acc)"]
  by simp_all

lemma slice_target [simp]: "st_target (slice l) = fst l"
  by (simp add: slice_def split: prod.split)

lemma starvation_passes:
  "\<not> vd_failed (Starvation now (slice l) fl acks) \<longleftrightarrow>
     (st_execs (slice l) \<noteq> 0 \<or> st_done (slice l) \<noteq> 0) \<and>
     (fl \<le> st_execs (slice l) \<or> map_of acks (fst l) \<noteq> None) \<and> \<not> st_aborted (slice l) \<and> \<not> replay_only (slice l)"
proof -
  have "startup_of (slice l) \<noteq> Died" if "\<not> (st_execs (slice l) = 0 \<and> st_done (slice l) = 0)"
    using that slice_nonneg [of l] by (auto simp: startup_of_def)
  then show ?thesis by (auto simp: Starvation_def Let_def)
qed

lemma round_harness:
  "(\<forall>v \<in> set (round_verdicts now fl acks dir ws acc m built (map slice ls)). vd_failed v \<longrightarrow> vd_about v = Finding)
     \<longleftrightarrow> harness_sound fl acks dir m built ls"
proof -
  have "(ls \<noteq> [] \<longrightarrow> m \<le> quot (int (length (filter (\<lambda>l. \<not> silent_slice (slice l)) ls)) * 100) (int (length ls)))
      \<longleftrightarrow> \<not> vd_failed (FinalStats (map slice ls) m)"
    by (auto simp: final_stats_failed filter_map comp_def)
  moreover have "set built \<subseteq> fst ` set ls \<longleftrightarrow> \<not> vd_failed (RoundComplete (remdups (map st_target (map slice ls))) built)"
    by (simp add: round_complete_failed comp_def)
  ultimately show ?thesis
    unfolding harness_sound_def round_verdicts_def slice_verdicts_def starvation_passes [symmetric, of _ now]
    using starvation_passes [of now _ fl acks] by (auto simp: slow_units_failed not_le)
qed

lemma gate_exit_round:
  "gate_exit (round_verdicts now fl acks dir ws acc m built (map slice ls)) =
     (if harness_sound fl acks dir m built ls then if nothing_new ws acc ls then 0 else 3 else 1)"
proof -
  let ?vs = "round_verdicts now fl acks dir ws acc m built (map slice ls)"
  have "(\<forall>v \<in> set ?vs. \<not> vd_failed v) \<longleftrightarrow> nothing_new ws acc ls" if h: "harness_sound fl acks dir m built ls"
  proof -
    have "\<forall>v \<in> set ?vs. vd_failed v \<longrightarrow> vd_about v = Finding" using h round_harness by blast
    then have "(\<forall>v \<in> set ?vs. \<not> vd_failed v) \<longleftrightarrow> (\<forall>l \<in> set ls. \<not> vd_failed (UBSan (slice l) ws acc))"
      by (fastforce simp: round_verdicts_def slice_verdicts_def)
    also have "\<dots> \<longleftrightarrow> nothing_new ws acc ls"
      by (auto simp: nothing_new_def ubsan_facts offends_def)
    finally show ?thesis .
  qed
  then show ?thesis unfolding gate_exit_iff round_harness by simp
qed

text \<open>
  C4: what the exit code of the gate command means. 1 exactly when the harness cannot be trusted: some
  slice starved, aborted, only replayed or outran its timeout, too few slices reported, or a built
  target was not swept. Otherwise 3 exactly when some undefined-behaviour site is unnamed or not
  accepted here, and 0 when there is nothing new: a finding alone never looks like a broken run.
\<close>

theorem gate_exit_meaning:
  "gate_exit (round_verdicts now fl acks dir ws acc m built (map slice ls)) =
     (if harness_sound fl acks dir m built ls then if nothing_new ws acc ls then 0 else 3 else 1)"
  by (rule gate_exit_round)

subsection \<open>withdrawing a row\<close>

lemma streak_back_takeWhile: "streak_back t rs = int (length (takeWhile (\<lambda>r. t \<notin> set (ur_sites r)) rs))"
  by (induction rs) (auto simp: list_ex_iff)

lemma streak_two:
  "2 \<le> length (takeWhile P xs) \<longleftrightarrow> (\<exists>x y zs. xs = x # y # zs \<and> P x \<and> P y)"
proof (cases xs)
  case (Cons x ys)
  then show ?thesis by (cases ys) auto
qed simp

lemma detail_kinds:
  "withdrawable_line t = withdrawable_line t' \<longleftrightarrow> t = t'"
  "withdrawable_line t \<noteq> alarm_line n" "withdrawable_line t \<notin> set (quiet_line series ws t')"
  by (auto simp: withdrawable_line_def alarm_line_def quiet_line_def Let_def)

text \<open>
  when an accept-list row is offered for removal. A row is called withdrawable exactly when it did not
  fire in this round nor in the two latest informative rounds of the workspace, unless the whole
  list, of more than one row, went quiet at once, which is reported as detection being off.
\<close>

theorem withdrawable_iff:
  "withdrawable_line t \<in> set (vd_detail (UBSanWithdrawals series ws acc seen)) \<longleftrightarrow>
     t \<in> set acc \<and> t \<notin> set seen \<and> (length acc = 1 \<or> (\<exists>a. a \<in> set acc \<and> a \<in> set seen)) \<and>
     (\<exists>r1 r2 rs. rev (filter (\<lambda>r. ur_ws r = ws \<and> ur_informative r) series) = r1 # r2 # rs \<and>
        t \<notin> set (ur_sites r1) \<and> t \<notin> set (ur_sites r2))"
proof -
  let ?rs = "rev (filter (\<lambda>r. ur_ws r = ws \<and> ur_informative r) series)"
  have streak: "WithdrawRounds \<le> AbsentStreak series ws t + 1 \<longleftrightarrow>
      (\<exists>r1 r2 rs. ?rs = r1 # r2 # rs \<and> t \<notin> set (ur_sites r1) \<and> t \<notin> set (ur_sites r2))"
    unfolding AbsentStreak_def streak_back_takeWhile streak_two [symmetric] WithdrawRounds_def by linarith
  have quiet: "length (quiet_rows acc seen) = length acc \<longleftrightarrow> \<not> (\<exists>a. a \<in> set acc \<and> a \<in> set seen)"
    unfolding quiet_rows_def using length_filter_less [of _ acc "\<lambda>t. t \<notin> set seen"]
    by (metis (mono_tags, lifting) filter_True less_irrefl)
  have one: "acc \<noteq> [] \<Longrightarrow> \<not> 1 < length acc \<longleftrightarrow> length acc = 1" by (cases acc) auto
  show ?thesis
  proof (cases "acc = [] \<or> 1 < length acc \<and> length (quiet_rows acc seen) = length acc")
    case True
    then show ?thesis using quiet by (auto simp: UBSanWithdrawals_def Let_def detail_kinds)
  next
    case False
    then have "vd_detail (UBSanWithdrawals series ws acc seen) =
        map withdrawable_line (sort (withdrawable_rows series ws acc seen)) @
        concat (map (quiet_line series ws) (sort (quiet_rows acc seen)))"
      by (auto simp: UBSanWithdrawals_def Let_def)
    then have "withdrawable_line t \<in> set (vd_detail (UBSanWithdrawals series ws acc seen)) \<longleftrightarrow>
        t \<in> set (withdrawable_rows series ws acc seen)"
      by (auto simp: detail_kinds)
    also have "\<dots> \<longleftrightarrow> t \<in> set acc \<and> t \<notin> set seen \<and> WithdrawRounds \<le> AbsentStreak series ws t + 1"
      by (auto simp: withdrawable_rows_def quiet_rows_def)
    also have "\<dots> \<longleftrightarrow> t \<in> set acc \<and> t \<notin> set seen \<and> (length acc = 1 \<or> (\<exists>a. a \<in> set acc \<and> a \<in> set seen)) \<and>
        WithdrawRounds \<le> AbsentStreak series ws t + 1"
      using False quiet one by blast
    finally show ?thesis unfolding streak .
  qed
qed

text \<open>
  The current round counts without having been informative: with a single accepted row, a round that
  observed nothing at all completes the three rounds.
\<close>

lemma silent_round_counts:
  "withdrawable_line ''f'' \<in> set (vd_detail (UBSanWithdrawals
     [\<lparr>ur_ws = ''w'', ur_log = [], ur_informative = True, ur_sites = [''g'']\<rparr>,
      \<lparr>ur_ws = ''w'', ur_log = [], ur_informative = True, ur_sites = [''g'']\<rparr>] ''w'' [''f''] []))"
  by code_simp

subsection \<open>the accept-list on disk\<close>

definition accepted_line :: "accepted \<Rightarrow> string" where
  "accepted_line a = join [tab] [ac_function a, join '','' (ac_scope a), ac_site a, ac_class a]"

definition trimmed :: "string \<Rightarrow> bool" where
  "trimmed s \<longleftrightarrow> trim_space s = s \<and> set s \<inter> {tab, newline, CHR 0x0D} = {}"

definition clean_row :: "accepted \<Rightarrow> bool" where
  "clean_row a \<longleftrightarrow> trimmed (ac_function a) \<and> trimmed (ac_site a) \<and> trimmed (ac_class a) \<and>
     trimmed (join '','' (ac_scope a)) \<and> ac_function a \<noteq> [] \<and> hd (ac_function a) \<noteq> CHR ''#'' \<and>
     ac_scope a \<noteq> [] \<and> list_all (\<lambda>g. CHR '','' \<notin> set g) (ac_scope a)"

lemma trim_space_keeps_hd:
  assumes "trim_space w = w" and "w \<noteq> []"
  shows "\<exists>rest. trim_space (w @ s) = hd w # rest"
proof -
  have h: "\<not> is_space (hd w)" using trim_by_trimmed [of is_space w] assms by auto
  then have d: "dropWhile is_space (w @ s) = w @ s" using assms(2) by (cases w) auto
  let ?t = "trim_space (w @ s)"
  have "?t \<noteq> []"
  proof
    assume "?t = []"
    then have "\<forall>c \<in> set (rev (w @ s)). is_space c" unfolding trim_by_def d by (simp only: rev_is_Nil_conv dropWhile_eq_Nil_conv)
    then have "\<forall>c \<in> set (w @ s). is_space c" by auto
    then show False using h assms(2) by (cases w) auto
  qed
  then have "hd ?t = hd (w @ s)" unfolding trim_by_def d by (rule dropWhile_rev_keeps_hd)
  with \<open>?t \<noteq> []\<close> show ?thesis using assms(2) by (cases ?t) auto
qed

lemma accepted_row_line: "clean_row a \<Longrightarrow> accepted_row (accepted_line a) = Some a"
proof -
  assume c: "clean_row a"
  then have ne: "ac_function a \<noteq> []" "trim_space (ac_function a) = ac_function a" by (auto simp: clean_row_def trimmed_def)
  obtain rest where t: "trim_space (accepted_line a) = hd (ac_function a) # rest"
    using trim_space_keeps_hd [OF ne(2,1)] by (auto simp: accepted_line_def)
  have "split_at tab (accepted_line a) = [ac_function a, join '','' (ac_scope a), ac_site a, ac_class a]"
    unfolding accepted_line_def using c by (intro split_at_join) (auto simp: clean_row_def trimmed_def)
  moreover have "split_at CHR '','' (join '','' (ac_scope a)) = ac_scope a"
    using c by (intro split_at_join) (auto simp: clean_row_def list_all_iff)
  ultimately show ?thesis
    using c t by (auto simp: accepted_row_def clean_row_def trimmed_def)
qed

text \<open>
  The accept-list survives its file. Rows whose fields are trimmed and free of tabs and line ends, written
  one per line below any comment and blank lines, are read back unchanged and in order.
\<close>

theorem accept_list_roundtrip:
  assumes "list_all clean_row rows"
    and "list_all (\<lambda>n. set n \<inter> {newline, CHR 0x0D} = {} \<and> (trim_space n = [] \<or> has_prefix (trim_space n) ''#'')) remarks"
  shows "LoadAccepted (unlines (remarks @ map accepted_line rows)) = rows"
proof -
  have row: "set (accepted_line a) \<inter> {newline, CHR 0x0D} = {}" if "clean_row a" for a
    using that by (auto simp: accepted_line_def clean_row_def trimmed_def)
  have skip: "List.map_filter accepted_row remarks = []"
    using assms(2) by (induction remarks) (auto simp: accepted_row_def List.map_filter_simps)
  have "List.map_filter accepted_row (map accepted_line rows) = rows"
    using assms(1) by (induction rows) (simp_all add: accepted_row_line List.map_filter_simps)
  moreover have "scan_lines (unlines (remarks @ map accepted_line rows)) =
      remarks @ map accepted_line rows"
    using assms row by (intro scan_lines_unlines) (auto simp: list_all_iff)
  ultimately show ?thesis using skip by (simp add: LoadAccepted_def map_filter_append)
qed

definition sample_row :: accepted where
  "sample_row = \<lparr>ac_function = ''tm2timestamp'', ac_scope = [''pg16*'', ''pg17-11''], ac_site = ''timestamp.c'',
     ac_class = ''signed-overflow''\<rparr>"

text \<open>The two readings of a row without a scope: it counts as applying everywhere, and it accepts nowhere.\<close>

lemma blank_scope_disagrees:
  assumes "accepted_row line = Some a" and "ac_scope a = [[]]" and "ws \<noteq> []"
  shows "InScope a ws \<and> \<not> inScope [a] (ac_function a) ws"
  using assms by (simp add: InScope_def inScope_def in_scope_row_def matchGlob_def)

text \<open>With a scope in every row the two agree.\<close>

lemma scopes_agree:
  "ac_scope a \<noteq> [] \<Longrightarrow> [] \<notin> set (ac_scope a) \<Longrightarrow> in_scope_row a ws = InScope a ws"
  by (auto simp: in_scope_row_def InScope_def list_ex_iff)

text \<open>
  The round's own file reader cuts a file into lines like the scanner does, without its treatment of
  carriage returns.
\<close>

lemma splitLines_split_at:
  "splitLines b = (let ls = split_at newline b in if last ls = [] then butlast ls else ls)"
proof -
  have "split_lines_from acc b =
      (let ls = (acc @ hd (split_at newline b)) # tl (split_at newline b) in if last ls = [] then butlast ls else ls)" for acc
  proof (induction b arbitrary: acc)
    case (Cons c b)
    show ?case
    proof (cases "c = newline")
      case True
      then show ?thesis using Cons.IH [of "[]"] by (cases "split_at newline b") (auto simp: Let_def)
    next
      case False
      then show ?thesis using Cons.IH [of "acc @ [c]"] by (cases "split_at newline b") (auto simp: Let_def)
    qed
  qed (auto simp: Let_def)
  from this [of "[]"] show ?thesis by (simp add: splitLines_def Let_def)
qed

end
