(* ===== verification/Expect.thy ===== *)
theory Expect
  imports Gate
begin

text \<open>
  The positive control (\<open>internal/expect/expect.go\<close>): the findings the harness must still produce, read
  from a file in the accept-list's format, and judged against what a run saw and what the census
  reported. Here absence is the failure.
\<close>

record want =
  wa_function :: string
  wa_scope :: "string list"
  wa_file :: string
  wa_class :: string
  wa_ref :: string
  wa_added :: string

record result =
  re_want :: want
  re_found :: bool
  re_reported :: bool

definition want_row :: "string \<Rightarrow> want option" where
  "want_row raw =
     (let line = trim_space raw in
      if line = [] \<or> has_prefix line ''#'' then None
      else let c = split_at tab line in
        if length c < 4 then None
        else Some \<lparr>wa_function = trim_space (c ! 0), wa_scope = split_at CHR '','' (trim_space (c ! 1)),
                    wa_file = trim_space (c ! 2), wa_class = trim_space (c ! 3),
                    wa_ref = (if length c > 4 then trim_space (c ! 4) else []),
                    wa_added = (if length c > 5 then trim_space (c ! 5) else [])\<rparr>)"

definition Load :: "string \<Rightarrow> want list" where
  "Load text = List.map_filter want_row (scan_lines text)"

definition want_in_scope :: "want \<Rightarrow> string \<Rightarrow> bool" where
  "want_in_scope w ws = InScope \<lparr>ac_function = [], ac_scope = wa_scope w, ac_site = [], ac_class = []\<rparr> ws"

definition OK :: "result \<Rightarrow> bool" where
  "OK r \<longleftrightarrow> re_found r \<and> re_reported r"

definition Check :: "want list \<Rightarrow> string \<Rightarrow> string set \<Rightarrow> string set \<Rightarrow> result list" where
  "Check wants ws seen reported =
     map (\<lambda>w. \<lparr>re_want = w, re_found = (wa_function w \<in> seen), re_reported = (wa_file w \<in> reported)\<rparr>)
       (filter (\<lambda>w. want_in_scope w ws) wants)"

definition Missing :: "result list \<Rightarrow> nat" where
  "Missing rs = length (filter (\<lambda>r. \<not> OK r) rs)"

lemma missing_filter:
  "Missing (Check wants ws seen reported) =
     length (filter (\<lambda>w. want_in_scope w ws \<and> \<not> (wa_function w \<in> seen \<and> wa_file w \<in> reported)) wants)"
  by (induction wants) (auto simp: Missing_def Check_def OK_def)

text \<open>
  C40: the control only passes on evidence. No row is missing exactly when every row in scope was both seen
  and reported; seeing or reporting less never lowers the number of missing rows; and a run that
  saw nothing misses every row in scope.
\<close>

theorem control_needs_evidence:
  "(Missing (Check wants ws seen reported) = 0 \<longleftrightarrow>
      (\<forall>w. w \<in> set wants \<and> want_in_scope w ws \<longrightarrow> wa_function w \<in> seen \<and> wa_file w \<in> reported)) \<and>
   (seen' \<subseteq> seen \<and> reported' \<subseteq> reported \<longrightarrow>
      Missing (Check wants ws seen reported) \<le> Missing (Check wants ws seen' reported')) \<and>
   Missing (Check wants ws {} reported) = length (filter (\<lambda>w. want_in_scope w ws) wants)"
proof (intro conjI impI)
  show "(Missing (Check wants ws seen reported) = 0) =
      (\<forall>w. w \<in> set wants \<and> want_in_scope w ws \<longrightarrow> wa_function w \<in> seen \<and> wa_file w \<in> reported)"
    by (auto simp: missing_filter filter_empty_conv)
next
  assume "seen' \<subseteq> seen \<and> reported' \<subseteq> reported"
  then show "Missing (Check wants ws seen reported) \<le> Missing (Check wants ws seen' reported')"
    unfolding missing_filter by (induction wants) auto
next
  show "Missing (Check wants ws {} reported) = length (filter (\<lambda>w. want_in_scope w ws) wants)"
    by (simp add: missing_filter)
qed

text \<open>The row every master workspace must reproduce, and a run that saw it but did not report it.\<close>

definition sample_want :: want where
  "sample_want = \<lparr>wa_function = ''f'', wa_scope = [''pg*''], wa_file = ''f.c'', wa_class = ''shift'', wa_ref = [], wa_added = []\<rparr>"

theorem control_needs_evidence_witness:
  "Missing (Check [sample_want] ''pg16-11'' {''f''} {''f.c''}) = 0 \<and>
   Missing (Check [sample_want] ''pg16-11'' {''f''} {''f.c''}) \<le> Missing (Check [sample_want] ''pg16-11'' {''f''} {}) \<and>
   Missing (Check [sample_want] ''pg16-11'' {} {''f.c''}) = 1"
proof -
  have s: "want_in_scope sample_want ''pg16-11''" by code_simp
  show ?thesis
    using control_needs_evidence [of "[sample_want]" "''pg16-11''" "{''f''}" "{''f.c''}" "{''f''}" "{}"] s
    by (simp add: sample_want_def)
qed

end
