(* ===== verification/Plateau.thy ===== *)
theory Plateau
  imports Line_Machine Go_Time
begin

text \<open>
  Convergence on a time axis (\<open>internal/plateau/plateau.go\<close>, \<open>watch.go\<close>): the relative growth of a
  series against a sliding window, the incremental reader of growing logs, the coverage scanner, and
  the watch, a machine over samples that stops on a plateau, on its time limit or when interrupted.
  Times and durations are nanoseconds. What a sample sees of the disk (directory listings, log bytes
  with their inode, decoded ledger rows) is the environment of the tick.
\<close>

subsection \<open>growth\<close>

record sample =
  sa_at :: int
  sa_v :: int

fun window_base :: "sample list \<Rightarrow> int \<Rightarrow> int \<Rightarrow> int option \<Rightarrow> int option" where
  "window_base [] w now old = old"
| "window_base (s # ss) w now old =
     (if now - sa_at s \<ge> w then window_base ss w now (Some (sa_v s)) else old)"

definition growth :: "sample list \<Rightarrow> int \<Rightarrow> int \<Rightarrow> f64 option" where
  "growth series w now =
     (case window_base series w now None of
        None \<Rightarrow> None
      | Some old \<Rightarrow>
          if old = 0 then None
          else Some (f64_mul (f64_div (f64_of_int (sa_v (last series) - old)) (f64_of_int old)) 100))"

definition flat :: "f64 option \<Rightarrow> f64 \<Rightarrow> bool" where
  "flat g margin = (case g of None \<Rightarrow> False | Some x \<Rightarrow> - margin < x \<and> x < margin)"

subsection \<open>coverage from log text\<close>

definition fuzzer_name :: re where
  "fuzzer_name = Seq (plus (Class (lower_digit_or ''_''))) (lit ''_fuzzer'')"

definition dashes :: re where "dashes = plus (Class (\<lambda>c. c = CHR ''-''))"

definition reBannerP :: re where
  "reBannerP = seqs [Bol, dashes, lit '' '', Group 1 fuzzer_name, lit '' '', dashes, Eol]"
definition reCovP :: re where
  "reCovP = seqs [WordB, lit ''cov: '', Group 1 digits]"
definition reSoak :: re where
  "reSoak = seqs [Bol, lit ''soak-'', Group 1 fuzzer_name, lit ''.log'', Eol]"

definition scan_cov_line :: "string \<Rightarrow> string \<times> int gomap \<Rightarrow> string \<times> int gomap" where
  "scan_cov_line raw = (\<lambda>(cur, cov).
     (let line = trim_space (strip raw) in
      case find_re reBannerP line of
        Some m \<Rightarrow> (grp m 1, cov)
      | None \<Rightarrow>
          if cur = [] \<or> \<not> contains line ''cov:'' then (cur, cov)
          else case find_re reCovP line of
                 Some m \<Rightarrow> if num_grp m 1 > num cov cur then (cur, AList.update cur (num_grp m 1) cov) else (cur, cov)
               | None \<Rightarrow> (cur, cov)))"

definition scan_cov :: "string \<Rightarrow> string \<Rightarrow> int gomap \<Rightarrow> string \<times> int gomap" where
  "scan_cov text cur cov = fold scan_cov_line (split_at newline text) (cur, cov)"

subsection \<open>the logs worth reading\<close>

text \<open>A directory entry: its name and, when \<open>Info\<close> succeeds, its modification time.\<close>

record log_entry =
  le_name :: string
  le_mtime :: "int option"

record live_log =
  ll_name :: string
  ll_target :: string

definition soak_logs :: "log_entry list \<Rightarrow> live_log list" where
  "soak_logs ents = concat (map (\<lambda>e. case find_re reSoak (le_name e) of
     Some m \<Rightarrow> [\<lparr>ll_name = le_name e, ll_target = grp m 1\<rparr>] | None \<Rightarrow> []) ents)"

definition newer :: "string \<Rightarrow> log_entry \<Rightarrow> (string \<times> int) option \<Rightarrow> (string \<times> int) option" where
  "newer pat e best =
     (if \<not> has_prefix (le_name e) pat \<or> \<not> has_suffix (le_name e) ''.log'' then best
      else case le_mtime e of
             None \<Rightarrow> best
           | Some t \<Rightarrow> (case best of
                          None \<Rightarrow> Some (le_name e, t)
                        | Some (n, bt) \<Rightarrow> if t > bt then Some (le_name e, t) else best))"

definition newest :: "log_entry list \<Rightarrow> string \<Rightarrow> live_log list" where
  "newest ents pat =
     (if pat = ''soak-'' then []
      else case fold (newer pat) ents None of
             None \<Rightarrow> [] | Some (n, _) \<Rightarrow> [\<lparr>ll_name = n, ll_target = []\<rparr>])"

definition live_logs :: "log_entry list option \<Rightarrow> string list \<Rightarrow> live_log list" where
  "live_logs dir patterns =
     (case dir of None \<Rightarrow> [] | Some ents \<Rightarrow> soak_logs ents @ concat (map (newest ents) patterns))"

subsection \<open>corpus size with capped files credited back\<close>

definition credited :: "(string \<times> int) list \<Rightarrow> string \<Rightarrow> int" where
  "credited ledger ws = fold (\<lambda>(w, removed) n. if w = ws then n + removed else n) ledger 0"

text \<open>An entry of the corpus directory: is it a directory, its name, how many files when readable.\<close>

record corpus_entry =
  ce_dir :: bool
  ce_name :: string
  ce_files :: "nat option"

definition corpus_count :: "corpus_entry list option \<Rightarrow> (string \<times> int) list \<Rightarrow> string \<Rightarrow> int" where
  "corpus_count dir ledger ws =
     (case dir of
        None \<Rightarrow> credited ledger ws
      | Some ents \<Rightarrow> fold (\<lambda>e n. if \<not> ce_dir e \<or> \<not> has_suffix (ce_name e) ''_fuzzer'' then n
                              else case ce_files e of None \<Rightarrow> n | Some k \<Rightarrow> n + int k)
                       ents (credited ledger ws))"

subsection \<open>the incremental reader\<close>

record tail_state =
  tl_ino :: nat
  tl_off :: nat
  tl_tail :: string

text \<open>A file as \<open>Stat\<close> and \<open>Open\<close> find it: inode and bytes.\<close>

type_synonym log_file = "nat \<times> string"

definition log_read :: "log_file option \<Rightarrow> string \<Rightarrow> tail_state gomap \<Rightarrow> string \<times> tail_state gomap" where
  "log_read f path state =
     (case f of
        None \<Rightarrow> ([], state)
      | Some (ino, content) \<Rightarrow>
          (let fresh = (case map_of state path of
                 None \<Rightarrow> True
               | Some e \<Rightarrow> tl_ino e \<noteq> ino \<or> length content < tl_off e);
               ent = (if fresh then \<lparr>tl_ino = ino, tl_off = 0, tl_tail = []\<rparr> else the (map_of state path));
               state1 = (if fresh then AList.update path ent state else state)
           in if length content = tl_off ent then ([], state1)
              else
                let buf = drop (tl_off ent) content;
                    lines = split_at newline (tl_tail ent @ buf)
                in (join [newline] (butlast lines),
                    AList.update path \<lparr>tl_ino = tl_ino ent, tl_off = tl_off ent + length buf, tl_tail = last lines\<rparr> state1)))"

subsection \<open>the watch\<close>

record options =
  op_window :: int
  op_corpus_margin :: f64
  op_cov_margin :: f64
  op_consecutive :: int
  op_patterns :: "string list"
  op_once :: bool
  op_max_hours :: f64

definition minutes :: "int \<Rightarrow> int" where "minutes n = n * 60 * 1000000000"

definition Defaults :: options where
  "Defaults = \<lparr>op_window = minutes 45, op_corpus_margin = 1, op_cov_margin = 1 / 2, op_consecutive = 2,
     op_patterns = [''sweep-round'', ''soak-''], op_once = False, op_max_hours = 0\<rparr>"

text \<open>What one sample sees: the clock, the disk, the time since the start, and whether it was cancelled.\<close>

record tick =
  ti_now :: int
  ti_dir :: "string \<Rightarrow> log_entry list option"
  ti_file :: "string \<Rightarrow> string \<Rightarrow> log_file option"
  ti_corpus :: "string \<Rightarrow> corpus_entry list option"
  ti_ledger :: "(string \<times> int) list"
  ti_since :: int
  ti_cancelled :: bool

record ws_state =
  ws_tails :: "tail_state gomap"
  ws_cov :: "int gomap"
  ws_cur :: string
  ws_corpus :: "sample list"
  ws_series :: "(sample list) gomap"

definition ws_start :: ws_state where
  "ws_start = \<lparr>ws_tails = [], ws_cov = [], ws_cur = [], ws_corpus = [], ws_series = []\<rparr>"

definition ws_of :: "ws_state gomap \<Rightarrow> string \<Rightarrow> ws_state" where
  "ws_of m ws = (case map_of m ws of None \<Rightarrow> ws_start | Some s \<Rightarrow> s)"

definition read_live :: "tick \<Rightarrow> string \<Rightarrow> live_log \<Rightarrow> ws_state \<Rightarrow> ws_state" where
  "read_live t ws lg s =
     (let (piece, tails) = log_read (ti_file t ws (ll_name lg)) (ll_name lg) (ws_tails s);
          s1 = s\<lparr>ws_tails := tails\<rparr>
      in if ll_target lg \<noteq> [] then s1\<lparr>ws_cov := snd (scan_cov piece (ll_target lg) (ws_cov s))\<rparr>
         else let (cur, cov) = scan_cov piece (ws_cur s) (ws_cov s) in s1\<lparr>ws_cur := cur, ws_cov := cov\<rparr>)"

definition observe :: "options \<Rightarrow> tick \<Rightarrow> string \<Rightarrow> ws_state \<Rightarrow> ws_state" where
  "observe opts t ws s =
     (let s1 = fold (read_live t ws) (live_logs (ti_dir t ws) (op_patterns opts)) s;
          s2 = s1\<lparr>ws_corpus := ws_corpus s1 @
                 [\<lparr>sa_at = ti_now t, sa_v = corpus_count (ti_corpus t ws) (ti_ledger t) ws\<rparr>]\<rparr>
      in s2\<lparr>ws_series := fold (\<lambda>(tg, v) m. AList.update tg (sub m tg @ [\<lparr>sa_at = ti_now t, sa_v = v\<rparr>]) m)
                            (ws_cov s2) (ws_series s2)\<rparr>)"

definition observe_all :: "options \<Rightarrow> tick \<Rightarrow> string list \<Rightarrow> ws_state gomap \<Rightarrow> ws_state gomap" where
  "observe_all opts t wss m = fold (\<lambda>ws m. AList.update ws (observe opts t ws (ws_of m ws)) m) wss m"

definition corpus_growth :: "options \<Rightarrow> int \<Rightarrow> ws_state \<Rightarrow> f64 option" where
  "corpus_growth opts now s = growth (ws_corpus s) (op_window opts) now"

definition cov_growth :: "options \<Rightarrow> int \<Rightarrow> ws_state \<Rightarrow> f64 option" where
  "cov_growth opts now s =
     fold (\<lambda>(_, series) best.
        (case growth series (op_window opts) now of
           None \<Rightarrow> best
         | Some g \<Rightarrow> (case best of None \<Rightarrow> Some g | Some b \<Rightarrow> if g > b then Some g else best)))
       (ws_series s) None"

definition ready :: "options \<Rightarrow> int \<Rightarrow> string list \<Rightarrow> ws_state gomap \<Rightarrow> bool" where
  "ready opts now wss m = list_all (\<lambda>ws. corpus_growth opts now (ws_of m ws) \<noteq> None) wss"

definition all_flat :: "options \<Rightarrow> int \<Rightarrow> string list \<Rightarrow> ws_state gomap \<Rightarrow> bool" where
  "all_flat opts now wss m =
     (let have_cov = list_ex (\<lambda>ws. cov_growth opts now (ws_of m ws) \<noteq> None) wss;
          corpus_flat = list_all (\<lambda>ws. flat (corpus_growth opts now (ws_of m ws)) (op_corpus_margin opts)) wss;
          cov_flat = list_all (\<lambda>ws. case cov_growth opts now (ws_of m ws) of
                        None \<Rightarrow> True | Some g \<Rightarrow> flat (Some g) (op_cov_margin opts)) wss
      in corpus_flat \<and> (if \<not> have_cov then True else cov_flat))"

definition next_flat :: "bool \<Rightarrow> bool \<Rightarrow> int \<Rightarrow> int" where
  "next_flat rdy fl n = (if rdy \<and> fl then n + 1 else if rdy then 0 else n)"

definition sample_once :: "options \<Rightarrow> string list \<Rightarrow> tick \<Rightarrow> ws_state gomap \<times> int \<Rightarrow> ws_state gomap \<times> int" where
  "sample_once opts wss t = (\<lambda>(m, n).
     (let m' = observe_all opts t wss m
      in (m', next_flat (ready opts (ti_now t) wss m') (all_flat opts (ti_now t) wss m') n)))"

datatype verdict = Sampled_once | Plateau_reached | Time_limit | Interrupted

fun exit_code :: "verdict \<Rightarrow> int" where
  "exit_code Sampled_once = 0" | "exit_code Plateau_reached = 0" | "exit_code Time_limit = 2" | "exit_code Interrupted = 2"

definition leave :: "options \<Rightarrow> tick \<Rightarrow> int \<Rightarrow> verdict option" where
  "leave opts t n =
     (if op_once opts then Some Sampled_once
      else if n \<ge> op_consecutive opts then Some Plateau_reached
      else if op_max_hours opts > 0 \<and> hours (ti_since t) > op_max_hours opts then Some Time_limit
      else if ti_cancelled t then Some Interrupted
      else None)"

text \<open>One entry of the list is one turn of the loop; \<open>None\<close> is a watch that is still running.\<close>

fun watch_from :: "options \<Rightarrow> string list \<Rightarrow> tick list \<Rightarrow> ws_state gomap \<times> int \<Rightarrow> verdict option" where
  "watch_from opts wss [] st = None"
| "watch_from opts wss (t # ts) st =
     (let st' = sample_once opts wss t st in
      case leave opts t (snd st') of Some v \<Rightarrow> Some v | None \<Rightarrow> watch_from opts wss ts st')"

definition Watch :: "options \<Rightarrow> string list \<Rightarrow> tick list \<Rightarrow> verdict option" where
  "Watch opts wss ts = watch_from opts wss ts ([], 0)"

subsection \<open>the window\<close>

lemma window_base_takeWhile:
  "window_base ss w now old =
     (case takeWhile (\<lambda>s. w \<le> now - sa_at s) ss of [] \<Rightarrow> old | xs \<Rightarrow> Some (sa_v (last xs)))"
  by (induction ss w now old rule: window_base.induct) (auto split: list.splits)

lemma takeWhile_sorted_filter:
  "sorted (map f xs) \<Longrightarrow> takeWhile (\<lambda>x. (f x :: int) \<le> b) xs = filter (\<lambda>x. f x \<le> b) xs"
proof (induction xs)
  case (Cons x xs)
  then show ?case by (auto simp: filter_empty_conv intro!: filter_False [symmetric])
qed simp

text \<open>
  What growth is measured against. In a series ordered by time the baseline is the newest sample that
  is at least one window old; while there is none, or its value is zero, growth is undefined
  rather than zero, so a watch that has just begun is never flat.
\<close>

theorem growth_baseline:
  assumes "sorted (map sa_at series)"
  shows "growth series w now =
    (case filter (\<lambda>s. w \<le> now - sa_at s) series of
       [] \<Rightarrow> None
     | old \<Rightarrow> if sa_v (last old) = 0 then None
             else Some (f64_mul (f64_div (f64_of_int (sa_v (last series) - sa_v (last old)))
                                         (f64_of_int (sa_v (last old)))) 100))"
proof -
  have "(\<lambda>s :: sample. w \<le> now - sa_at s) = (\<lambda>s. sa_at s \<le> now - w)" by (auto simp: fun_eq_iff)
  then have f: "takeWhile (\<lambda>s :: sample. w \<le> now - sa_at s) series = filter (\<lambda>s. w \<le> now - sa_at s) series"
    using takeWhile_sorted_filter [OF assms, of "now - w"] by (simp only:)
  show ?thesis unfolding growth_def window_base_takeWhile f by (simp split: list.split)
qed

subsection \<open>reading a log piece by piece\<close>

lemma split_at_extend: "split_at c (s @ t) = butlast (split_at c s) @ split_at c (last (split_at c s) @ t)"
proof -
  have "c \<notin> set (last (split_at c s))" using split_at_no_sep [of c s] by (metis last_in_set split_at_ne)
  then have "split_at c (last (split_at c s) @ t) = (last (split_at c s) @ hd (split_at c t)) # tl (split_at c t)"
    using split_at_snoc [of c "last (split_at c s)" t] by (simp add: split_at_free)
  then show ?thesis by (simp add: split_at_snoc)
qed

lemma scan_cov_line_Nil [simp]: "scan_cov_line [] st = st"
proof -
  have "find_re reBannerP [] = None" by code_simp
  then show ?thesis by (cases st) (simp add: scan_cov_line_def strip_plain trim_by_def)
qed

lemma scan_cov_join:
  "\<forall>l \<in> set ls. newline \<notin> set l \<Longrightarrow> scan_cov (join [newline] ls) cur cov = fold scan_cov_line ls (cur, cov)"
  by (cases "ls = []") (simp_all add: scan_cov_def split_at_join)

text \<open>What the reader holds for a path whose bytes so far are \<open>c\<close>.\<close>

definition caught_up :: "string \<Rightarrow> nat \<Rightarrow> string \<Rightarrow> tail_state gomap \<Rightarrow> bool" where
  "caught_up path ino c m \<longleftrightarrow>
     map_of m path = Some \<lparr>tl_ino = ino, tl_off = length c, tl_tail = last (split_at newline c)\<rparr>"

lemma log_read_more:
  assumes "caught_up path ino c m"
  shows "fst (log_read (Some (ino, c @ d)) path m) =
      join [newline] (butlast (split_at newline (last (split_at newline c) @ d)))"
    and "caught_up path ino (c @ d) (snd (log_read (Some (ino, c @ d)) path m))"
proof -
  let ?t = "last (split_at newline c)"
  have free: "newline \<notin> set ?t" using split_at_no_sep [of newline c] by (metis last_in_set split_at_ne)
  have l: "last (split_at newline (c @ d)) = last (split_at newline (?t @ d))"
    by (simp add: split_at_extend [of newline c d])
  show "fst (log_read (Some (ino, c @ d)) path m) =
      join [newline] (butlast (split_at newline (?t @ d)))"
    and "caught_up path ino (c @ d) (snd (log_read (Some (ino, c @ d)) path m))"
    using assms free l by (auto simp: log_read_def caught_up_def Let_def split_at_free)
qed

lemma log_read_first:
  assumes "map_of m path = None"
  shows "fst (log_read (Some (ino, c)) path m) = join [newline] (butlast (split_at newline c))"
    and "caught_up path ino c (snd (log_read (Some (ino, c)) path m))"
  using assms by (auto simp: log_read_def caught_up_def Let_def)

lemma read_live_banner:
  assumes "ti_file t ws (ll_name lg) = Some (ino, c @ d)" and "ll_target lg = []"
    and "caught_up (ll_name lg) ino c (ws_tails s)"
    and "(ws_cur s, ws_cov s) = fold scan_cov_line (butlast (split_at newline c)) start"
  shows "caught_up (ll_name lg) ino (c @ d) (ws_tails (read_live t ws lg s))"
    and "(ws_cur (read_live t ws lg s), ws_cov (read_live t ws lg s)) =
      fold scan_cov_line (butlast (split_at newline (c @ d))) start"
proof -
  let ?pieces = "split_at newline (last (split_at newline c) @ d)"
  obtain piece tails where r: "log_read (Some (ino, c @ d)) (ll_name lg) (ws_tails s) = (piece, tails)"
    by (metis surj_pair)
  have piece: "piece = join [newline] (butlast ?pieces)" and up: "caught_up (ll_name lg) ino (c @ d) tails"
    using log_read_more [OF assms(3), of d] r by simp_all
  have free: "\<forall>l \<in> set (butlast ?pieces). newline \<notin> set l"
    using split_at_no_sep in_set_butlastD by metis
  have "scan_cov piece (ws_cur s) (ws_cov s) =
      fold scan_cov_line (butlast (split_at newline c) @ butlast ?pieces) start"
    unfolding piece scan_cov_join [OF free] using assms(4) by simp
  also have "butlast (split_at newline c) @ butlast ?pieces = butlast (split_at newline (c @ d))"
    by (simp add: split_at_extend [of newline c d] butlast_append)
  finally have sc: "scan_cov piece (ws_cur s) (ws_cov s) =
      fold scan_cov_line (butlast (split_at newline (c @ d))) start" .
  show "caught_up (ll_name lg) ino (c @ d) (ws_tails (read_live t ws lg s))"
    using up assms(1,2) r by (simp add: read_live_def case_prod_beta)
  show "(ws_cur (read_live t ws lg s), ws_cov (read_live t ws lg s)) =
      fold scan_cov_line (butlast (split_at newline (c @ d))) start"
    using sc assms(1,2) r by (simp add: read_live_def case_prod_beta)
qed

lemma read_live_first:
  assumes "ti_file t ws (ll_name lg) = Some (ino, c)" and "ll_target lg = []"
    and "map_of (ws_tails s) (ll_name lg) = None"
  shows "caught_up (ll_name lg) ino c (ws_tails (read_live t ws lg s))"
    and "(ws_cur (read_live t ws lg s), ws_cov (read_live t ws lg s)) =
      fold scan_cov_line (butlast (split_at newline c)) (ws_cur s, ws_cov s)"
proof -
  obtain piece tails where r: "log_read (Some (ino, c)) (ll_name lg) (ws_tails s) = (piece, tails)"
    by (metis surj_pair)
  have piece: "piece = join [newline] (butlast (split_at newline c))" and up: "caught_up (ll_name lg) ino c tails"
    using log_read_first [OF assms(3), of ino c] r by simp_all
  have free: "\<forall>l \<in> set (butlast (split_at newline c)). newline \<notin> set l"
    using split_at_no_sep in_set_butlastD by metis
  show "caught_up (ll_name lg) ino c (ws_tails (read_live t ws lg s))"
    using up assms(1,2) r by (simp add: read_live_def case_prod_beta)
  show "(ws_cur (read_live t ws lg s), ws_cov (read_live t ws lg s)) =
      fold scan_cov_line (butlast (split_at newline c)) (ws_cur s, ws_cov s)"
    using assms(1,2) r scan_cov_join [OF free] piece by (simp add: read_live_def case_prod_beta)
qed

text \<open>The file at each tick, growing: the same inode, each content a prefix of the next.\<close>

fun grows_as :: "string \<Rightarrow> live_log \<Rightarrow> nat \<Rightarrow> string \<Rightarrow> tick list \<Rightarrow> string list \<Rightarrow> bool" where
  "grows_as ws lg ino c [] ds = (ds = [])"
| "grows_as ws lg ino c (t # ts) ds =
     (case ds of [] \<Rightarrow> False
      | d # ds' \<Rightarrow> ti_file t ws (ll_name lg) = Some (ino, c @ d) \<and> grows_as ws lg ino (c @ d) ts ds')"

lemma follow_log:
  assumes "ll_target lg = []" and "caught_up (ll_name lg) ino c (ws_tails s)"
    and "(ws_cur s, ws_cov s) = fold scan_cov_line (butlast (split_at newline c)) start"
    and "grows_as ws lg ino c ts ds"
  shows "(ws_cur (fold (\<lambda>t. read_live t ws lg) ts s), ws_cov (fold (\<lambda>t. read_live t ws lg) ts s)) =
    fold scan_cov_line (butlast (split_at newline (c @ concat ds))) start"
  using assms(2-4)
proof (induction ts arbitrary: c s ds)
  case (Cons t ts)
  then obtain d ds' where ds: "ds = d # ds'" by (cases ds) auto
  with Cons.prems have f: "ti_file t ws (ll_name lg) = Some (ino, c @ d)" "grows_as ws lg ino (c @ d) ts ds'"
    by simp_all
  note step = read_live_banner [OF f(1) assms(1) Cons.prems(1,2)]
  from Cons.IH [OF step f(2)] show ?case by (simp add: ds)
qed simp

text \<open>
  C37: reading a growing log in pieces loses and invents nothing. However the bytes of a log with banners
  arrive, and wherever the pieces are cut, even inside a line, the targets and coverage after the
  last read are those of one scan over all its complete lines; an unfinished line waits.
\<close>

theorem incremental_reads_complete_lines:
  assumes "ll_target lg = []" and "ts \<noteq> []" and "grows_as ws lg ino [] ts ds"
  shows "(ws_cur (fold (\<lambda>t. read_live t ws lg) ts ws_start), ws_cov (fold (\<lambda>t. read_live t ws lg) ts ws_start)) =
    fold scan_cov_line (butlast (split_at newline (concat ds))) ([], [])"
proof -
  obtain t ts' where ts: "ts = t # ts'" using assms(2) by (cases ts) auto
  then obtain d ds' where ds: "ds = d # ds'" using assms(3) by (cases ds) auto
  have f: "ti_file t ws (ll_name lg) = Some (ino, d)" "grows_as ws lg ino d ts' ds'"
    using assms(3) ts ds by simp_all
  note first = read_live_first [OF f(1) assms(1), of ws_start]
  have "map_of (ws_tails ws_start) (ll_name lg) = None" by (simp add: ws_start_def)
  then show ?thesis
    using follow_log [OF assms(1) first(1) _ f(2)] first(2) by (simp add: ts ds ws_start_def)
qed

definition idle_tick :: "string \<Rightarrow> tick" where
  "idle_tick c = \<lparr>ti_now = 0, ti_dir = (\<lambda>_. None), ti_file = (\<lambda>_ _. Some (1, c)), ti_corpus = (\<lambda>_. None),
     ti_ledger = [], ti_since = 0, ti_cancelled = False\<rparr>"

definition cut_line :: "string list" where
  "cut_line = [''---- a_fuzzer ----'' @ [newline] @ ''#9 NEW co'', ''v: 7 ft: 1'' @ [newline] @ ''#10 NEW cov: 9'']"

theorem incremental_reads_complete_lines_witness:
  "let ts = [idle_tick (hd cut_line), idle_tick (concat cut_line)]; lg = \<lparr>ll_name = ''l'', ll_target = []\<rparr>
   in grows_as ''w'' lg 1 [] ts cut_line \<and>
      (ws_cur (fold (\<lambda>t. read_live t ''w'' lg) ts ws_start), ws_cov (fold (\<lambda>t. read_live t ''w'' lg) ts ws_start))
        = (''a_fuzzer'', [(''a_fuzzer'', 7)])"
proof -
  let ?ts = "[idle_tick (hd cut_line), idle_tick (concat cut_line)]"
  let ?lg = "\<lparr>ll_name = ''l'', ll_target = []\<rparr>"
  have g: "grows_as ''w'' ?lg 1 [] ?ts cut_line" by (simp add: cut_line_def idle_tick_def)
  have "fold scan_cov_line (butlast (split_at newline (concat cut_line))) ([], []) = (''a_fuzzer'', [(''a_fuzzer'', 7)])"
    by code_simp
  with g show ?thesis using incremental_reads_complete_lines [of ?lg ?ts "''w''" 1 cut_line] by (simp add: Let_def)
qed

definition filling :: "sample list" where
  "filling = [\<lparr>sa_at = 0, sa_v = 200\<rparr>, \<lparr>sa_at = 60, sa_v = 210\<rparr>]"

subsection \<open>the verdict\<close>

fun judgements :: "options \<Rightarrow> string list \<Rightarrow> tick list \<Rightarrow> ws_state gomap \<Rightarrow> (bool \<times> bool) list" where
  "judgements opts wss [] m = []"
| "judgements opts wss (t # ts) m =
     (let m' = observe_all opts t wss m
      in (ready opts (ti_now t) wss m', all_flat opts (ti_now t) wss m') # judgements opts wss ts m')"

text \<open>How many of the latest samples with a full window were flat, without interruption.\<close>

definition flat_streak :: "(bool \<times> bool) list \<Rightarrow> nat" where
  "flat_streak js = length (takeWhile (\<lambda>f. f) (rev (map snd (filter fst js))))"

lemma flat_streak_snoc: "flat_streak (js @ [(r, f)]) = nat (next_flat r f (int (flat_streak js)))"
  by (simp add: flat_streak_def next_flat_def nat_add_distrib)

lemma judgements_snoc:
  "judgements opts wss (ts @ [t]) m = judgements opts wss ts m @
     [let m' = observe_all opts t wss (fold (\<lambda>t m. observe_all opts t wss m) ts m)
      in (ready opts (ti_now t) wss m', all_flat opts (ti_now t) wss m')]"
  by (induction ts arbitrary: m) (simp_all add: Let_def)

lemma samples_streak:
  "fold (sample_once opts wss) ts (m, 0) =
     (fold (\<lambda>t m. observe_all opts t wss m) ts m, int (flat_streak (judgements opts wss ts m)))"
proof (induction ts rule: rev_induct)
  case (snoc t ts)
  then show ?case
    by (simp add: sample_once_def Let_def judgements_snoc flat_streak_snoc next_flat_def)
qed (simp add: flat_streak_def)

lemma watch_from_verdict:
  "watch_from opts wss ts st = Some v \<longleftrightarrow>
     (\<exists>k < length ts. leave opts (ts ! k) (snd (fold (sample_once opts wss) (take (Suc k) ts) st)) = Some v \<and>
        (\<forall>i < k. leave opts (ts ! i) (snd (fold (sample_once opts wss) (take (Suc i) ts) st)) = None))"
proof (induction ts arbitrary: st)
  case (Cons t ts)
  let ?st = "sample_once opts wss t st"
  show ?case
  proof (cases "leave opts t (snd ?st)")
    case None
    then have "watch_from opts wss (t # ts) st = watch_from opts wss ts ?st" by (simp add: Let_def)
    then show ?thesis using None
      by (simp only: Cons.IH Ex_less_Suc2 All_less_Suc2 length_Cons nth_Cons_0 nth_Cons_Suc take_Suc_Cons fold_simps
          take_0 id_apply) (simp add: None)
  next
    case (Some w)
    then have "watch_from opts wss (t # ts) st = Some w" by (simp add: Let_def)
    then show ?thesis using Some
      by (simp only: Ex_less_Suc2 All_less_Suc2 length_Cons nth_Cons_0 nth_Cons_Suc take_Suc_Cons fold_simps
          take_0 id_apply) (simp add: Some)
  qed
qed simp

text \<open>
  The reference for the watch, from what the ticks show alone: the samples of a workspace's corpus, the samples of
  one target's coverage (one per tick from the first at which its log named a figure), whether the corpus window is
  full, and whether nothing grew: the corpus of every workspace within its margin, and of the coverage growths that
  are defined none at or above the margin and, if there are any, the largest above minus the margin.
\<close>

definition reads :: "options \<Rightarrow> string \<Rightarrow> tick list \<Rightarrow> ws_state" where
  "reads opts ws ts = fold (\<lambda>t s. fold (read_live t ws) (live_logs (ti_dir t ws) (op_patterns opts)) s) ts ws_start"

definition corpus_samples :: "string \<Rightarrow> tick list \<Rightarrow> sample list" where
  "corpus_samples ws ts = map (\<lambda>t. \<lparr>sa_at = ti_now t, sa_v = corpus_count (ti_corpus t ws) (ti_ledger t) ws\<rparr>) ts"

definition cov_samples :: "options \<Rightarrow> string \<Rightarrow> tick list \<Rightarrow> string \<Rightarrow> sample list" where
  "cov_samples opts ws ts tg = concat (map (\<lambda>j.
     case map_of (ws_cov (reads opts ws (take (Suc j) ts))) tg of
       None \<Rightarrow> [] | Some v \<Rightarrow> [\<lparr>sa_at = ti_now (ts ! j), sa_v = v\<rparr>]) [0..<length ts])"

definition window_full :: "options \<Rightarrow> string list \<Rightarrow> tick list \<Rightarrow> bool" where
  "window_full opts wss ts \<longleftrightarrow> (\<forall>ws \<in> set wss. growth (corpus_samples ws ts) (op_window opts) (ti_now (last ts)) \<noteq> None)"

definition cov_growths :: "options \<Rightarrow> string \<Rightarrow> tick list \<Rightarrow> f64 set" where
  "cov_growths opts ws ts = {g. \<exists>tg. growth (cov_samples opts ws ts tg) (op_window opts) (ti_now (last ts)) = Some g}"

definition nothing_grew :: "options \<Rightarrow> string list \<Rightarrow> tick list \<Rightarrow> bool" where
  "nothing_grew opts wss ts \<longleftrightarrow> (\<forall>ws \<in> set wss.
     (\<exists>g. growth (corpus_samples ws ts) (op_window opts) (ti_now (last ts)) = Some g \<and> - op_corpus_margin opts < g \<and> g < op_corpus_margin opts) \<and>
     (cov_growths opts ws ts = {} \<or>
        (\<forall>g \<in> cov_growths opts ws ts. g < op_cov_margin opts) \<and> (\<exists>g \<in> cov_growths opts ws ts. - op_cov_margin opts < g)))"

text \<open>How many of the latest samples with a full window showed no growth, without interruption.\<close>

definition quiet_run :: "options \<Rightarrow> string list \<Rightarrow> tick list \<Rightarrow> nat" where
  "quiet_run opts wss ts = length (takeWhile (nothing_grew opts wss) (rev (filter (window_full opts wss) (map (\<lambda>j. take (Suc j) ts) [0..<length ts]))))"

lemma read_live_frame:
  "read_live t ws lg (s\<lparr>ws_corpus := a, ws_series := b\<rparr>) = (read_live t ws lg s)\<lparr>ws_corpus := a, ws_series := b\<rparr>"
  by (simp add: read_live_def Let_def split: prod.split)

lemma reads_frame:
  "fold (read_live t ws) lgs (s\<lparr>ws_corpus := a, ws_series := b\<rparr>) = (fold (read_live t ws) lgs s)\<lparr>ws_corpus := a, ws_series := b\<rparr>"
  by (induction lgs arbitrary: s) (simp_all add: read_live_frame)

lemma wf_scan_cov: "wf_map cov \<Longrightarrow> wf_map (snd (scan_cov piece cur cov))"
proof -
  have "wf_map (snd st) \<Longrightarrow> wf_map (snd (scan_cov_line l st))" for l and st :: "string \<times> int gomap"
    by (cases st) (auto simp: scan_cov_line_def Let_def split: option.split)
  then have "wf_map (snd st) \<Longrightarrow> wf_map (snd (fold scan_cov_line ls st))" for ls and st :: "string \<times> int gomap"
    by (induction ls arbitrary: st) simp_all
  then show "wf_map cov \<Longrightarrow> wf_map (snd (scan_cov piece cur cov))" by (simp add: scan_cov_def)
qed

lemma wf_read_live: "wf_map (ws_cov s) \<Longrightarrow> wf_map (ws_cov (read_live t ws lg s))"
  using wf_scan_cov [of "ws_cov s" _ "ll_target lg"] wf_scan_cov [of "ws_cov s" _ "ws_cur s"]
  by (auto simp: read_live_def Let_def split: prod.split) (metis snd_conv)

lemma wf_reads: "wf_map (ws_cov (reads opts ws ts))"
proof -
  have "wf_map (ws_cov s) \<Longrightarrow> wf_map (ws_cov (fold (read_live t ws) lgs s))" for t lgs s
    by (induction lgs arbitrary: s) (simp_all add: wf_read_live)
  then have "wf_map (ws_cov s) \<Longrightarrow>
      wf_map (ws_cov (fold (\<lambda>t s. fold (read_live t ws) (live_logs (ti_dir t ws) (op_patterns opts)) s) ts s))" for s
    by (induction ts arbitrary: s) simp_all
  then show ?thesis by (simp add: reads_def ws_start_def)
qed

lemma reads_snoc:
  "reads opts ws (ts @ [t]) = fold (read_live t ws) (live_logs (ti_dir t ws) (op_patterns opts)) (reads opts ws ts)"
  by (simp add: reads_def)

definition series_step :: "int \<Rightarrow> int gomap \<Rightarrow> sample list gomap \<Rightarrow> sample list gomap" where
  "series_step now cov ser = fold (\<lambda>(tg, v) m. AList.update tg (sub m tg @ [\<lparr>sa_at = now, sa_v = v\<rparr>]) m) cov ser"

lemma wf_series_step: "wf_map ser \<Longrightarrow> wf_map (series_step now cov ser)"
  unfolding series_step_def by (induction cov arbitrary: ser) auto

lemma sub_series_step:
  "wf_map cov \<Longrightarrow> sub (series_step now cov ser) tg =
     sub ser tg @ (case map_of cov tg of None \<Rightarrow> [] | Some v \<Rightarrow> [\<lparr>sa_at = now, sa_v = v\<rparr>])"
proof (induction cov arbitrary: ser)
  case (Cons c cov)
  then have "map_of cov (fst c) = None" by (simp add: map_of_eq_None_iff)
  then show ?case using Cons by (cases c) (auto simp: series_step_def)
qed (simp add: series_step_def)

lemma cov_samples_snoc:
  "cov_samples opts ws (ts @ [t]) tg = cov_samples opts ws ts tg @
     (case map_of (ws_cov (reads opts ws (ts @ [t]))) tg of None \<Rightarrow> [] | Some v \<Rightarrow> [\<lparr>sa_at = ti_now t, sa_v = v\<rparr>])"
proof -
  have "cov_samples opts ws ts tg = concat (map (\<lambda>j.
     case map_of (ws_cov (reads opts ws (take (Suc j) (ts @ [t])))) tg of
       None \<Rightarrow> [] | Some v \<Rightarrow> [\<lparr>sa_at = ti_now ((ts @ [t]) ! j), sa_v = v\<rparr>]) [0..<length ts])"
    unfolding cov_samples_def by (intro arg_cong [where f = concat] map_cong refl) (auto simp: nth_append split: option.split)
  then show ?thesis by (simp add: cov_samples_def [of opts ws "ts @ [t]"] cong: option.case_cong)
qed

lemma corpus_samples_snoc:
  "corpus_samples ws (ts @ [t]) = corpus_samples ws ts @ [\<lparr>sa_at = ti_now t, sa_v = corpus_count (ti_corpus t ws) (ti_ledger t) ws\<rparr>]"
  by (simp add: corpus_samples_def)

text \<open>The state of one workspace after the ticks: the reader of its logs, and the samples next to it.\<close>

lemma observe_reads:
  "\<exists>ser. fold (\<lambda>t. observe opts t ws) ts ws_start = (reads opts ws ts)\<lparr>ws_corpus := corpus_samples ws ts, ws_series := ser\<rparr> \<and>
     wf_map ser \<and> (\<forall>tg. sub ser tg = cov_samples opts ws ts tg)"
proof (induction ts rule: rev_induct)
  case (snoc t ts)
  then obtain ser where ser: "fold (\<lambda>t. observe opts t ws) ts ws_start = (reads opts ws ts)\<lparr>ws_corpus := corpus_samples ws ts, ws_series := ser\<rparr>"
    "wf_map ser" "\<And>tg. sub ser tg = cov_samples opts ws ts tg" by blast
  let ?ser = "series_step (ti_now t) (ws_cov (reads opts ws (ts @ [t]))) ser"
  have "fold (\<lambda>t. observe opts t ws) (ts @ [t]) ws_start =
      (reads opts ws (ts @ [t]))\<lparr>ws_corpus := corpus_samples ws (ts @ [t]), ws_series := ?ser\<rparr>"
    by (simp add: ser(1) observe_def Let_def reads_frame corpus_samples_snoc series_step_def reads_snoc)
  moreover have "wf_map ?ser" using ser(2) by (rule wf_series_step)
  moreover have "\<forall>tg. sub ?ser tg = cov_samples opts ws (ts @ [t]) tg"
    by (simp add: sub_series_step wf_reads ser(3) cov_samples_snoc)
  ultimately show ?case by blast
qed (simp add: reads_def ws_start_def corpus_samples_def cov_samples_def)

lemma ws_of_observe_all:
  "distinct wss \<Longrightarrow> ws_of (observe_all opts t wss m) ws = (if ws \<in> set wss then observe opts t ws (ws_of m ws) else ws_of m ws)"
  unfolding observe_all_def by (induction wss arbitrary: m) (auto simp: ws_of_def)

lemma ws_of_watch:
  assumes "distinct wss" and "ws \<in> set wss"
  shows "ws_of (fold (\<lambda>t m. observe_all opts t wss m) ts []) ws = fold (\<lambda>t. observe opts t ws) ts ws_start"
  using assms by (induction ts rule: rev_induct) (simp_all add: ws_of_observe_all, simp add: ws_of_def)

definition best_step :: "('s \<Rightarrow> 'r::linorder option) \<Rightarrow> 'k \<times> 's \<Rightarrow> 'r option \<Rightarrow> 'r option" where
  "best_step g = (\<lambda>(_, s) best. case g s of None \<Rightarrow> best
     | Some x \<Rightarrow> (case best of None \<Rightarrow> Some x | Some b \<Rightarrow> if x > b then Some x else best))"

lemma fold_best:
  "fold (best_step g) ser None =
     (let gs = concat (map (\<lambda>(_, s). case g s of None \<Rightarrow> [] | Some x \<Rightarrow> [x]) ser)
      in if gs = [] then None else Some (Max (set gs)))"
proof (induction ser rule: rev_induct)
  case (snoc e ser)
  obtain k s where e: "e = (k, s)" by (cases e)
  define gs where "gs = concat (map (\<lambda>(_, s). case g s of None \<Rightarrow> [] | Some x \<Rightarrow> [x]) ser)"
  have IH: "fold (best_step g) ser None = (if gs = [] then None else Some (Max (set gs)))"
    using snoc.IH by (simp add: gs_def Let_def)
  have gs: "concat (map (\<lambda>(_, s). case g s of None \<Rightarrow> [] | Some x \<Rightarrow> [x]) (ser @ [e])) =
      gs @ (case g s of None \<Rightarrow> [] | Some x \<Rightarrow> [x])"
    by (simp add: gs_def e)
  have st: "best_step g e best = (case g s of None \<Rightarrow> best
     | Some x \<Rightarrow> (case best of None \<Rightarrow> Some x | Some b \<Rightarrow> if x > b then Some x else best))" for best
    by (simp add: best_step_def e)
  have "fold (best_step g) (ser @ [e]) None = best_step g e (fold (best_step g) ser None)" by simp
  then show ?case
    unfolding gs Let_def IH st
    by (cases "g s"; cases "gs = []") (auto simp: max_def not_less dest: leD order_trans [OF _ Max_ge [OF finite_set]])
qed simp

lemma set_somes:
  "set (concat (map (\<lambda>(_, s). case g s of None \<Rightarrow> [] | Some x \<Rightarrow> [x]) ser)) = {x. \<exists>k s. (k, s) \<in> set ser \<and> g s = Some x}"
proof (induction ser)
  case (Cons e ser)
  have "{x. \<exists>k s. (k, s) \<in> set (e # ser) \<and> g s = Some x} =
      set (case g (snd e) of None \<Rightarrow> [] | Some x \<Rightarrow> [x]) \<union> {x. \<exists>k s. (k, s) \<in> set ser \<and> g s = Some x}"
    by (cases e) (fastforce split: option.split)
  then show ?case
    by (simp only: Cons.IH [symmetric]) (cases e, simp)
qed simp

lemma watched:
  fixes ts opts
  assumes "distinct wss" and "ws \<in> set wss"
  defines "s \<equiv> ws_of (fold (\<lambda>t m. observe_all opts t wss m) ts []) ws"
  shows "corpus_growth opts now s = growth (corpus_samples ws ts) (op_window opts) now"
    and "cov_growth opts (ti_now (last ts)) s =
      (if cov_growths opts ws ts = {} then None else Some (Max (cov_growths opts ws ts)))"
    and "finite (cov_growths opts ws ts)"
proof -
  obtain ser where ser: "s = (reads opts ws ts)\<lparr>ws_corpus := corpus_samples ws ts, ws_series := ser\<rparr>"
    "wf_map ser" "\<And>tg. sub ser tg = cov_samples opts ws ts tg"
    using observe_reads [of opts ws ts] ws_of_watch [OF assms(1,2)] by (auto simp: s_def)
  show "corpus_growth opts now s = growth (corpus_samples ws ts) (op_window opts) now"
    by (simp add: corpus_growth_def ser(1))
  have none: "growth [] w n = None" for w n by (simp add: growth_def)
  let ?g = "\<lambda>sa. growth sa (op_window opts) (ti_now (last ts))"
  let ?gs = "concat (map (\<lambda>(_, s). case ?g s of None \<Rightarrow> [] | Some x \<Rightarrow> [x]) ser)"
  have "x \<in> cov_growths opts ws ts \<longleftrightarrow> (\<exists>tg sa. map_of ser tg = Some sa \<and> ?g sa = Some x)" for x
    unfolding cov_growths_def ser(3) [symmetric] sub_def by (auto simp: none split: option.splits)
  then have G: "cov_growths opts ws ts = set ?gs"
    unfolding set_somes map_of_in_set [OF ser(2)] by blast
  show "finite (cov_growths opts ws ts)" unfolding G by (rule finite_set)
  show "cov_growth opts (ti_now (last ts)) s =
      (if cov_growths opts ws ts = {} then None else Some (Max (cov_growths opts ws ts)))"
    using fold_best [of ?g ser]
    unfolding G cov_growth_def ser(1) ws_state.select_convs ws_state.update_convs best_step_def Let_def set_empty
    by simp
qed

lemma ready_window_full:
  assumes "distinct wss"
  shows "ready opts (ti_now (last ts)) wss (fold (\<lambda>t m. observe_all opts t wss m) ts []) = window_full opts wss ts"
  using assms by (simp add: ready_def window_full_def list_all_iff watched(1))

lemma all_flat_nothing_grew:
  assumes "distinct wss"
  shows "all_flat opts (ti_now (last ts)) wss (fold (\<lambda>t m. observe_all opts t wss m) ts []) = nothing_grew opts wss ts"
proof -
  let ?m = "fold (\<lambda>t m. observe_all opts t wss m) ts []"
  have flat: "(case (if G = {} then None else Some (Max G)) of None \<Rightarrow> True | Some g \<Rightarrow> flat (Some g) c) \<longleftrightarrow>
      G = {} \<or> (\<forall>g \<in> G. g < c) \<and> (\<exists>g \<in> G. - c < g)" if "finite G" for G :: "f64 set" and c
    using that by (auto simp: flat_def Max_gr_iff)
  have "all_flat opts (ti_now (last ts)) wss ?m \<longleftrightarrow>
      (\<forall>ws \<in> set wss. flat (corpus_growth opts (ti_now (last ts)) (ws_of ?m ws)) (op_corpus_margin opts) \<and>
        (case cov_growth opts (ti_now (last ts)) (ws_of ?m ws) of None \<Rightarrow> True | Some g \<Rightarrow> flat (Some g) (op_cov_margin opts)))"
    by (auto simp: all_flat_def Let_def list_all_iff list_ex_iff)
  then show ?thesis
    using assms by (auto simp: watched flat nothing_grew_def flat_def split: option.splits)
qed

lemma flat_streak_quiet_run:
  assumes "distinct wss"
  shows "flat_streak (judgements opts wss ts []) = quiet_run opts wss ts"
proof -
  have "judgements opts wss ts [] = map (\<lambda>p. (window_full opts wss p, nothing_grew opts wss p)) (map (\<lambda>j. take (Suc j) ts) [0..<length ts])"
  proof (induction ts rule: rev_induct)
    case (snoc t ts)
    then show ?case
      using ready_window_full [OF assms, of opts "ts @ [t]"] all_flat_nothing_grew [OF assms, of opts "ts @ [t]"]
      by (simp add: judgements_snoc Let_def)
  qed simp
  then show ?thesis
    by (simp add: flat_streak_def quiet_run_def filter_map rev_map takeWhile_map o_def)
qed

text \<open>A continuous watch stops at a tick when the quiet run is long enough, its time is up, or it was cancelled.\<close>

definition quiet_enough :: "options \<Rightarrow> string list \<Rightarrow> tick list \<Rightarrow> bool" where
  "quiet_enough opts wss ts \<longleftrightarrow> op_consecutive opts \<le> int (quiet_run opts wss ts)"

definition overtime :: "options \<Rightarrow> tick \<Rightarrow> bool" where
  "overtime opts t \<longleftrightarrow> 0 < op_max_hours opts \<and> op_max_hours opts < hours (ti_since t)"

definition stops_at :: "options \<Rightarrow> string list \<Rightarrow> tick list \<Rightarrow> nat \<Rightarrow> bool" where
  "stops_at opts wss ts k \<longleftrightarrow>
     op_once opts \<or> quiet_enough opts wss (take (Suc k) ts) \<or> overtime opts (ts ! k) \<or> ti_cancelled (ts ! k)"

text \<open>
  C38: when the watch of distinct workspaces ends and with what, stated over the samples themselves. It
  ends at the first tick at which it was asked for one sample only, or the quiet run has reached
  \<open>Consecutive\<close>, or its hours are over, or it was cancelled, and the verdict is the first of these
  that holds. The quiet run counts the latest ticks whose corpus windows were full in every workspace,
  as long as in each of them nothing grew: every corpus within its margin, and of the defined coverage
  growths of a workspace none at or above the margin and the largest above minus the margin; a full
  tick that grew ends it, a tick without full windows neither counts nor ends it.
\<close>

theorem watch_verdict:
  assumes "distinct wss"
  shows "Watch opts wss ts = Some v \<longleftrightarrow>
     (\<exists>k < length ts. stops_at opts wss ts k \<and> (\<forall>i < k. \<not> stops_at opts wss ts i) \<and>
        v = (if op_once opts then Sampled_once
             else if quiet_enough opts wss (take (Suc k) ts) then Plateau_reached
             else if overtime opts (ts ! k) then Time_limit
             else Interrupted))"
proof -
  have leave: "leave opts (ts ! i) (int (quiet_run opts wss (take (Suc i) ts))) =
      (if stops_at opts wss ts i then Some (if op_once opts then Sampled_once
             else if quiet_enough opts wss (take (Suc i) ts) then Plateau_reached
             else if overtime opts (ts ! i) then Time_limit else Interrupted) else None)" for i
    by (auto simp: leave_def stops_at_def quiet_enough_def overtime_def)
  show ?thesis
    unfolding Watch_def watch_from_verdict samples_streak snd_conv flat_streak_quiet_run [OF assms] leave
    by (auto split: if_splits)
qed

text \<open>
  Exit code 0 of a continuous watch means convergence: the last \<open>Consecutive\<close> samples with full windows
  were flat, each of them in every workspace.
\<close>

theorem exit_zero_means_flat:
  assumes "Watch opts wss ts = Some v" and "exit_code v = 0" and "\<not> op_once opts"
  shows "\<exists>k < length ts. op_consecutive opts \<le> int (flat_streak (judgements opts wss (take (Suc k) ts) []))"
proof -
  obtain k where k: "k < length ts"
    "leave opts (ts ! k) (int (flat_streak (judgements opts wss (take (Suc k) ts) []))) = Some v"
    using assms(1) by (auto simp: Watch_def watch_from_verdict samples_streak)
  then have "v = Plateau_reached \<Longrightarrow> ?thesis" using assms(3) by (auto simp: leave_def split: if_splits)
  moreover have "v = Plateau_reached" using assms(2,3) k(2) by (cases v) (auto simp: leave_def split: if_splits)
  ultimately show ?thesis by simp
qed

definition settled_tick :: "int \<Rightarrow> tick" where
  "settled_tick now = \<lparr>ti_now = now, ti_dir = (\<lambda>_. None), ti_file = (\<lambda>_ _. None), ti_corpus = (\<lambda>_. None),
     ti_ledger = [(''w'', 10)], ti_since = now, ti_cancelled = False\<rparr>"

theorem watch_verdict_witness:
  "\<exists>k < length (map settled_tick [0, 5, 10]).
     stops_at (Defaults\<lparr>op_window := 5\<rparr>) [''w''] (map settled_tick [0, 5, 10]) k \<and>
     quiet_enough (Defaults\<lparr>op_window := 5\<rparr>) [''w''] (take (Suc k) (map settled_tick [0, 5, 10]))"
proof -
  have "Watch (Defaults\<lparr>op_window := 5\<rparr>) [''w''] (map settled_tick [0, 5, 10]) = Some Plateau_reached"
    by code_simp
  moreover have "distinct [''w'']" by simp
  ultimately show ?thesis
    using watch_verdict [of "[''w'']" "Defaults\<lparr>op_window := 5\<rparr>" "map settled_tick [0, 5, 10]" Plateau_reached]
    by (auto split: if_splits)
qed

subsection \<open>the banners of a Go sweep\<close>

lemma reBannerP_last: "find_re reBannerP l = Some m \<Longrightarrow> l \<noteq> [] \<and> last l = CHR ''-''"
proof (rule find_re_last)
  show "ends_in reBannerP (\<lambda>c. c = CHR ''-'')"
    unfolding reBannerP_def seqs.simps dashes_def by (intro ends_in_seq ends_in_eol ends_in_plus)
  show "to_end reBannerP"
    unfolding reBannerP_def seqs.simps by (intro to_end_seq to_end_eol)
qed

definition sweep_banner :: "string \<Rightarrow> int \<Rightarrow> int \<Rightarrow> string" where
  "sweep_banner t i n = ''  ---- '' @ t @ '' ---- ('' @ itoa i @ ''/'' @ itoa n @ '')''"

text \<open>
  The banner the sweep prints is not one this scanner knows. Its line ends in the slice counter
  \<open>(i/n)\<close>, the pattern is anchored behind the dashes, so for every target and every counter the line
  leaves the current target and the coverage as they were: a round log never yields a sample.
\<close>

theorem sweep_banner_ignored:
  assumes "list_all (lower_digit_or ''_'') t"
  shows "scan_cov_line (sweep_banner t i n) st = st"
proof -
  let ?b = "sweep_banner t i n"
  have chars: "\<forall>c \<in> set ?b. c \<noteq> CHR 0x1B \<and> c \<noteq> CHR '':''"
    using assms set_itoa [of i] set_itoa [of n]
    by (auto simp: sweep_banner_def list_all_iff lower_digit_or_def lower_or_def is_digit_def)
  have b: "?b \<noteq> []" "last ?b = CHR '')''" by (simp_all add: sweep_banner_def)
  have st: "strip ?b = ?b" using chars by (intro strip_plain) blast
  have "last (trim_space ?b) = CHR '')''"
    using trim_last [OF b(1), of is_space] b(2) by (simp add: is_space_def)
  then have "find_re reBannerP (trim_space ?b) = None"
    using reBannerP_last [of "trim_space ?b"] by (cases "find_re reBannerP (trim_space ?b)") auto
  moreover have "\<not> contains (trim_space ?b) ''cov:''"
    using contains_sub [of "trim_space ?b" "''cov:''"] set_trim_by [of is_space ?b] chars by auto
  ultimately show ?thesis by (cases st) (simp add: scan_cov_line_def st)
qed

end
