(* ===== verification/Corpus_Cap.thy ===== *)
theory Corpus_Cap
  imports Plateau "HOL-Library.Product_Lexorder"
begin

text \<open>
  Bounding corpora (\<open>internal/corpus/autocap.go\<close>, \<open>minimize.go\<close>) and the per-target budgets, which
  \<open>internal/fuzz/budget.go\<close> reads back. The sweep log is reduced to replay facts per target; Autocap
  decides, Minimize and its cap move inputs aside, Tune adjusts the budgets. Directories are lists
  of entries; every rename may fail, and \<open>sort.Slice\<close>, which fixes no order among equal sizes, is any
  function that sorts.
\<close>

subsection \<open>replay facts of a sweep log\<close>

record target_log =
  tg_budget :: int
  tg_files :: int
  tg_inited :: "int option"
  tg_done :: "int option"
  tg_replay_rate :: int
  tg_rate :: int
  tg_new_units :: int

definition empty_target_log :: target_log where
  "empty_target_log = \<lparr>tg_budget = 0, tg_files = 0, tg_inited = None, tg_done = None, tg_replay_rate = 0,
     tg_rate = 0, tg_new_units = 0\<rparr>"

definition Locked :: "target_log \<Rightarrow> bool" where
  "Locked t \<longleftrightarrow> tg_inited t \<noteq> None \<and> tg_done t \<noteq> None \<and> tg_inited t = tg_done t"

definition reBanner :: re where
  "reBanner = seqs [Bol, dashes, lit '' '', Group 1 fuzzer_name, lit '' '', dashes, Eol]"
definition reMaxTotal :: re where "reMaxTotal = seqs [lit ''max_total_time='', Group 1 digits]"
definition reFiles :: re where "reFiles = seqs [Group 1 digits, lit '' files found'']"
definition reHash :: re where "reHash = seqs [lit ''#'', Group 1 digits]"
definition reDoneCap :: re where "reDoneCap = seqs [lit ''#'', digits, spaces, lit ''DONE'']"
definition reExecS :: re where "reExecS = seqs [lit ''exec/s:'', Star (Class re_space), Group 1 digits]"
definition reTrailNum :: re where "reTrailNum = seqs [Group 1 digits, Star (Class re_space), Eol]"

definition worth_reading :: "string \<Rightarrow> bool" where
  "worth_reading raw \<longleftrightarrow> contains raw ''_fuzzer -'' \<or> contains raw ''max_total_time='' \<or> contains raw ''files found in''
     \<or> contains raw ''INITED'' \<or> contains raw ''DONE'' \<or> contains raw ''new_units_added'' \<or> contains raw ''average_exec_per_sec''"

definition trim_cr :: "string \<Rightarrow> string" where
  "trim_cr s = rev (dropWhile (\<lambda>c. c = CHR 0x0D) (rev s))"

definition cap_fact :: "string \<Rightarrow> target_log \<Rightarrow> target_log" where
  "cap_fact line c =
     (if contains line ''max_total_time='' \<and> tg_budget c = 0 then
        (case find_re reMaxTotal line of Some m \<Rightarrow> c\<lparr>tg_budget := num_grp m 1\<rparr> | None \<Rightarrow> c)
      else if contains line ''files found in'' \<and> tg_files c = 0 then
        (case find_re reFiles line of Some m \<Rightarrow> c\<lparr>tg_files := num_grp m 1\<rparr> | None \<Rightarrow> c)
      else if contains line ''INITED'' \<and> tg_inited c = None then
        (let c1 = (case find_re reHash line of Some m \<Rightarrow> c\<lparr>tg_inited := Some (num_grp m 1)\<rparr> | None \<Rightarrow> c)
         in case find_re reExecS line of Some m \<Rightarrow> c1\<lparr>tg_replay_rate := num_grp m 1\<rparr> | None \<Rightarrow> c1)
      else if match_re reDoneCap line \<and> tg_done c = None then
        (case find_re reHash line of Some m \<Rightarrow> c\<lparr>tg_done := Some (num_grp m 1)\<rparr> | None \<Rightarrow> c)
      else if contains line ''new_units_added'' then
        (case find_re reTrailNum line of Some m \<Rightarrow> c\<lparr>tg_new_units := tg_new_units c + num_grp m 1\<rparr> | None \<Rightarrow> c)
      else if contains line ''average_exec_per_sec'' \<and> tg_rate c = 0 then
        (case find_re reTrailNum line of Some m \<Rightarrow> c\<lparr>tg_rate := num_grp m 1\<rparr> | None \<Rightarrow> c)
      else c)"

type_synonym cap_state = "string option \<times> target_log gomap"

definition log_of :: "target_log gomap \<Rightarrow> string \<Rightarrow> target_log" where
  "log_of m t = (case map_of m t of None \<Rightarrow> empty_target_log | Some c \<Rightarrow> c)"

definition cap_line :: "string \<Rightarrow> cap_state \<Rightarrow> cap_state" where
  "cap_line raw = (\<lambda>(cur, out).
     (if \<not> worth_reading raw then (cur, out)
      else
        let line = strip (trim_cr raw) in
        case find_re reBanner (trim_space line) of
          Some m \<Rightarrow> (Some (grp m 1),
                     if map_of out (grp m 1) = None then AList.update (grp m 1) empty_target_log out else out)
        | None \<Rightarrow> (case cur of
                     None \<Rightarrow> (cur, out)
                   | Some t \<Rightarrow> (cur, AList.update t (cap_fact line (log_of out t)) out))))"

definition ParseSweepForCap :: "string \<Rightarrow> target_log gomap" where
  "ParseSweepForCap body = snd (fold cap_line (scan_lines body) (None, []))"

subsection \<open>the decision\<close>

record autocap_options =
  ao_fraction :: f64
  ao_warn :: f64
  ao_floor :: int
  ao_all :: bool
  ao_skip :: "string set"

definition DefaultAutocap :: autocap_options where
  "DefaultAutocap = \<lparr>ao_fraction = f64 (33 / 100), ao_warn = f64 (66 / 100), ao_floor = 500, ao_all = False, ao_skip = {}\<rparr>"

record cap_decision =
  cd_target :: string
  cd_files :: int
  cd_rate :: int
  cd_replay :: f64
  cd_budget :: int
  cd_cap :: int
  cd_live :: int
  cd_locked :: bool
  cd_at_risk :: bool
  cd_act :: bool

definition state_string :: "cap_decision \<Rightarrow> string" where
  "state_string d =
     (if cd_locked d then ''LOCKED'' else if cd_at_risk d then ''at-risk'' else ''ok'') @
     (if cd_act d then '': '' @ itoa (cd_live d) @ '' -> '' @ itoa (cd_cap d) else [])"

definition eff_rate :: "target_log \<Rightarrow> int" where
  "eff_rate d = (if tg_replay_rate d = 0 then tg_rate d else tg_replay_rate d)"

definition decide :: "autocap_options \<Rightarrow> int \<Rightarrow> string \<Rightarrow> target_log \<Rightarrow> cap_decision" where
  "decide ao live t d =
     (let rate = eff_rate d;
          replay = f64_div (f64_of_int (tg_files d)) (f64_of_int rate);
          risk = replay > f64_mul (ao_warn ao) (f64_of_int (tg_budget d));
          c = f64_to_int (f64_mul (f64_mul (ao_fraction ao) (f64_of_int (tg_budget d))) (f64_of_int rate));
          cap = (if c < ao_floor ao then ao_floor ao else c)
      in \<lparr>cd_target = t, cd_files = tg_files d, cd_rate = rate, cd_replay = replay, cd_budget = tg_budget d,
          cd_cap = cap, cd_live = live, cd_locked = Locked d, cd_at_risk = risk,
          cd_act = ((Locked d \<or> risk \<or> ao_all ao) \<and> live > cap)\<rparr>)"

definition judged :: "autocap_options \<Rightarrow> string \<Rightarrow> target_log \<Rightarrow> bool" where
  "judged ao t d \<longleftrightarrow> t \<notin> ao_skip ao \<and> tg_files d \<noteq> 0 \<and> eff_rate d \<noteq> 0 \<and> tg_budget d \<noteq> 0"

definition Autocap :: "(string \<Rightarrow> int) \<Rightarrow> target_log gomap \<Rightarrow> autocap_options \<Rightarrow> cap_decision list" where
  "Autocap live per ao =
     map (\<lambda>t. decide ao (live t) t (log_of per t)) (filter (\<lambda>t. judged ao t (log_of per t)) (sorted_keys per))"

subsection \<open>budgets\<close>

type_synonym budgets = "((string \<times> string) \<times> int) list"

definition budget_row :: "string \<Rightarrow> budgets \<Rightarrow> budgets" where
  "budget_row line out =
     (if has_prefix line ''#'' \<or> trim_space line = [] then out
      else let f = split_at tab line in
        if length f \<noteq> 3 then out
        else let (v, ok) = atoi (f ! 2) in if ok then AList.update (f ! 0, f ! 1) v out else out)"

definition ReadBudgets :: "string option \<Rightarrow> budgets" where
  "ReadBudgets f = (case f of None \<Rightarrow> [] | Some b \<Rightarrow> fold budget_row (split_at newline b) [])"

definition budget_head :: string where
  "budget_head = ''# workspace'' @ [tab] @ ''target'' @ [tab] @ ''seconds -- maintained by `pgfuzz corpus -autocap -tune-budget`'' @ [newline]"

definition budget_line :: "(string \<times> string) \<Rightarrow> int \<Rightarrow> string" where
  "budget_line k v = fst k @ [tab] @ snd k @ [tab] @ itoa v @ [newline]"

definition write_budgets :: "budgets \<Rightarrow> string" where
  "write_budgets b = budget_head @ concat (map (\<lambda>k. budget_line k (num b k)) (sorted_keys b))"

record tune_options =
  tn_high :: int
  tn_low :: int
  tn_base :: int
  tn_max :: int

definition DefaultTune :: tune_options where
  "DefaultTune = \<lparr>tn_high = 2000, tn_low = 200, tn_base = 90, tn_max = 600\<rparr>"

record budget_change =
  bc_target :: string
  bc_was :: int
  bc_want :: int
  bc_found :: int

definition tuned :: "tune_options \<Rightarrow> int \<Rightarrow> int \<Rightarrow> int" where
  "tuned tn found have =
     (if found \<ge> tn_high tn then min (f64_to_int (f64_mul (f64_of_int have) (3 / 2))) (tn_max tn)
      else if found < tn_low tn then max (f64_to_int (f64_div (f64_of_int have) (3 / 2))) (tn_base tn)
      else have)"

definition tune_target :: "string \<Rightarrow> target_log gomap \<Rightarrow> tune_options \<Rightarrow> string \<Rightarrow> budgets \<times> budget_change list \<Rightarrow>
    budgets \<times> budget_change list" where
  "tune_target ws per tn t = (\<lambda>(cur, changed).
     (let d = log_of per t in
      if tg_budget d = 0 \<or> Locked d then (cur, changed)
      else
        let have = (case map_of cur (ws, t) of Some v \<Rightarrow> v | None \<Rightarrow> tg_budget d);
            want = tuned tn (tg_new_units d) have
        in if want \<noteq> have
           then (AList.update (ws, t) want cur,
                 changed @ [\<lparr>bc_target = t, bc_was = have, bc_want = want, bc_found = tg_new_units d\<rparr>])
           else (cur, changed)))"

definition Tune :: "string \<Rightarrow> target_log gomap \<Rightarrow> budgets \<Rightarrow> tune_options \<Rightarrow> budgets \<times> budget_change list" where
  "Tune ws per cur tn = fold (tune_target ws per tn) (sorted_keys per) (cur, [])"

text \<open>The reader of the runner: nested by workspace, only positive seconds.\<close>

definition SlowDefaults :: "int gomap" where
  "SlowDefaults = [(''spi_query_fuzzer'', 150), (''simple_query_fuzzer'', 200)]"

definition run_budget_row :: "string \<Rightarrow> (int gomap) gomap \<Rightarrow> (int gomap) gomap" where
  "run_budget_row raw b =
     (let line = trim_space raw in
      if line = [] \<or> has_prefix line ''#'' then b
      else let f = split_at tab line in
        if length f < 3 then b
        else let (secs, ok) = atoi (trim_space (f ! 2)) in
          if \<not> ok \<or> secs \<le> 0 then b
          else AList.update (trim_space (f ! 0)) (AList.update (trim_space (f ! 1)) secs (sub b (trim_space (f ! 0)))) b)"

definition LoadBudgets :: "string option \<Rightarrow> (int gomap) gomap" where
  "LoadBudgets f = (case f of None \<Rightarrow> [] | Some b \<Rightarrow> fold run_budget_row (scan_lines b) [])"

definition budget_for :: "(int gomap) gomap \<Rightarrow> string \<Rightarrow> string \<Rightarrow> int \<Rightarrow> int" where
  "budget_for b ws t def =
     (case map_of (sub b ws) t of
        Some v \<Rightarrow> v
      | None \<Rightarrow> (case map_of SlowDefaults t of Some v \<Rightarrow> v | None \<Rightarrow> def))"

text \<open>A coverage workspace is never capped.\<close>

fun sanitizer_coverage :: "string list \<Rightarrow> bool" where
  "sanitizer_coverage [] = False"
| "sanitizer_coverage (l # ls) =
     (let line = trim_space l in
      if has_prefix line ''sanitizer='' then trim_space (trim_prefix line ''sanitizer='') = ''coverage''
      else sanitizer_coverage ls)"

definition IsCoverageWorkspace :: "string option \<Rightarrow> bool" where
  "IsCoverageWorkspace f = (case f of None \<Rightarrow> False | Some b \<Rightarrow> sanitizer_coverage (split_at newline b))"

subsection \<open>what tuning does\<close>

definition had :: "string \<Rightarrow> target_log gomap \<Rightarrow> budgets \<Rightarrow> string \<Rightarrow> int" where
  "had ws per cur t = (case map_of cur (ws, t) of Some v \<Rightarrow> v | None \<Rightarrow> tg_budget (log_of per t))"

definition moves :: "string \<Rightarrow> target_log gomap \<Rightarrow> budgets \<Rightarrow> tune_options \<Rightarrow> string \<Rightarrow> bool" where
  "moves ws per cur tn t \<longleftrightarrow> tg_budget (log_of per t) \<noteq> 0 \<and> \<not> Locked (log_of per t) \<and>
     tuned tn (tg_new_units (log_of per t)) (had ws per cur t) \<noteq> had ws per cur t"

lemma tune_target_eq:
  "tune_target ws per tn t (cur, ch) =
     (if moves ws per cur tn t
      then (AList.update (ws, t) (tuned tn (tg_new_units (log_of per t)) (had ws per cur t)) cur,
            ch @ [\<lparr>bc_target = t, bc_was = had ws per cur t,
                   bc_want = tuned tn (tg_new_units (log_of per t)) (had ws per cur t),
                   bc_found = tg_new_units (log_of per t)\<rparr>])
      else (cur, ch))"
  by (simp add: tune_target_def moves_def had_def Let_def)

lemma had_update: "t' \<noteq> t \<Longrightarrow> had ws per (AList.update (ws, t) v cur) t' = had ws per cur t'"
  by (simp add: had_def)

lemma tune_fold:
  assumes "distinct ts"
  shows "map_of (fst (fold (tune_target ws per tn) ts (cur, ch))) k =
      (if fst k = ws \<and> snd k \<in> set ts \<and> moves ws per cur tn (snd k)
       then Some (tuned tn (tg_new_units (log_of per (snd k))) (had ws per cur (snd k))) else map_of cur k) \<and>
    snd (fold (tune_target ws per tn) ts (cur, ch)) = ch @ map (\<lambda>t. \<lparr>bc_target = t, bc_was = had ws per cur t,
       bc_want = tuned tn (tg_new_units (log_of per t)) (had ws per cur t),
       bc_found = tg_new_units (log_of per t)\<rparr>) (filter (moves ws per cur tn) ts)"
  using assms
proof (induction ts arbitrary: cur ch)
  case (Cons t ts)
  let ?w = "tuned tn (tg_new_units (log_of per t)) (had ws per cur t)"
  have same: "t' \<in> set ts \<Longrightarrow> had ws per (AList.update (ws, t) v cur) t' = had ws per cur t' \<and>
      moves ws per (AList.update (ws, t) v cur) tn t' = moves ws per cur tn t'" for t' v
    using Cons.prems by (auto simp: had_def moves_def)
  then have f: "filter (moves ws per (AList.update (ws, t) ?w cur) tn) ts = filter (moves ws per cur tn) ts"
    by (intro filter_cong) auto
  show ?case
  proof (cases "moves ws per cur tn t")
    case True
    then show ?thesis
      using Cons.IH [of "AList.update (ws, t) ?w cur"] Cons.prems same f
      by (auto simp: tune_target_eq prod_eq_iff)
  next
    case False
    then show ?thesis using Cons.IH [of cur ch] Cons.prems by (auto simp: tune_target_eq)
  qed
qed simp

text \<open>
  exactly what one tuning pass changes. Of this workspace's targets, those that ran with a budget, did
  not lock and whose tuned budget differs get it; every other entry, of this workspace or another,
  is untouched, and the report lists the changes, each once, in the order of the targets' names.
\<close>

theorem tune_effect:
  assumes "wf_map per"
  shows "map_of (fst (Tune ws per cur tn)) (w, t) =
      (if w = ws \<and> t \<in> dom (map_of per) \<and> moves ws per cur tn t
       then Some (tuned tn (tg_new_units (log_of per t)) (had ws per cur t)) else map_of cur (w, t)) \<and>
    map bc_target (snd (Tune ws per cur tn)) = filter (moves ws per cur tn) (sorted_keys per)"
  using tune_fold [OF distinct_sorted_keys [OF assms], of ws per tn cur "[]" "(w, t)"]
  by (simp add: Tune_def comp_def)

lemma f64_int_exact: "\<bar>n\<bar> \<le> 2 ^ 53 \<Longrightarrow> f64 (rat_of_int n) = rat_of_int n"
  using f64_of_int_exact [of n] by (simp add: f64_of_int_def)

lemma raise_ge: "0 \<le> n \<Longrightarrow> n \<le> 2 ^ 53 \<Longrightarrow> n \<le> f64_to_int (f64_mul (f64_of_int n) (3 / 2))"
proof -
  assume n: "0 \<le> n" "n \<le> 2 ^ 53"
  have e: "f64_of_int n = of_int n" using n by (simp add: f64_of_int_exact)
  have "f64 (of_int n) \<le> f64 (of_int n * (3 / 2))" by (rule f64_mono) (use n in simp)
  then have "of_int n \<le> f64_mul (f64_of_int n) (3 / 2)" using f64_int_exact [of n] n by (simp add: f64_mul_def e)
  then show ?thesis using n by (simp add: f64_to_int_def le_floor_iff)
qed

lemma lower_le: "0 \<le> n \<Longrightarrow> n \<le> 2 ^ 53 \<Longrightarrow> f64_to_int (f64_div (f64_of_int n) (3 / 2)) \<le> n"
proof -
  assume n: "0 \<le> n" "n \<le> 2 ^ 53"
  have e: "f64_of_int n = of_int n" using n by (simp add: f64_of_int_exact)
  have "f64 (of_int n / (3 / 2)) \<le> f64 (of_int n)" by (rule f64_mono) (use n in simp)
  then have le: "f64_div (f64_of_int n) (3 / 2) \<le> of_int n" using f64_int_exact [of n] n by (simp add: f64_div_def e)
  have "0 \<le> f64_div (f64_of_int n) (3 / 2)" using n by (simp add: f64_div_def e f64_nonneg)
  with le show ?thesis by (simp add: f64_to_int_def floor_le_iff)
qed

text \<open>
  tuning moves a budget in one direction and stays inside its limits, in the machine's binary64
  arithmetic. A productive target's budget never falls and never passes the maximum, an unproductive
  one's never rises and never passes the base, between the thresholds it stays; a budget already
  above the maximum is the exception, being productive brings it down to the maximum.
\<close>

theorem tuned_bounds:
  assumes "0 \<le> have_secs" and "have_secs \<le> 2 ^ 53" and "tn_low tn \<le> tn_high tn"
  shows "(found \<ge> tn_high tn \<longrightarrow> tuned tn found have_secs \<le> tn_max tn \<and>
            (have_secs \<le> tn_max tn \<longrightarrow> have_secs \<le> tuned tn found have_secs)) \<and>
         (found < tn_low tn \<longrightarrow> tn_base tn \<le> tuned tn found have_secs \<and>
            (tn_base tn \<le> have_secs \<longrightarrow> tuned tn found have_secs \<le> have_secs)) \<and>
         (tn_low tn \<le> found \<and> found < tn_high tn \<longrightarrow> tuned tn found have_secs = have_secs)"
  using raise_ge [OF assms(1,2)] lower_le [OF assms(1,2)] assms(3) by (auto simp: tuned_def)

theorem tuned_bounds_witness:
  "tuned DefaultTune 5000 90 = 135 \<and> 90 \<le> tuned DefaultTune 5000 90 \<and> tuned DefaultTune 5000 90 \<le> 600"
proof -
  have v: "tuned DefaultTune 5000 90 = 135" by code_simp
  then show ?thesis using tuned_bounds [of 90 DefaultTune 5000] by (simp add: DefaultTune_def)
qed

definition sample_per :: "target_log gomap" where
  "sample_per = [(''b_fuzzer'', empty_target_log\<lparr>tg_budget := 90, tg_new_units := 2500\<rparr>),
     (''a_fuzzer'', empty_target_log\<lparr>tg_budget := 90, tg_inited := Some 7, tg_done := Some 7\<rparr>)]"

theorem tune_effect_witness:
  "map_of (fst (Tune ''w'' sample_per [] DefaultTune)) (''w'', ''b_fuzzer'') = Some 135 \<and>
   map bc_target (snd (Tune ''w'' sample_per [] DefaultTune)) = [''b_fuzzer'']"
proof -
  have wf: "wf_map sample_per" by code_simp
  have m: "moves ''w'' sample_per [] DefaultTune ''b_fuzzer''" by code_simp
  have v: "tuned DefaultTune (tg_new_units (log_of sample_per ''b_fuzzer'')) (had ''w'' sample_per [] ''b_fuzzer'') = 135"
    by code_simp
  have d: "''b_fuzzer'' \<in> dom (map_of sample_per)" by (simp add: sample_per_def)
  have f: "filter (moves ''w'' sample_per [] DefaultTune) (sorted_keys sample_per) = [''b_fuzzer'']" by code_simp
  show ?thesis using tune_effect [OF wf, of "''w''" "[]" DefaultTune "''w''" "''b_fuzzer''"] m v d f by simp
qed

subsection \<open>the budgets file\<close>

definition clean_word :: "string \<Rightarrow> bool" where
  "clean_word w \<longleftrightarrow> w \<noteq> [] \<and> trim_space w = w \<and> set w \<inter> {tab, newline, CHR 0x0D} = {} \<and> hd w \<noteq> CHR ''#''"

definition clean_budgets :: "budgets \<Rightarrow> bool" where
  "clean_budgets b \<longleftrightarrow> wf_map b \<and> list_all (\<lambda>((w, t), v). clean_word w \<and> clean_word t \<and> 0 < v \<and> v \<le> max_int64) b"

definition budget_text :: "budgets \<Rightarrow> string \<times> string \<Rightarrow> string" where
  "budget_text b k = join [tab] [fst k, snd k, itoa (num b k)]"

lemma clean_key:
  "clean_budgets b \<Longrightarrow> k \<in> dom (map_of b) \<Longrightarrow>
   clean_word (fst k) \<and> clean_word (snd k) \<and> 0 < num b k \<and> num b k \<le> max_int64 \<and> map_of b k = Some (num b k)"
  by (auto simp: clean_budgets_def num_def list_all_iff dest!: map_of_SomeD)

lemma write_budgets_lines:
  "write_budgets b = unlines (butlast budget_head # map (budget_text b) (sorted_keys b))"
proof -
  have "budget_line k v = join [tab] [fst k, snd k, itoa v] @ [newline]" for k v by (simp add: budget_line_def)
  moreover have "budget_head = butlast budget_head @ [newline]" by (simp add: budget_head_def)
  ultimately show ?thesis by (simp add: write_budgets_def unlines_def budget_text_def comp_def)
qed

lemma itoa_clean: "set (itoa v) \<inter> {tab, newline, CHR 0x0D, CHR 0x23} = {}"
  using set_itoa [of v] by (auto simp: is_digit_def)

lemma clean_not_space: "clean_word w \<Longrightarrow> \<not> is_space (hd w) \<and> \<not> is_space (last w)"
  using trim_by_trimmed [of is_space w] by (auto simp: clean_word_def)

lemma budget_text_facts:
  assumes "clean_word (fst k)" and "clean_word (snd k)"
  shows "set (budget_text b k) \<inter> {newline, CHR 0x0D} = {}"
    and "split_at tab (budget_text b k) = [fst k, snd k, itoa (num b k)]"
    and "trim_space (budget_text b k) = budget_text b k"
    and "\<not> has_prefix (budget_text b k) ''#''" and "budget_text b k \<noteq> []"
proof -
  show "set (budget_text b k) \<inter> {newline, CHR 0x0D} = {}"
    using assms itoa_clean [of "num b k"] by (auto simp: budget_text_def clean_word_def)
  show "split_at tab (budget_text b k) = [fst k, snd k, itoa (num b k)]"
    unfolding budget_text_def using assms itoa_clean [of "num b k"] by (intro split_at_join) (auto simp: clean_word_def)
  have h: "budget_text b k \<noteq> []" "hd (budget_text b k) = hd (fst k)" "last (budget_text b k) = last (itoa (num b k))"
    using assms by (auto simp: budget_text_def clean_word_def)
  show "budget_text b k \<noteq> []" by (rule h(1))
  show "\<not> has_prefix (budget_text b k) ''#''"
    using h assms(1) by (cases "budget_text b k") (auto simp: clean_word_def)
  have "\<not> is_space (last (itoa (num b k)))"
    using trim_by_trimmed [of is_space "itoa (num b k)"] by simp
  then show "trim_space (budget_text b k) = budget_text b k"
    using h clean_not_space [OF assms(1)] by (intro trim_by_id) auto
qed

lemma head_facts:
  "set (butlast budget_head) \<inter> {newline, CHR 0x0D} = {}" "has_prefix (butlast budget_head) ''#''"
  "trim_space (butlast budget_head) = butlast budget_head"
  by code_simp+

lemma put_all_keys:
  "distinct ks \<Longrightarrow> map_of (fold (\<lambda>k. AList.update k (f k)) ks m) x = (if x \<in> set ks then Some (f x) else map_of m x)"
  by (induction ks arbitrary: m) auto

lemma read_written:
  assumes "clean_budgets b"
  shows "map_of (ReadBudgets (Some (write_budgets b))) k = map_of b k"
proof -
  let ?ks = "sorted_keys b"
  have ks: "\<forall>k \<in> set ?ks. clean_word (fst k) \<and> clean_word (snd k) \<and> num b k \<le> max_int64 \<and> 0 < num b k"
    using clean_key [OF assms] by auto
  have nl: "\<forall>l \<in> set (butlast budget_head # map (budget_text b) ?ks). newline \<notin> set l"
    using ks budget_text_facts(1) head_facts(1) by fastforce
  have row: "budget_row (budget_text b k) m = AList.update k (num b k) m"
    if "k \<in> set ?ks" for k m
  proof -
    have c: "clean_word (fst k)" "clean_word (snd k)" "num b k \<le> max_int64" "0 < num b k" using that ks by auto
    then have "atoi (itoa (num b k)) = (num b k, True)" by (intro atoi_itoa) (simp_all add: max_int64_def)
    then show ?thesis using budget_text_facts [OF c(1,2), of b] by (simp add: budget_row_def Let_def)
  qed
  have rows: "fold budget_row (map (budget_text b) ks) m = fold (\<lambda>k. AList.update k (num b k)) ks m"
    if "set ks \<subseteq> set ?ks" for ks m
    using that row by (induction ks arbitrary: m) auto
  have "ReadBudgets (Some (write_budgets b)) = fold (\<lambda>k. AList.update k (num b k)) ?ks []"
    using rows [of ?ks] head_facts(2)
    by (simp add: ReadBudgets_def write_budgets_lines split_at_unlines [OF nl] budget_row_def trim_by_def)
  moreover have "distinct ?ks" using assms by (simp add: clean_budgets_def distinct_sorted_keys)
  ultimately show ?thesis
    using clean_key [OF assms, of k] put_all_keys [of ?ks "num b" "[]" k] by (auto simp: domIff)
qed

lemma load_written:
  assumes "clean_budgets b"
  shows "map_of (sub (LoadBudgets (Some (write_budgets b))) w) t = map_of b (w, t)"
proof -
  let ?ks = "sorted_keys b"
  let ?put = "\<lambda>k m. AList.update (fst k) (AList.update (snd k) (num b k) (sub m (fst k))) m"
  have ks: "\<forall>k \<in> set ?ks. clean_word (fst k) \<and> clean_word (snd k) \<and> num b k \<le> max_int64 \<and> 0 < num b k"
    using clean_key [OF assms] by auto
  have nl: "\<forall>l \<in> set (butlast budget_head # map (budget_text b) ?ks). set l \<inter> {newline, CHR 0x0D} = {}"
    using ks budget_text_facts(1) head_facts(1) by auto
  have row: "run_budget_row (budget_text b k) m = ?put k m" if "k \<in> set ?ks" for k m
  proof -
    have c: "clean_word (fst k)" "clean_word (snd k)" "num b k \<le> max_int64" "0 < num b k" using that ks by auto
    then have "trim_space (fst k) = fst k" "trim_space (snd k) = snd k" by (simp_all add: clean_word_def)
    moreover have "atoi (itoa (num b k)) = (num b k, True)" using c by (intro atoi_itoa) (simp_all add: max_int64_def)
    ultimately show ?thesis using c(4) budget_text_facts [OF c(1,2), of b]
      by (simp add: run_budget_row_def Let_def)
  qed
  have rows: "fold run_budget_row (map (budget_text b) ks) m = fold ?put ks m" if "set ks \<subseteq> set ?ks" for ks m
    using that row by (induction ks arbitrary: m) auto
  have "run_budget_row (butlast budget_head) m = m" for m
    using head_facts by (simp add: run_budget_row_def Let_def)
  then have l: "LoadBudgets (Some (write_budgets b)) = fold ?put ?ks []"
    using rows [of ?ks] by (simp add: LoadBudgets_def write_budgets_lines scan_lines_unlines [OF nl])
  have "map_of (sub (fold ?put ks m) w) t = (if (w, t) \<in> set ks then Some (num b (w, t)) else map_of (sub m w) t)"
    for ks m by (induction ks arbitrary: m rule: rev_induct) auto
  then show ?thesis unfolding l using clean_key [OF assms, of "(w, t)"] by (auto simp: domIff)
qed

text \<open>
  C39: the budgets survive their file, for both of its readers. What the tuner writes, with workspace and
  target names free of tabs and line ends, the tuner reads back entry for entry, and the runner, a
  separate reader of another package, runs each target with exactly the tuned seconds and falls
  back on its own defaults for the targets the table does not name.
\<close>

theorem budgets_roundtrip:
  assumes "clean_budgets b"
  shows "map_of (ReadBudgets (Some (write_budgets b))) (w, t) = map_of b (w, t) \<and>
    budget_for (LoadBudgets (Some (write_budgets b))) w t def =
      (case map_of b (w, t) of Some v \<Rightarrow> v
       | None \<Rightarrow> (case map_of SlowDefaults t of Some v \<Rightarrow> v | None \<Rightarrow> def))"
  using read_written [OF assms] load_written [OF assms] by (simp add: budget_for_def)

theorem budgets_roundtrip_witness:
  "map_of (ReadBudgets (Some (write_budgets [((''w'', ''a_fuzzer''), 135)]))) (''w'', ''a_fuzzer'') = Some 135 \<and>
   budget_for (LoadBudgets (Some (write_budgets [((''w'', ''a_fuzzer''), 135)]))) ''w'' ''spi_query_fuzzer'' 90 = 150"
proof -
  have c: "clean_budgets [((''w'', ''a_fuzzer''), 135)]" by code_simp
  show ?thesis
    using budgets_roundtrip [OF c, of "''w''" "''a_fuzzer''" 90] budgets_roundtrip [OF c, of "''w''" "''spi_query_fuzzer''" 90]
    by (simp add: SlowDefaults_def)
qed

subsection \<open>a sweep log without banners it knows\<close>

lemma reBanner_last: "find_re reBanner l = Some m \<Longrightarrow> l \<noteq> [] \<and> last l = CHR ''-''"
proof (rule find_re_last)
  show "ends_in reBanner (\<lambda>c. c = CHR ''-'')"
    unfolding reBanner_def seqs.simps dashes_def by (intro ends_in_seq ends_in_eol ends_in_plus)
  show "to_end reBanner" unfolding reBanner_def seqs.simps by (intro to_end_seq to_end_eol)
qed

text \<open>
  No line that ends in anything but a dash is a banner, so the log of a Go sweep, whose banners end in
  the slice counter, yields no target at all and nothing is ever capped or tuned from it.
\<close>

lemma unbannered_log_unread:
  assumes "\<forall>l \<in> set (scan_lines body). trim_space (strip (trim_cr l)) = [] \<or> last (trim_space (strip (trim_cr l))) \<noteq> CHR ''-''"
  shows "ParseSweepForCap body = [] \<and> Autocap live (ParseSweepForCap body) ao = []"
proof -
  have "fold cap_line ls (None, []) = (None, [])"
    if "\<forall>l \<in> set ls. trim_space (strip (trim_cr l)) = [] \<or> last (trim_space (strip (trim_cr l))) \<noteq> CHR ''-''" for ls
    using that
  proof (induction ls)
    case (Cons l ls)
    then have "find_re reBanner (trim_space (strip (trim_cr l))) = None"
      using reBanner_last [of "trim_space (strip (trim_cr l))"] by (cases "find_re reBanner (trim_space (strip (trim_cr l)))") auto
    then show ?case using Cons by (simp add: cap_line_def Let_def)
  qed simp
  then have "ParseSweepForCap body = []" using assms by (simp add: ParseSweepForCap_def)
  then show ?thesis by (simp add: Autocap_def sorted_keys_def)
qed

end
