(* ===== verification/Minimize.thy ===== *)
theory Minimize
  imports Corpus_Cap
begin

text \<open>
  Shrinking a corpus (\<open>internal/corpus/minimize.go\<close>) and the command that caps one workspace
  (\<open>corpusAutocap\<close> in \<open>cmd/pgfuzz/main.go\<close>). The disk is the target's corpus directory and the
  backups; what the merge run produces and which renames succeed is the environment of the call.
\<close>

record ent =
  fe_name :: string
  fe_dir :: bool
  fe_size :: "int option"

text \<open>The size is missing when \<open>Info\<close> fails.\<close>

record disk =
  dk_src :: "ent list option"
  dk_backups :: "(ent list) gomap"

record min_options =
  mo_max_len :: int
  mo_cap :: int
  mo_cap_only :: bool

record min_env =
  me_binary :: bool
  me_mkdir :: bool
  me_mkdst :: bool
  me_merge :: "ent list option"
  me_move_old :: bool
  me_swap :: bool
  me_capdir :: bool
  me_readdir :: bool
  me_move :: "string \<Rightarrow> bool"
  me_sorter :: "ent list \<Rightarrow> ent list"
  me_stamp :: string

datatype skip = NoCorpus | NoBinary | Empty

datatype reason = MergeFailed | MergeEmpty | NoReduction

record min_result =
  mr_before :: int
  mr_after :: int
  mr_archived :: int
  mr_backup :: string
  mr_skipped :: "skip option"
  mr_reason :: "reason option"
  mr_error :: bool

definition no_result :: min_result where
  "no_result = \<lparr>mr_before = 0, mr_after = 0, mr_archived = 0, mr_backup = [], mr_skipped = None, mr_reason = None,
     mr_error = False\<rparr>"

definition countFiles :: "ent list option \<Rightarrow> int" where
  "countFiles d = (case d of None \<Rightarrow> 0 | Some es \<Rightarrow> int (length (filter (\<lambda>e. \<not> fe_dir e) es)))"

definition the_size :: "ent \<Rightarrow> int" where
  "the_size e = (case fe_size e of Some n \<Rightarrow> n | None \<Rightarrow> 0)"

text \<open>One rename of the cap: an entry of the same name in the backup is replaced.\<close>

definition archive :: "min_env \<Rightarrow> ent \<Rightarrow> ent list \<times> ent list \<times> int \<Rightarrow> ent list \<times> ent list \<times> int" where
  "archive env e = (\<lambda>(src, bak, n).
     (if me_move env (fe_name e)
      then (filter (\<lambda>x. fe_name x \<noteq> fe_name e) src, filter (\<lambda>x. fe_name x \<noteq> fe_name e) bak @ [e], n + 1)
      else (src, bak, n)))"

definition cap_key :: "string \<Rightarrow> min_env \<Rightarrow> string" where
  "cap_key t env = t @ ''.capped.'' @ me_stamp env"

definition premin_key :: "string \<Rightarrow> min_env \<Rightarrow> string" where
  "premin_key t env = t @ ''.premin.'' @ me_stamp env"

definition regular :: "ent list \<Rightarrow> ent list" where
  "regular es = filter (\<lambda>e. \<not> fe_dir e \<and> fe_size e \<noteq> None) es"

definition kept_sizes :: "min_options \<Rightarrow> ent list \<Rightarrow> ent list" where
  "kept_sizes mo es = filter (\<lambda>e. \<not> the_size e > mo_max_len mo) (regular es)"

definition to_drop :: "min_env \<Rightarrow> min_options \<Rightarrow> ent list \<Rightarrow> ent list" where
  "to_drop env mo es =
     (let kept = kept_sizes mo es
      in if int (length kept) > mo_cap mo then drop (nat (mo_cap mo)) (me_sorter env kept) else [])"

definition applyCap :: "string \<Rightarrow> min_env \<Rightarrow> min_options \<Rightarrow> disk \<Rightarrow> disk \<times> int \<times> string \<times> bool" where
  "applyCap t env mo d =
     (if mo_cap mo \<le> 0 then (d, 0, [], False)
      else if \<not> me_capdir env then (d, 0, [], True)
      else if \<not> me_readdir env \<or> dk_src d = None then (d, 0, [], True)
      else
        let es = the (dk_src d);
            st1 = fold (archive env) (filter (\<lambda>e. the_size e > mo_max_len mo) (regular es)) (es, sub (dk_backups d) (cap_key t env), 0);
            (src, bak, n) = fold (archive env) (to_drop env mo es) st1
        in if n = 0 then (d, 0, [], False)
           else (d\<lparr>dk_src := Some src, dk_backups := AList.update (cap_key t env) bak (dk_backups d)\<rparr>, n, cap_key t env, False))"

definition Minimize :: "string \<Rightarrow> min_env \<Rightarrow> min_options \<Rightarrow> disk \<Rightarrow> disk \<times> min_result" where
  "Minimize t env mo0 d =
     (let mo = (if mo_max_len mo0 = 0 then mo0\<lparr>mo_max_len := 4096\<rparr> else mo0);
          before = countFiles (dk_src d); r = no_result\<lparr>mr_before := before\<rparr>
      in if dk_src d = None then (d, no_result\<lparr>mr_skipped := Some NoCorpus\<rparr>)
         else if \<not> me_binary env then (d, no_result\<lparr>mr_skipped := Some NoBinary\<rparr>)
         else if before = 0 then (d, r\<lparr>mr_skipped := Some Empty\<rparr>)
         else if \<not> me_mkdir env then (d, r\<lparr>mr_error := True\<rparr>)
         else if mo_cap_only mo then
           (let (d1, n, bak, e) = applyCap t env mo d
            in (d1, r\<lparr>mr_archived := n, mr_backup := bak, mr_after := countFiles (dk_src d1), mr_error := e\<rparr>))
         else if \<not> me_mkdst env then (d, r\<lparr>mr_error := True\<rparr>)
         else case me_merge env of
                None \<Rightarrow> (d, r\<lparr>mr_reason := Some MergeFailed, mr_error := True\<rparr>)
              | Some dst \<Rightarrow>
                  if countFiles (Some dst) = 0 then (d, r\<lparr>mr_after := before, mr_reason := Some MergeEmpty\<rparr>)
                  else if countFiles (Some dst) \<ge> before then (d, r\<lparr>mr_after := before, mr_reason := Some NoReduction\<rparr>)
                  else if \<not> me_move_old env then (d, r\<lparr>mr_error := True\<rparr>)
                  else
                    let moved = d\<lparr>dk_src := None, dk_backups := AList.update (premin_key t env) (the (dk_src d)) (dk_backups d)\<rparr>
                    in if \<not> me_swap env then (moved, r\<lparr>mr_error := True\<rparr>)
                       else
                         let (d1, n, bak, e) = applyCap t env mo (moved\<lparr>dk_src := Some dst\<rparr>)
                         in (d1, r\<lparr>mr_archived := n, mr_after := countFiles (dk_src d1), mr_error := e,
                               mr_backup := premin_key t env @ (if bak \<noteq> [] then '' and '' @ bak else [])\<rparr>))"

text \<open>A rename onto a directory that exists and is not empty fails, so the old corpus is never moved over a backup.\<close>

definition sane_cap :: "string \<Rightarrow> min_env \<Rightarrow> disk \<Rightarrow> bool" where
  "sane_cap t env d \<longleftrightarrow> map_of (dk_backups d) (cap_key t env) = None \<and>
     (case dk_src d of None \<Rightarrow> True | Some es \<Rightarrow> distinct (map fe_name es)) \<and>
     (\<forall>xs. mset (me_sorter env xs) = mset xs)"

definition sane :: "string \<Rightarrow> min_env \<Rightarrow> disk \<Rightarrow> bool" where
  "sane t env d \<longleftrightarrow> sane_cap t env d \<and>
     (me_move_old env \<longrightarrow> map_of (dk_backups d) (premin_key t env) = None) \<and>
     (case me_merge env of None \<Rightarrow> True | Some es \<Rightarrow> distinct (map fe_name es))"

subsection \<open>nothing is lost\<close>

definition on_disk :: "disk \<Rightarrow> ent set" where
  "on_disk d = (case dk_src d of None \<Rightarrow> {} | Some es \<Rightarrow> set es) \<union> (\<Union>(_, es) \<in> set (dk_backups d). set es)"

text \<open>The two piles of the cap never share a name and together hold what there was.\<close>

definition piles :: "ent set \<Rightarrow> ent list \<times> ent list \<times> int \<Rightarrow> bool" where
  "piles E = (\<lambda>(src, bak, n). set src \<union> set bak = E \<and> fe_name ` set src \<inter> fe_name ` set bak = {} \<and>
     n = int (length bak) \<and> distinct (map fe_name bak) \<and> distinct (map fe_name src))"

lemma archive_piles:
  assumes "piles E st" and "inj_on fe_name E" and "e \<in> E" and "e \<notin> set (fst (snd st))"
  shows "piles E (archive env e st)"
    and "set (fst (archive env e st)) = (if me_move env (fe_name e) then set (fst st) - {e} else set (fst st))"
    and "set (fst (snd (archive env e st))) = (if me_move env (fe_name e) then insert e (set (fst (snd st))) else set (fst (snd st)))"
proof -
  obtain src bak n where st: "st = (src, bak, n)" by (cases st)
  have E: "set src \<union> set bak = E" "fe_name ` set src \<inter> fe_name ` set bak = {}" using assms(1) st by (auto simp: piles_def)
  have nb: "\<forall>x \<in> set bak. fe_name x \<noteq> fe_name e"
    using assms(2-4) E(1) st by (auto dest: inj_onD)
  then have bak: "filter (\<lambda>x. fe_name x \<noteq> fe_name e) bak = bak" by (intro filter_True) auto
  have src: "{x \<in> set src. fe_name x \<noteq> fe_name e} = set src - {e}"
    using assms(2,3) E(1) by (auto dest: inj_onD)
  show "set (fst (archive env e st)) = (if me_move env (fe_name e) then set (fst st) - {e} else set (fst st))"
    "set (fst (snd (archive env e st))) = (if me_move env (fe_name e) then insert e (set (fst (snd st))) else set (fst (snd st)))"
    using bak src by (auto simp: st archive_def)
  show "piles E (archive env e st)"
    using assms(1,3) bak src nb by (auto simp: st archive_def piles_def distinct_map_filter)
qed

lemma archive_all:
  assumes "piles E st" and "inj_on fe_name E" and "distinct es" and "set es \<subseteq> E" and "set es \<inter> set (fst (snd st)) = {}"
  shows "piles E (fold (archive env) es st) \<and>
    set (fst (snd (fold (archive env) es st))) = set (fst (snd st)) \<union> {e \<in> set es. me_move env (fe_name e)} \<and>
    set (fst (fold (archive env) es st)) = set (fst st) - {e \<in> set es. me_move env (fe_name e)}"
  using assms(1,3-5)
proof (induction es arbitrary: st)
  case (Cons e es)
  note one = archive_piles [OF Cons.prems(1) assms(2), of e env]
  have e: "e \<in> E" "e \<notin> set (fst (snd st))" using Cons.prems by auto
  have "set es \<inter> set (fst (snd (archive env e st))) = {}" using Cons.prems one(3) [OF e] by auto
  from Cons.IH [OF one(1) [OF e] _ _ this] Cons.prems one(2,3) [OF e] show ?case by auto
qed simp

lemma update_new_key: "map_of m k = None \<Longrightarrow> set (AList.update k v m) = insert (k, v) (set m)"
  by (induction m) (auto split: if_splits)

lemma regular_sub: "set (regular es) \<subseteq> set es" "distinct es \<Longrightarrow> distinct (regular es)"
  by (auto simp: regular_def)

lemma to_drop_sub: "mset (me_sorter env (kept_sizes mo es)) = mset (kept_sizes mo es) \<Longrightarrow>
  set (to_drop env mo es) \<subseteq> set (kept_sizes mo es) \<and> (distinct es \<longrightarrow> distinct (to_drop env mo es))"
proof -
  assume m: "mset (me_sorter env (kept_sizes mo es)) = mset (kept_sizes mo es)"
  then have "set (me_sorter env (kept_sizes mo es)) = set (kept_sizes mo es)" by (metis set_mset_mset)
  moreover have "distinct es \<longrightarrow> distinct (me_sorter env (kept_sizes mo es))"
    using m by (metis kept_sizes_def distinct_filter mset_eq_imp_distinct_iff regular_sub(2))
  ultimately show ?thesis by (auto simp: to_drop_def Let_def dest: in_set_dropD)
qed

text \<open>What the cap leaves and what it archives, when it gets as far as moving files.\<close>

lemma applyCap_moves:
  assumes "sane_cap t env d" and "dk_src d = Some es" and "0 < mo_cap mo" and "me_capdir env" and "me_readdir env"
  defines "gone \<equiv> {e \<in> set (filter (\<lambda>e. the_size e > mo_max_len mo) (regular es)) \<union> set (to_drop env mo es). me_move env (fe_name e)}"
  shows "\<exists>src bak n b. applyCap t env mo d =
      ((if n = 0 then d else d\<lparr>dk_src := Some src, dk_backups := AList.update (cap_key t env) bak (dk_backups d)\<rparr>), n, b, False) \<and>
    set src = set es - gone \<and> set bak = gone \<and> distinct (map fe_name src) \<and> (n = 0 \<longrightarrow> gone = {})"
proof -
  let ?long = "filter (\<lambda>e. the_size e > mo_max_len mo) (regular es)"
  have dn: "distinct (map fe_name es)" using assms(1,2) by (simp add: sane_cap_def)
  then have inj: "inj_on fe_name (set es)" and de: "distinct es" by (simp_all add: distinct_map)
  have bak0: "sub (dk_backups d) (cap_key t env) = []" using assms(1) by (simp add: sane_cap_def sub_def)
  have p0: "piles (set es) (es, [], 0)" using dn by (simp add: piles_def)
  have m: "mset (me_sorter env (kept_sizes mo es)) = mset (kept_sizes mo es)" using assms(1) by (simp add: sane_cap_def)
  note drop = to_drop_sub [OF m]
  have l: "distinct ?long" "set ?long \<subseteq> set es" using de regular_sub [of es] by auto
  note a1 = archive_all [OF p0 inj l, of env, simplified]
  have disj: "set (to_drop env mo es) \<inter> set (fst (snd (fold (archive env) ?long (es, [], 0)))) = {}"
    using a1 drop by (auto simp: kept_sizes_def)
  have sub: "set (to_drop env mo es) \<subseteq> set es" using drop regular_sub(1) [of es] by (auto simp: kept_sizes_def)
  note a2 = archive_all [OF _ inj _ sub disj, of env]
  obtain src bak n where r: "fold (archive env) (to_drop env mo es) (fold (archive env) ?long (es, [], 0)) = (src, bak, n)"
    by (cases "fold (archive env) (to_drop env mo es) (fold (archive env) ?long (es, [], 0))")
  have final: "piles (set es) (src, bak, n)" "set bak = gone" "set src = set es - gone"
    using a1 a2 drop de r unfolding gone_def by auto
  have "distinct (map fe_name src)" "n = 0 \<longrightarrow> gone = {}" using final by (auto simp: piles_def)
  moreover have "applyCap t env mo d =
      ((if n = 0 then d else d\<lparr>dk_src := Some src, dk_backups := AList.update (cap_key t env) bak (dk_backups d)\<rparr>), n,
       (if n = 0 then [] else cap_key t env), False)"
    using assms(2-5) bak0 r by (simp add: applyCap_def Let_def)
  ultimately show ?thesis using final by blast
qed

lemma applyCap_on_disk: "sane_cap t env d \<Longrightarrow> on_disk (fst (applyCap t env mo d)) = on_disk d"
proof -
  assume s: "sane_cap t env d"
  show ?thesis
  proof (cases "0 < mo_cap mo \<and> me_capdir env \<and> me_readdir env \<and> dk_src d \<noteq> None")
    case True
    then obtain es where es: "dk_src d = Some es" by auto
    let ?gone = "{e \<in> set (filter (\<lambda>e. the_size e > mo_max_len mo) (regular es)) \<union> set (to_drop env mo es). me_move env (fe_name e)}"
    obtain src bak n b where a: "applyCap t env mo d =
        ((if n = 0 then d else d\<lparr>dk_src := Some src, dk_backups := AList.update (cap_key t env) bak (dk_backups d)\<rparr>), n, b, False)"
      "set src = set es - ?gone" "set bak = ?gone"
      using applyCap_moves [OF s es, of mo] True by auto
    have "set (to_drop env mo es) \<subseteq> set es"
      using s to_drop_sub [of env mo es] regular_sub(1) [of es] by (auto simp: kept_sizes_def sane_cap_def)
    then have "?gone \<subseteq> set es" using regular_sub(1) [of es] by auto
    with a s es show ?thesis by (auto simp: on_disk_def sane_cap_def update_new_key)
  qed (auto simp: applyCap_def)
qed

text \<open>
  C6: minimising never loses an input. Whatever the merge produced or failed to produce, whichever renames
  fail, and whether a cap follows or not, every file of the corpus and of the backups is still on
  disk afterwards, in the corpus or in a backup.
\<close>

theorem minimize_loses_nothing:
  assumes "sane t env d"
  shows "on_disk d \<subseteq> on_disk (fst (Minimize t env mo d))"
proof -
  define mo' where "mo' = (if mo_max_len mo = 0 then mo\<lparr>mo_max_len := 4096\<rparr> else mo)"
  show ?thesis
  proof (cases "dk_src d = None \<or> \<not> me_binary env \<or> countFiles (dk_src d) = 0 \<or> \<not> me_mkdir env")
    case True
    then show ?thesis unfolding Minimize_def Let_def by auto
  next
    case go: False
    then obtain es where es: "dk_src d = Some es" by auto
    show ?thesis
    proof (cases "mo_cap_only mo'")
      case True
      then have "fst (Minimize t env mo d) = fst (applyCap t env mo' d)"
        using go es by (simp add: Minimize_def Let_def mo'_def [symmetric] split: prod.split)
      then show ?thesis using applyCap_on_disk [of t env d] assms by (simp add: sane_def)
    next
      case merge: False
      show ?thesis
      proof (cases "\<not> me_mkdst env \<or> me_merge env = None \<or> countFiles (me_merge env) = 0 \<or>
          countFiles (me_merge env) \<ge> countFiles (dk_src d) \<or> \<not> me_move_old env")
        case True
        then have "fst (Minimize t env mo d) = d"
          using go merge by (auto simp: Minimize_def Let_def mo'_def [symmetric] split: option.split)
        then show ?thesis by simp
      next
        case False
        then obtain dst where dst: "me_merge env = Some dst" by auto
        let ?moved = "d\<lparr>dk_src := None, dk_backups := AList.update (premin_key t env) es (dk_backups d)\<rparr>"
        have new: "map_of (dk_backups d) (premin_key t env) = None" using assms False by (simp add: sane_def)
        have kept: "on_disk d \<subseteq> on_disk ?moved"
          using es new by (auto simp: on_disk_def update_new_key)
        have "fst (Minimize t env mo d) = (if me_swap env then fst (applyCap t env mo' (?moved\<lparr>dk_src := Some dst\<rparr>)) else ?moved)"
          using go merge False dst es by (simp add: Minimize_def Let_def mo'_def [symmetric] split: prod.split)
        moreover have "cap_key t env \<noteq> premin_key t env" by (simp add: cap_key_def premin_key_def)
        then have "sane_cap t env (?moved\<lparr>dk_src := Some dst\<rparr>)" using assms dst by (simp add: sane_def sane_cap_def)
        then have "on_disk (fst (applyCap t env mo' (?moved\<lparr>dk_src := Some dst\<rparr>))) = on_disk (?moved\<lparr>dk_src := Some dst\<rparr>)"
          by (rule applyCap_on_disk)
        moreover have "on_disk ?moved \<subseteq> on_disk (?moved\<lparr>dk_src := Some dst\<rparr>)" by (auto simp: on_disk_def)
        ultimately show ?thesis using kept by auto
      qed
    qed
  qed
qed

definition small_files :: "ent list" where
  "small_files = [\<lparr>fe_name = ''a'', fe_dir = False, fe_size = Some 9\<rparr>, \<lparr>fe_name = ''b'', fe_dir = False, fe_size = Some 3\<rparr>,
     \<lparr>fe_name = ''c'', fe_dir = False, fe_size = Some 5000\<rparr>]"

definition small_disk :: disk where
  "small_disk = \<lparr>dk_src = Some small_files, dk_backups = []\<rparr>"

definition calm_env :: min_env where
  "calm_env = \<lparr>me_binary = True, me_mkdir = True, me_mkdst = True, me_merge = Some (butlast small_files), me_move_old = True,
     me_swap = True, me_capdir = True, me_readdir = True, me_move = (\<lambda>n. n \<noteq> ''b''), me_sorter = sort_key the_size,
     me_stamp = ''20250101-000000''\<rparr>"

lemma calm_sane: "sane ''t'' calm_env small_disk"
  by (simp add: sane_def sane_cap_def calm_env_def small_disk_def small_files_def)

theorem minimize_loses_nothing_witness:
  "on_disk small_disk \<subseteq> on_disk (fst (Minimize ''t'' calm_env \<lparr>mo_max_len = 0, mo_cap = 1, mo_cap_only = False\<rparr> small_disk)) \<and>
   mr_archived (snd (Minimize ''t'' calm_env \<lparr>mo_max_len = 0, mo_cap = 1, mo_cap_only = False\<rparr> small_disk)) = 1"
proof
  show "on_disk small_disk \<subseteq> on_disk (fst (Minimize ''t'' calm_env \<lparr>mo_max_len = 0, mo_cap = 1, mo_cap_only = False\<rparr> small_disk))"
    by (rule minimize_loses_nothing [OF calm_sane])
  show "mr_archived (snd (Minimize ''t'' calm_env \<lparr>mo_max_len = 0, mo_cap = 1, mo_cap_only = False\<rparr> small_disk)) = 1"
    by code_simp
qed

subsection \<open>what a cap leaves\<close>

lemma regular_set: "set (regular es) = {e \<in> set es. \<not> fe_dir e \<and> fe_size e \<noteq> None}"
  by (simp add: regular_def)

text \<open>
  the cap is kept, and it keeps the smallest. When every rename succeeds, at most \<open>Cap\<close> sized files are
  left, none longer than the length limit, and no file it archived although it was short enough is
  smaller than one it kept.
\<close>

theorem cap_keeps_smallest:
  assumes "sane_cap t env d" and "dk_src d = Some es" and "0 < mo_cap mo" and "me_capdir env" and "me_readdir env"
    and "\<forall>n. me_move env n" and "\<forall>xs. sorted (map the_size (me_sorter env xs))"
  shows "\<exists>src. dk_src (fst (applyCap t env mo d)) = Some src \<and>
    int (card (set (regular src))) \<le> mo_cap mo \<and> (\<forall>e \<in> set (regular src). the_size e \<le> mo_max_len mo) \<and>
    (\<forall>e \<in> set (regular src). \<forall>x \<in> set (regular es) - set src. the_size x \<le> mo_max_len mo \<longrightarrow> the_size e \<le> the_size x)"
proof -
  let ?long = "filter (\<lambda>e. the_size e > mo_max_len mo) (regular es)"
  let ?kept = "kept_sizes mo es"
  let ?sorted = "me_sorter env ?kept"
  have g: "{e \<in> set ?long \<union> set (to_drop env mo es). me_move env (fe_name e)} = set ?long \<union> set (to_drop env mo es)"
    using assms(6) by auto
  obtain src bak n b where a: "applyCap t env mo d =
      ((if n = 0 then d else d\<lparr>dk_src := Some src, dk_backups := AList.update (cap_key t env) bak (dk_backups d)\<rparr>), n, b, False)"
    "set src = set es - (set ?long \<union> set (to_drop env mo es))" "n = 0 \<longrightarrow> set ?long \<union> set (to_drop env mo es) = {}"
    using applyCap_moves [OF assms(1-5)] unfolding g by blast
  obtain src' where src': "dk_src (fst (applyCap t env mo d)) = Some src'" "set src' = set src"
    using a assms(2) by (cases "n = 0") auto
  have m: "mset ?sorted = mset ?kept" using assms(1) by (simp add: sane_cap_def)
  then have ss: "set ?sorted = set ?kept" by (metis set_mset_mset)
  have dk: "distinct ?kept" using assms(1,2) by (auto simp: sane_cap_def kept_sizes_def regular_def distinct_map)
  then have ds: "distinct ?sorted" using m by (metis mset_eq_imp_distinct_iff)
  have reg: "set (regular src') = set ?kept - set (to_drop env mo es)"
    unfolding regular_set src'(2) a(2) by (auto simp: kept_sizes_def regular_def)
  let ?k = "nat (mo_cap mo)"
  have td: "set (to_drop env mo es) = set (drop ?k ?sorted)"
  proof (cases "int (length ?kept) > mo_cap mo")
    case False
    then have "drop ?k ?sorted = []" using mset_eq_length [OF m] by simp
    with False show ?thesis by (simp add: to_drop_def Let_def)
  qed (simp add: to_drop_def Let_def)
  have split: "set ?sorted = set (take ?k ?sorted) \<union> set (drop ?k ?sorted)" "set (take ?k ?sorted) \<inter> set (drop ?k ?sorted) = {}"
    using ds by (metis append_take_drop_id set_append, metis append_take_drop_id distinct_append)
  have left: "set (regular src') = set (take ?k ?sorted)" using reg td split ss by auto
  have "card (set (regular src')) \<le> ?k" unfolding left by (metis card_length le_trans length_take min.cobounded2)
  then have "int (card (set (regular src'))) \<le> mo_cap mo" using assms(3) by linarith
  moreover have "\<forall>e \<in> set (regular src'). the_size e \<le> mo_max_len mo" using reg by (auto simp: kept_sizes_def)
  moreover have "the_size e \<le> the_size x"
    if "e \<in> set (regular src')" "x \<in> set (regular es) - set src'" "the_size x \<le> mo_max_len mo" for e x
  proof -
    have "x \<in> set (to_drop env mo es)" using that(2,3) src'(2) a(2) regular_sub(1) [of es] by auto
    then have x: "the_size x \<in> set (map the_size (drop ?k ?sorted))" unfolding td set_map by (rule imageI)
    have e: "the_size e \<in> set (map the_size (take ?k ?sorted))" using that(1) unfolding left set_map by (rule imageI)
    have "sorted (map the_size (take ?k ?sorted) @ map the_size (drop ?k ?sorted))"
      unfolding map_append [symmetric] append_take_drop_id using assms(7) by blast
    with x e show ?thesis unfolding sorted_append by blast
  qed
  ultimately show ?thesis using src'(1) by blast
qed

theorem cap_keeps_smallest_witness:
  "dk_src (fst (applyCap ''t'' (calm_env\<lparr>me_move := \<lambda>_. True\<rparr>) \<lparr>mo_max_len = 4096, mo_cap = 1, mo_cap_only = True\<rparr> small_disk)) =
     Some [\<lparr>fe_name = ''b'', fe_dir = False, fe_size = Some 3\<rparr>]"
proof -
  let ?env = "calm_env\<lparr>me_move := \<lambda>_. True\<rparr>" and ?mo = "\<lparr>mo_max_len = 4096, mo_cap = 1, mo_cap_only = True\<rparr>"
  have s: "sane_cap ''t'' ?env small_disk"
    by (simp add: sane_cap_def calm_env_def small_disk_def small_files_def)
  have "\<exists>src. dk_src (fst (applyCap ''t'' ?env ?mo small_disk)) = Some src \<and> int (card (set (regular src))) \<le> 1"
    using cap_keeps_smallest [OF s, of small_files ?mo] by (auto simp: small_disk_def calm_env_def)
  moreover have "dk_src (fst (applyCap ''t'' ?env ?mo small_disk)) = Some [\<lparr>fe_name = ''b'', fe_dir = False, fe_size = Some 3\<rparr>]"
    by code_simp
  ultimately show ?thesis by simp
qed

subsection \<open>capping a target and the watch that counts it\<close>

definition RecordRemoval :: "(string \<times> int) list \<Rightarrow> string \<Rightarrow> int \<Rightarrow> (string \<times> int) list" where
  "RecordRemoval ledger ws n = ledger @ [(ws, n)]"

text \<open>
  One decision of the capping command. \<open>log_made\<close>: the log of the run could be created, without which the target is
  left alone; \<open>recorded\<close>: the removal could be written to the ledger, which is only said when it could not.
\<close>

definition cap_target :: "string \<Rightarrow> bool \<Rightarrow> bool \<Rightarrow> min_env \<Rightarrow> cap_decision \<Rightarrow> disk \<times> (string \<times> int) list \<Rightarrow> disk \<times> (string \<times> int) list" where
  "cap_target ws log_made recorded env cd = (\<lambda>(d, ledger).
     (if \<not> log_made then (d, ledger) else
      let (d', r) = Minimize (cd_target cd) env \<lparr>mo_max_len = 0, mo_cap = cd_cap cd, mo_cap_only = True\<rparr> d;
          n = cd_live cd - mr_after r
      in if mr_error r \<or> mr_skipped r \<noteq> None \<or> n \<le> 0 then (d', ledger)
         else (d', if recorded then RecordRemoval ledger ws n else ledger)))"

lemma credited_from: "fold (\<lambda>(w, removed) n. if w = ws then n + removed else n) ys k = k + credited ys ws"
proof -
  have "fold (\<lambda>(w, removed) n. if w = ws then n + removed else n) ys (a + b) =
      a + fold (\<lambda>(w, removed) n. if w = ws then n + removed else n) ys b" for a b :: int
    by (induction ys arbitrary: b) (auto simp: add.assoc)
  from this [of k 0] show ?thesis by (simp add: credited_def)
qed

lemma credited_append: "credited (xs @ ys) ws = credited xs ws + credited ys ws"
proof -
  have "credited (xs @ ys) ws = fold (\<lambda>(w, removed) n. if w = ws then n + removed else n) ys (credited xs ws)"
    by (simp add: credited_def)
  then show ?thesis by (simp only: credited_from)
qed

definition target_entry :: "string \<Rightarrow> disk \<Rightarrow> corpus_entry" where
  "target_entry t d = \<lparr>ce_dir = True, ce_name = t, ce_files = map_option length (dk_src d)\<rparr>"

lemma corpus_count_credit: "corpus_count (Some es) l ws = credited l ws + corpus_count (Some es) [] ws"
proof -
  have "fold (\<lambda>e n. if \<not> ce_dir e \<or> \<not> has_suffix (ce_name e) ''_fuzzer'' then n
      else case ce_files e of None \<Rightarrow> n | Some k \<Rightarrow> n + int k) es (a + k) =
    a + fold (\<lambda>e n. if \<not> ce_dir e \<or> \<not> has_suffix (ce_name e) ''_fuzzer'' then n
      else case ce_files e of None \<Rightarrow> n | Some k \<Rightarrow> n + int k) es k" for a k
    by (induction es arbitrary: k) (simp_all add: add.assoc split: option.split)
  from this [of "credited l ws" 0] show ?thesis by (simp add: corpus_count_def credited_def)
qed

lemma corpus_count_snoc:
  "corpus_count (Some (es @ [target_entry t d])) l ws = corpus_count (Some es) l ws +
     (if has_suffix t ''_fuzzer'' then (case dk_src d of None \<Rightarrow> 0 | Some fs \<Rightarrow> int (length fs)) else 0)"
  by (auto simp: corpus_count_def target_entry_def split: option.split)

text \<open>What capping does to one target's directory: as many entries leave as the run reports.\<close>

lemma applyCap_length:
  assumes "sane_cap t env d" and "dk_src d = Some es"
  shows "\<exists>src. dk_src (fst (applyCap t env mo d)) = Some src \<and>
    int (length es) - int (length src) = countFiles (Some es) - countFiles (Some src) \<and> length src \<le> length es"
proof (cases "0 < mo_cap mo \<and> me_capdir env \<and> me_readdir env")
  case True
  define gone where "gone = {e \<in> set (filter (\<lambda>e. the_size e > mo_max_len mo) (regular es)) \<union> set (to_drop env mo es). me_move env (fe_name e)}"
  obtain src bak n b where a: "applyCap t env mo d =
      ((if n = 0 then d else d\<lparr>dk_src := Some src, dk_backups := AList.update (cap_key t env) bak (dk_backups d)\<rparr>), n, b, False)"
    "set src = set es - gone" "distinct (map fe_name src)" "n = 0 \<longrightarrow> gone = {}"
    using applyCap_moves [OF assms, of mo] True unfolding gone_def by blast
  have de: "distinct es" using assms by (auto simp: sane_cap_def distinct_map)
  have ds: "distinct src" using a(3) by (simp add: distinct_map)
  have "set (to_drop env mo es) \<subseteq> set (regular es)"
    using assms(1) to_drop_sub [of env mo es] by (auto simp: sane_cap_def kept_sizes_def)
  then have g: "gone \<subseteq> {e \<in> set es. \<not> fe_dir e}" unfolding gone_def using regular_set [of es] by auto
  have len: "length xs = card (set xs)" if "distinct xs" for xs :: "ent list" using that by (simp add: distinct_card)
  have cf: "countFiles (Some xs) = int (card {e \<in> set xs. \<not> fe_dir e})" if "distinct xs" for xs
    using that distinct_card [of "filter (\<lambda>e. \<not> fe_dir e) xs"] by (simp add: countFiles_def)
  have f: "{e \<in> set src. \<not> fe_dir e} = {e \<in> set es. \<not> fe_dir e} - gone" using a(2) by auto
  have fin: "finite gone" using g by (rule finite_subset) simp
  have c1: "card (set src) = card (set es) - card gone" unfolding a(2) using g fin by (intro card_Diff_subset) auto
  have c2: "card {e \<in> set src. \<not> fe_dir e} = card {e \<in> set es. \<not> fe_dir e} - card gone"
    unfolding f using g fin by (intro card_Diff_subset)
  have "card gone \<le> card {e \<in> set es. \<not> fe_dir e}" using g by (intro card_mono) auto
  moreover have "card gone \<le> card (set es)" using g by (intro card_mono) auto
  ultimately have r: "int (length es) - int (length src) = countFiles (Some es) - countFiles (Some src) \<and> length src \<le> length es"
    using c1 c2 len [OF de] len [OF ds] cf [OF de] cf [OF ds] by linarith
  show ?thesis
  proof (cases "n = 0")
    case zero: True
    then show ?thesis using a(1) assms(2) by simp
  next
    case False
    then show ?thesis using a(1) r by auto
  qed
next
  case False
  then show ?thesis using assms(2) by (auto simp: applyCap_def)
qed

text \<open>
  C16: a cap is invisible to the watch exactly when it is recorded. Whatever a capping run of one target does,
  the workspace's corpus count, with the removals its ledger credits back, is the same before and after if the
  removal could be written to the ledger; if it could not, the count falls by the inputs taken away, none or more.
  The decision's live count has to be that of the directory it was taken from, the backup the cap moves to must
  not exist, and the sort of the inputs must be a permutation.
\<close>

theorem cap_invisible_to_watch:
  fixes ws :: string and ledger :: "(string \<times> int) list" and recorded log_made :: bool
  assumes "sane_cap (cd_target cd) env d" and "cd_live cd = countFiles (dk_src d)" and "has_suffix (cd_target cd) ''_fuzzer''"
  defines "after \<equiv> cap_target ws log_made recorded env cd (d, ledger)"
  shows "corpus_count (Some (others @ [target_entry (cd_target cd) (fst after)])) (snd after) ws +
      (if recorded then 0 else countFiles (dk_src d) - countFiles (dk_src (fst after))) =
    corpus_count (Some (others @ [target_entry (cd_target cd) d])) ledger ws \<and>
    countFiles (dk_src (fst after)) \<le> countFiles (dk_src d)"
proof (cases "\<not> log_made \<or> dk_src d = None \<or> \<not> me_binary env \<or> countFiles (dk_src d) = 0 \<or> \<not> me_mkdir env")
  case True
  then have "after = (d, ledger)" unfolding after_def cap_target_def Minimize_def no_result_def Let_def by auto
  then show ?thesis by simp
next
  case go: False
  then obtain es where es: "dk_src d = Some es" by auto
  let ?mo = "\<lparr>mo_max_len = 4096, mo_cap = cd_cap cd, mo_cap_only = True\<rparr>"
  obtain d1 n bak e where a: "applyCap (cd_target cd) env ?mo d = (d1, n, bak, e)"
    by (cases "applyCap (cd_target cd) env ?mo d")
  obtain src where src: "dk_src d1 = Some src" "length src \<le> length es"
    "int (length es) - int (length src) = countFiles (Some es) - countFiles (Some src)"
    using applyCap_length [OF assms(1) es, of ?mo] a by auto
  have unmoved: "d1 = d" if e using that a unfolding applyCap_def Let_def by (auto split: if_splits prod.splits)
  have after: "after = (d1, if e \<or> countFiles (Some es) - countFiles (Some src) \<le> 0 \<or> \<not> recorded then ledger
      else ledger @ [(ws, countFiles (Some es) - countFiles (Some src))])"
    using go es a src(1) assms(2) unfolding after_def cap_target_def Minimize_def no_result_def RecordRemoval_def Let_def by simp
  then have "credited (snd after) ws + (if recorded then 0 else int (length es) - int (length src)) =
      credited ledger ws + int (length es) - int (length src)"
    using src unmoved es by (auto simp: credited_append credited_def)
  moreover have "fst after = d1" using after by simp
  ultimately show ?thesis
    using es src assms(3) corpus_count_credit [of others "snd after" ws] corpus_count_credit [of others ledger ws]
    by (cases recorded) (simp_all add: corpus_count_snoc)
qed

theorem cap_invisible_to_watch_witness:
  "let cd = \<lparr>cd_target = ''a_fuzzer'', cd_files = 3, cd_rate = 1, cd_replay = 3, cd_budget = 1, cd_cap = 1, cd_live = 3,
        cd_locked = True, cd_at_risk = True, cd_act = True\<rparr>;
      after = cap_target ''w'' True True (calm_env\<lparr>me_move := \<lambda>_. True\<rparr>) cd (small_disk, [])
   in corpus_count (Some ([] @ [target_entry ''a_fuzzer'' (fst after)])) (snd after) ''w'' =
        corpus_count (Some ([] @ [target_entry ''a_fuzzer'' small_disk])) [] ''w'' \<and> snd after = [(''w'', 2)]"
proof -
  let ?cd = "\<lparr>cd_target = ''a_fuzzer'', cd_files = 3, cd_rate = 1, cd_replay = 3, cd_budget = 1, cd_cap = 1, cd_live = 3,
    cd_locked = True, cd_at_risk = True, cd_act = True\<rparr> :: cap_decision"
  let ?env = "calm_env\<lparr>me_move := \<lambda>_. True\<rparr>"
  have s: "sane_cap (cd_target ?cd) ?env small_disk" by (simp add: sane_cap_def calm_env_def small_disk_def small_files_def)
  have l: "cd_live ?cd = countFiles (dk_src small_disk)" "has_suffix (cd_target ?cd) ''_fuzzer''" by code_simp+
  have "snd (cap_target ''w'' True True ?env ?cd (small_disk, [])) = [(''w'', 2)]" by code_simp
  then show ?thesis using cap_invisible_to_watch [OF s l, where ws = "''w''" and ledger = "[]" and others = "[]" and log_made = True and recorded = True] by (simp add: Let_def)
qed

end
