(* ===== verification/Soak.thy ===== *)
theory Soak
  imports Corpus_Cap
begin

text \<open>
  The rolling pool of a soak (\<open>internal/fuzz/soak.go\<close>): a main loop that takes a slot, checks the
  clock, picks the next target that is not in flight and starts a worker, and workers that finish
  their slice, leave the in-flight map and give the slot back. Goroutines interleave, the deadline
  passes and the context is cancelled at any moment, so the schedule is a step relation; what a
  worker does in its slice is the environment.
\<close>

datatype phase = Top | Waiting | Holding | Picking | Stopped | Gave_up

record sched =
  sd_main :: phase
  sd_in_flight :: "string list"
  sd_workers :: "(string \<times> bool) list"
  sd_next :: nat
  sd_started :: nat
  sd_past :: bool
  sd_cancelled :: bool

text \<open>A worker is its target and whether it still runs; it holds its slot until it is gone.\<close>

definition over :: "sched \<Rightarrow> bool" where
  "over s \<longleftrightarrow> sd_past s \<or> sd_cancelled s"

definition slots :: "sched \<Rightarrow> nat" where
  "slots s = length (sd_workers s) + (if sd_main s \<in> {Holding, Picking} then 1 else 0)"

fun pick_from :: "string list \<Rightarrow> nat \<Rightarrow> string list \<Rightarrow> nat list \<Rightarrow> (string \<times> nat) option" where
  "pick_from targets next busy [] = None"
| "pick_from targets next busy (k # ks) =
     (let c = targets ! ((next + k) mod length targets)
      in if c \<notin> set busy then Some (c, (next + k + 1) mod length targets) else pick_from targets next busy ks)"

definition pick :: "string list \<Rightarrow> nat \<Rightarrow> string list \<Rightarrow> (string \<times> nat) option" where
  "pick targets next busy = pick_from targets next busy [0..<length targets]"

text \<open>The picked name doubles as the flag that nothing was picked, so an empty target name ends the loop too.\<close>

inductive sched_step :: "string list \<Rightarrow> nat \<Rightarrow> sched \<Rightarrow> sched \<Rightarrow> bool" for targets :: "string list" and conc :: nat where
  expire: "\<not> sd_past s \<Longrightarrow> sched_step targets conc s (s\<lparr>sd_past := True\<rparr>)"
| cancel: "\<not> sd_cancelled s \<Longrightarrow> sched_step targets conc s (s\<lparr>sd_cancelled := True\<rparr>)"
| top_stop: "sd_main s = Top \<Longrightarrow> over s \<Longrightarrow> sched_step targets conc s (s\<lparr>sd_main := Stopped\<rparr>)"
| top_go: "sd_main s = Top \<Longrightarrow> \<not> over s \<Longrightarrow> sched_step targets conc s (s\<lparr>sd_main := Waiting\<rparr>)"
| acquire: "sd_main s = Waiting \<Longrightarrow> slots s < conc \<Longrightarrow> sched_step targets conc s (s\<lparr>sd_main := Holding\<rparr>)"
| wait_done: "sd_main s = Waiting \<Longrightarrow> sd_cancelled s \<Longrightarrow> sched_step targets conc s (s\<lparr>sd_main := Stopped\<rparr>)"
| recheck_stop: "sd_main s = Holding \<Longrightarrow> over s \<Longrightarrow> sched_step targets conc s (s\<lparr>sd_main := Stopped\<rparr>)"
| recheck_go: "sd_main s = Holding \<Longrightarrow> \<not> over s \<Longrightarrow> sched_step targets conc s (s\<lparr>sd_main := Picking\<rparr>)"
| start: "sd_main s = Picking \<Longrightarrow> pick targets (sd_next s) (sd_in_flight s) = Some (c, nx) \<Longrightarrow> c \<noteq> [] \<Longrightarrow>
    sched_step targets conc s (s\<lparr>sd_main := Top, sd_in_flight := c # sd_in_flight s,
      sd_workers := (c, True) # sd_workers s, sd_next := nx, sd_started := Suc (sd_started s)\<rparr>)"
| none_free: "sd_main s = Picking \<Longrightarrow> pick targets (sd_next s) (sd_in_flight s) = None \<Longrightarrow>
    sched_step targets conc s (s\<lparr>sd_main := Gave_up\<rparr>)"
| unnamed: "sd_main s = Picking \<Longrightarrow> pick targets (sd_next s) (sd_in_flight s) = Some ([], nx) \<Longrightarrow>
    sched_step targets conc s (s\<lparr>sd_main := Gave_up, sd_in_flight := [] # sd_in_flight s, sd_next := nx\<rparr>)"
| finish: "sd_workers s = us @ (c, True) # vs \<Longrightarrow>
    sched_step targets conc s (s\<lparr>sd_in_flight := removeAll c (sd_in_flight s), sd_workers := us @ (c, False) # vs\<rparr>)"
| release: "sd_workers s = us @ (c, False) # vs \<Longrightarrow> sched_step targets conc s (s\<lparr>sd_workers := us @ vs\<rparr>)"

definition sched_start :: sched where
  "sched_start = \<lparr>sd_main = Top, sd_in_flight = [], sd_workers = [], sd_next = 0, sd_started = 0, sd_past = False, sd_cancelled = False\<rparr>"

definition pool_size :: "string list \<Rightarrow> int \<Rightarrow> nat" where
  "pool_size targets conc = nat (let c = (if conc > int (length targets) then int (length targets) else conc) in if c < 1 then 1 else c)"

text \<open>The states of a run; without targets the schedule returns before it starts.\<close>

inductive reachable :: "string list \<Rightarrow> int \<Rightarrow> sched \<Rightarrow> bool" for targets :: "string list" and conc :: int where
  begin_run: "targets \<noteq> [] \<Longrightarrow> reachable targets conc sched_start"
| one_more: "reachable targets conc s \<Longrightarrow> sched_step targets (pool_size targets conc) s s' \<Longrightarrow> reachable targets conc s'"

text \<open>A slice's length: the tuned budget or the fallback, times the multiplier, both at least one.\<close>

definition soak_seconds :: "(int gomap) gomap \<Rightarrow> string \<Rightarrow> string \<Rightarrow> int \<Rightarrow> int \<Rightarrow> int" where
  "soak_seconds budgets ws t secs factor = budget_for budgets ws t secs * (if factor < 1 then 1 else factor)"

definition soak_pool :: "string list \<Rightarrow> int \<Rightarrow> nat" where
  "soak_pool targets concurrent = pool_size targets (if concurrent < 1 then 1 else concurrent)"

subsection \<open>picking\<close>

lemma pick_from_Some:
  "pick_from targets nx busy ks = Some (c, nx') \<Longrightarrow>
   \<exists>k \<in> set ks. c = targets ! ((nx + k) mod length targets) \<and> nx' = (nx + k + 1) mod length targets \<and> c \<notin> set busy"
  by (induction ks) (auto simp: Let_def split: if_splits)

lemma pick_from_None:
  "pick_from targets nx busy ks = None \<Longrightarrow> \<forall>k \<in> set ks. targets ! ((nx + k) mod length targets) \<in> set busy"
  by (induction ks) (auto simp: Let_def split: if_splits)

lemma pick_Some:
  assumes "pick targets nx busy = Some (c, nx')" and "targets \<noteq> []"
  shows "c \<in> set targets" "c \<notin> set busy" "nx' < length targets"
  using pick_from_Some [OF assms(1) [unfolded pick_def]] assms(2) by auto

lemma pick_None:
  assumes "pick targets nx busy = None" and "targets \<noteq> []"
  shows "set targets \<subseteq> set busy"
proof
  fix t assume "t \<in> set targets"
  then obtain i where i: "i < length targets" "t = targets ! i" by (auto simp: in_set_conv_nth)
  let ?n = "length targets"
  let ?k = "(i + (?n - nx mod ?n)) mod ?n"
  have n: "0 < ?n" using assms(2) by simp
  then have "nx mod ?n \<le> ?n" by (simp add: less_imp_le)
  have "(nx + ?k) mod ?n = (nx mod ?n + (i + (?n - nx mod ?n))) mod ?n" by (simp add: mod_simps)
  also have "\<dots> = (i + ?n) mod ?n" using \<open>nx mod ?n \<le> ?n\<close> by simp
  also have "\<dots> = i" using i(1) by simp
  finally have "t = targets ! ((nx + ?k) mod ?n)" using i(2) by simp
  then show "t \<in> set busy"
    using pick_from_None [OF assms(1) [unfolded pick_def]] n by auto
qed

subsection \<open>the invariant\<close>

definition running :: "sched \<Rightarrow> string list" where
  "running s = map fst (filter snd (sd_workers s))"

definition sched_ok :: "string list \<Rightarrow> nat \<Rightarrow> sched \<Rightarrow> bool" where
  "sched_ok targets conc s \<longleftrightarrow> distinct (running s) \<and>
     (sd_main s \<noteq> Gave_up \<longrightarrow> mset (sd_in_flight s) = mset (running s)) \<and>
     set (running s) \<subseteq> set targets \<and> slots s \<le> conc \<and> sd_next s < length targets"

inductive_cases sched_stepE: "sched_step targets conc s s'"

lemma running_finish:
  "sd_workers s = us @ (c, True) # vs \<Longrightarrow> distinct (running s) \<Longrightarrow>
   running (s\<lparr>sd_in_flight := f, sd_workers := us @ (c, False) # vs\<rparr>) = remove1 c (running s) \<and> c \<in> set (running s)"
  by (auto simp: running_def remove1_append remove1_idem)

lemma running_same [simp]:
  "running (s\<lparr>sd_main := m\<rparr>) = running s" "running (s\<lparr>sd_past := b\<rparr>) = running s"
  "running (s\<lparr>sd_cancelled := b\<rparr>) = running s"
  "running (s\<lparr>sd_main := m, sd_in_flight := f, sd_next := n\<rparr>) = running s"
  by (simp_all add: running_def)

lemma sched_ok_step:
  assumes "sched_step targets conc s s'" and "sched_ok targets conc s" and "targets \<noteq> []"
  shows "sched_ok targets conc s'"
  using assms(1)
proof cases
  case (start c nx)
  have eq: "mset (sd_in_flight s) = mset (running s)" using assms(2) start(2) by (simp add: sched_ok_def)
  then have "set (sd_in_flight s) = set (running s)" by (rule mset_eq_setD)
  moreover have "running s' = c # running s" using start(1) by (simp add: running_def)
  ultimately show ?thesis
    using assms(2) eq start(1,2) pick_Some [OF start(3) assms(3)] by (simp add: sched_ok_def slots_def)
next
  case (unnamed nx)
  then show ?thesis using assms(2) pick_Some [OF unnamed(3) assms(3)] by (simp add: sched_ok_def slots_def)
next
  case (finish us c vs)
  have d: "distinct (running s)" using assms(2) by (simp add: sched_ok_def)
  have r: "running s' = remove1 c (running s)" using running_finish [OF finish(2) d] finish(1) by simp
  have "mset (removeAll c (sd_in_flight s)) = mset (remove1 c (running s))" if "sd_main s \<noteq> Gave_up"
  proof -
    have eq: "mset (sd_in_flight s) = mset (running s)" using assms(2) that by (simp add: sched_ok_def)
    then have "distinct (sd_in_flight s)" using d mset_eq_imp_distinct_iff by blast
    then show ?thesis using eq by (simp add: distinct_remove1_removeAll [symmetric])
  qed
  moreover have "slots s' = slots s" using finish by (simp add: slots_def)
  ultimately show ?thesis
    using assms(2) r finish(1) by (auto simp: sched_ok_def dest: notin_set_remove1)
next
  case (release us c vs)
  then show ?thesis using assms(2) by (auto simp: sched_ok_def running_def slots_def)
qed (use assms(2) in \<open>auto simp: sched_ok_def slots_def\<close>)

lemma reachable_ok:
  "reachable targets conc s \<Longrightarrow> sched_ok targets (pool_size targets conc) s \<and> targets \<noteq> []"
proof (induction rule: reachable.induct)
  case begin_run
  then show ?case by (simp add: sched_ok_def sched_start_def running_def slots_def pool_size_def Let_def Suc_le_eq)
next
  case (one_more s s')
  then show ?case using sched_ok_step by blast
qed

text \<open>C35: A target is never run twice at once: in every reachable state of a soak the targets being
  fuzzed are distinct and among those asked for, and no more workers hold a slot than the pool has,
  which is at most the concurrency asked for and at most the number of targets.\<close>

theorem soak_never_doubles:
  assumes "reachable targets conc s"
  shows "distinct (running s) \<and> set (running s) \<subseteq> set targets \<and> length (sd_workers s) \<le> pool_size targets conc \<and>
    pool_size targets conc \<le> length targets \<and> (1 \<le> conc \<longrightarrow> int (pool_size targets conc) \<le> conc)"
proof -
  have "sched_ok targets (pool_size targets conc) s" and n: "targets \<noteq> []" using reachable_ok [OF assms] by auto
  then have "distinct (running s) \<and> set (running s) \<subseteq> set targets \<and> length (sd_workers s) \<le> pool_size targets conc"
    by (auto simp: sched_ok_def slots_def)
  moreover have "1 \<le> length targets" using n by (cases targets) auto
  ultimately show ?thesis by (auto simp: pool_size_def Let_def)
qed

subsection \<open>when the loop ends\<close>

lemma pool_size_le: "targets \<noteq> [] \<Longrightarrow> pool_size targets conc \<le> length targets"
  by (cases targets) (auto simp: pool_size_def Let_def)

text \<open>A slot in hand implies a free target, when no target is named twice.\<close>

lemma slot_means_free:
  assumes ok: "sched_ok targets conc s" and "distinct targets" "targets \<noteq> []" "conc \<le> length targets" "sd_main s = Picking"
  shows "pick targets (sd_next s) (sd_in_flight s) \<noteq> None"
proof
  assume "pick targets (sd_next s) (sd_in_flight s) = None"
  then have "set targets \<subseteq> set (sd_in_flight s)" using assms(3) by (rule pick_None)
  moreover have "set (sd_in_flight s) = set (running s)"
    using ok assms(5) by (auto simp: sched_ok_def dest: mset_eq_setD)
  ultimately have "card (set targets) \<le> card (set (running s))" by (simp add: card_mono)
  then have "length targets \<le> length (running s)" using assms(2) card_length le_trans by (metis distinct_card)
  moreover have "length (running s) \<le> length (sd_workers s)" by (simp add: running_def)
  moreover have "Suc (length (sd_workers s)) \<le> conc" using ok assms(5) by (simp add: sched_ok_def slots_def)
  ultimately show False using assms(4) by linarith
qed

lemma never_gives_up:
  assumes "reachable targets conc s" and "distinct targets" "[] \<notin> set targets"
  shows "sd_main s \<noteq> Gave_up \<and> (sd_main s = Stopped \<longrightarrow> over s)"
  using assms(1)
proof (induction rule: reachable.induct)
  case begin_run
  then show ?case by (simp add: sched_start_def)
next
  case (one_more s s')
  have ok: "sched_ok targets (pool_size targets conc) s" and n: "targets \<noteq> []" using reachable_ok [OF one_more(1)] by auto
  from one_more(2) show ?case
  proof cases
    case none_free
    then show ?thesis using slot_means_free [OF ok assms(2) n pool_size_le [OF n]] by simp
  next
    case (unnamed nx)
    then show ?thesis using pick_Some(1) [OF unnamed(3) n] assms(3) by simp
  qed (use one_more.IH in \<open>auto simp: over_def\<close>)
qed

text \<open>The soak keeps refilling its pool until it is told to stop: with distinct, non-empty target
  names the main loop never leaves because it found no free target, so whenever it has stopped the
  deadline has passed or the context was cancelled.\<close>

theorem soak_refills_until_over:
  assumes "reachable targets conc s" and "distinct targets" and "[] \<notin> set targets"
  shows "sd_main s \<noteq> Gave_up \<and> (sd_main s = Stopped \<longrightarrow> sd_past s \<or> sd_cancelled s)"
  using never_gives_up [OF assms] by (simp add: over_def)

subsection \<open>termination\<close>

fun main_rank :: "phase \<Rightarrow> nat" where
  "main_rank Stopped = 0"
| "main_rank Gave_up = 0"
| "main_rank Top = 1"
| "main_rank Holding = 1"
| "main_rank Waiting = 2"
| "main_rank Picking = 4"

definition work_left :: "sched \<Rightarrow> nat" where
  "work_left s = main_rank (sd_main s) + sum_list (map (\<lambda>w. if snd w then 2 else 1) (sd_workers s)) +
     (if sd_past s then 0 else 1) + (if sd_cancelled s then 0 else 1)"

inductive steps :: "string list \<Rightarrow> nat \<Rightarrow> nat \<Rightarrow> sched \<Rightarrow> sched \<Rightarrow> bool" for targets :: "string list" and conc :: nat where
  none: "steps targets conc 0 s s"
| more: "steps targets conc k s s' \<Longrightarrow> sched_step targets conc s' s'' \<Longrightarrow> steps targets conc (Suc k) s s''"

lemma over_step: "sched_step targets conc s s' \<Longrightarrow> over s \<Longrightarrow> over s' \<and> work_left s' < work_left s"
  by (erule sched_step.cases) (auto simp: over_def work_left_def)

lemma over_steps: "steps targets conc k s s' \<Longrightarrow> over s \<Longrightarrow> over s' \<and> k + work_left s' \<le> work_left s"
  by (induction rule: steps.induct) (auto dest: over_step)

text \<open>Nothing is left to do only when the loop has left and every worker is gone, which is what the wait group waits for.\<close>

lemma can_step:
  assumes "sd_main s \<notin> {Stopped, Gave_up} \<or> sd_workers s \<noteq> []" and "over s" and "0 < conc"
  shows "\<exists>s'. sched_step targets conc s s'"
proof (cases "sd_workers s")
  case (Cons w ws)
  obtain c b where w: "w = (c, b)" by (cases w)
  show ?thesis
  proof (cases b)
    case True
    then show ?thesis using sched_step.finish [of s "[]" c ws] Cons w by fastforce
  next
    case False
    then show ?thesis using sched_step.release [of s "[]" c ws] Cons w by fastforce
  qed
next
  case Nil
  then have "sd_main s \<notin> {Stopped, Gave_up}" using assms(1) by simp
  then show ?thesis
  proof (cases "sd_main s")
    case Top
    then show ?thesis using sched_step.top_stop assms(2) by blast
  next
    case Waiting
    then have "slots s < conc" using Nil assms(3) by (simp add: slots_def)
    then show ?thesis using sched_step.acquire Waiting by blast
  next
    case Holding
    then show ?thesis using sched_step.recheck_stop assms(2) by blast
  next
    case Picking
    then show ?thesis
    proof (cases "pick targets (sd_next s) (sd_in_flight s)")
      case None
      then show ?thesis using sched_step.none_free Picking by blast
    next
      case (Some r)
      obtain c nx where r: "r = (c, nx)" by (cases r)
      then show ?thesis using sched_step.start [OF Picking] sched_step.unnamed [OF Picking] Some by (cases "c = []") blast+
    qed
  qed auto
qed

text \<open>A soak ends: once the deadline has passed or the context is cancelled, every schedule of the
  main loop and the workers is at most \<open>work_left\<close> steps long, and where it can go no further the
  loop has left and no worker is alive.\<close>

theorem soak_terminates:
  assumes "over s" and "steps targets conc k s s'" and "0 < conc"
  shows "k \<le> work_left s \<and>
    ((\<nexists>s''. sched_step targets conc s' s'') \<longrightarrow> (sd_main s' = Stopped \<or> sd_main s' = Gave_up) \<and> sd_workers s' = [])"
proof
  show "k \<le> work_left s" using over_steps [OF assms(2,1)] by simp
  show "(\<nexists>s''. sched_step targets conc s' s'') \<longrightarrow> (sd_main s' = Stopped \<or> sd_main s' = Gave_up) \<and> sd_workers s' = []"
    using can_step [of s' conc targets] over_steps [OF assms(2,1)] assms(3) by auto
qed

subsection \<open>fairness\<close>

text \<open>How many picks away a position is from the rotating start.\<close>

definition ahead :: "nat \<Rightarrow> nat \<Rightarrow> nat \<Rightarrow> nat" where
  "ahead n nx i = (if nx \<le> i then i - nx else i + n - nx)"

lemma ahead_less: "nx < n \<Longrightarrow> i < n \<Longrightarrow> ahead n nx i < n"
  by (auto simp: ahead_def)

lemma ahead_at: "nx < n \<Longrightarrow> i < n \<Longrightarrow> (nx + ahead n nx i) mod n = i"
  by (auto simp: ahead_def)

lemma ahead_after:
  assumes "nx < n" "i < n" "k < ahead n nx i"
  shows "ahead n ((nx + k + 1) mod n) i < ahead n nx i"
proof (cases "nx + k + 1 < n")
  case True
  then have "(nx + k + 1) mod n = nx + k + 1" by simp
  then show ?thesis using assms True by (auto simp: ahead_def split: if_splits)
next
  case False
  moreover have "nx + k + 1 - n < n" using assms by (simp add: ahead_def split: if_splits)
  ultimately have "(nx + k + 1) mod n = nx + k + 1 - n" by (simp add: le_mod_geq)
  then show ?thesis using assms False by (auto simp: ahead_def split: if_splits)
qed

lemma pick_from_first:
  "pick_from targets nx busy (us @ k # vs) = Some (c, nx') \<Longrightarrow> targets ! ((nx + k) mod length targets) \<notin> set busy \<Longrightarrow>
   \<exists>j \<in> insert k (set us). c = targets ! ((nx + j) mod length targets) \<and> nx' = (nx + j + 1) mod length targets"
proof (induction us)
  case (Cons j us)
  then show ?case
    by (cases "targets ! ((nx + j) mod length targets) \<in> set busy") (fastforce simp: Let_def)+
qed (simp add: Let_def)

lemma pick_passes:
  assumes p: "pick targets nx busy = Some (c, nx')" and "nx < length targets" "i < length targets"
    and "targets ! i \<notin> set busy" "c \<noteq> targets ! i"
  shows "ahead (length targets) nx' i < ahead (length targets) nx i"
proof -
  let ?n = "length targets" and ?k = "ahead (length targets) nx i"
  have "[0..<?n] = [0..<?k] @ ?k # [Suc ?k..<?n]"
    using ahead_less [OF assms(2,3)] upt_add_eq_append [of 0 ?k "?n - ?k"] by (simp add: upt_conv_Cons)
  with p have f: "pick_from targets nx busy ([0..<?k] @ ?k # [Suc ?k..<?n]) = Some (c, nx')" by (simp add: pick_def)
  have u: "targets ! ((nx + ?k) mod ?n) \<notin> set busy" using ahead_at [OF assms(2,3)] assms(4) by simp
  from pick_from_first [OF f u] obtain j where "j \<in> insert ?k (set [0..<?k])" and j: "c = targets ! ((nx + j) mod ?n)" "nx' = (nx + j + 1) mod ?n"
    by (elim bexE conjE)
  then have "j = ?k \<or> j < ?k" by (simp only: set_upt insert_iff atLeastLessThan_iff) blast
  then have "j < ?k" using ahead_at [OF assms(2,3)] assms(5) j(1) by metis
  then show ?thesis using ahead_after [OF assms(2,3)] j(2) by simp
qed

text \<open>A run of the schedule during which one target stays out of flight.\<close>

inductive waits :: "string list \<Rightarrow> nat \<Rightarrow> string \<Rightarrow> sched \<Rightarrow> sched \<Rightarrow> bool"
  for targets :: "string list" and conc :: nat and t :: string where
  at_once: "t \<notin> set (sd_in_flight s) \<Longrightarrow> waits targets conc t s s"
| longer: "waits targets conc t s s' \<Longrightarrow> sched_step targets conc s' s'' \<Longrightarrow> t \<notin> set (sd_in_flight s'') \<Longrightarrow>
    waits targets conc t s s''"

lemma waits_free: "waits targets conc t s s' \<Longrightarrow> t \<notin> set (sd_in_flight s')"
  by (induction rule: waits.induct) simp_all

lemma waits_ok: "waits targets conc t s s' \<Longrightarrow> sched_ok targets conc s \<Longrightarrow> targets \<noteq> [] \<Longrightarrow> sched_ok targets conc s'"
  by (induction rule: waits.induct) (auto intro: sched_ok_step)

lemma passed_over:
  assumes "sched_step targets conc s s'" "i < length targets" "targets ! i \<notin> set (sd_in_flight s)"
    "targets ! i \<notin> set (sd_in_flight s')" "sd_next s < length targets"
  shows "sd_started s' + ahead (length targets) (sd_next s') i \<le> sd_started s + ahead (length targets) (sd_next s) i"
  using assms(1)
proof cases
  case (start c nx)
  then show ?thesis using pick_passes [OF start(3) assms(5,2,3)] assms(4) by auto
next
  case (unnamed nx)
  then show ?thesis using pick_passes [OF unnamed(3) assms(5,2,3)] assms(4) by auto
qed simp_all

text \<open>C36: No target starves: from any reachable state, while a target waits out of flight fewer slices
  of other targets are started than there are targets, however the workers and the loop interleave
  (so with as many free slots it is started within one rotation).\<close>

theorem soak_starves_nobody:
  assumes "reachable targets conc s" and "t \<in> set targets" and "waits targets (pool_size targets conc) t s s'"
  shows "sd_started s' < sd_started s + length targets"
proof -
  obtain i where i: "i < length targets" "t = targets ! i" using assms(2) by (auto simp: in_set_conv_nth)
  have ok: "sched_ok targets (pool_size targets conc) s" "targets \<noteq> []" using reachable_ok [OF assms(1)] by auto
  from assms(3) ok(1) have "sd_started s' + ahead (length targets) (sd_next s') i \<le> sd_started s + ahead (length targets) (sd_next s) i"
  proof (induction rule: waits.induct)
    case (longer s s' s'')
    have "sd_next s' < length targets" using waits_ok [OF longer.hyps(1) longer.prems ok(2)] by (simp add: sched_ok_def)
    then show ?case
      using passed_over [OF longer.hyps(2) i(1)] waits_free [OF longer.hyps(1)] longer.hyps(3) longer.IH [OF longer.prems] i(2)
      by fastforce
  qed simp
  moreover have "ahead (length targets) (sd_next s) i < length targets"
    using ok(1) i(1) by (simp add: sched_ok_def ahead_less)
  ultimately show ?thesis by linarith
qed

subsection \<open>slices\<close>

lemma soak_slice_least: "0 \<le> budget_for budgets ws t secs \<Longrightarrow> budget_for budgets ws t secs \<le> soak_seconds budgets ws t secs factor"
  by (auto simp: soak_seconds_def mult_le_cancel_left1)

subsection \<open>two targets, both in flight\<close>

abbreviation two_targets :: "string list" where "two_targets \<equiv> [''a'', ''b'']"

definition one_running :: sched where
  "one_running = \<lparr>sd_main = Top, sd_in_flight = [''a''], sd_workers = [(''a'', True)], sd_next = 1, sd_started = 1,
     sd_past = False, sd_cancelled = False\<rparr>"

definition both_running :: sched where
  "both_running = \<lparr>sd_main = Top, sd_in_flight = [''b'', ''a''], sd_workers = [(''b'', True), (''a'', True)], sd_next = 0,
     sd_started = 2, sd_past = False, sd_cancelled = False\<rparr>"

definition both_late :: sched where
  "both_late = \<lparr>sd_main = Stopped, sd_in_flight = [''b'', ''a''], sd_workers = [(''b'', True), (''a'', True)], sd_next = 0,
     sd_started = 2, sd_past = True, sd_cancelled = False\<rparr>"

lemma pool_two: "pool_size two_targets 5 = 2"
  by code_simp

lemma reachable_picking:
  assumes "reachable targets conc s" "sd_main s = Top" "\<not> over s" "length (sd_workers s) < pool_size targets conc"
  shows "reachable targets conc (s\<lparr>sd_main := Picking\<rparr>)"
proof -
  have "reachable targets conc (s\<lparr>sd_main := Waiting\<rparr>)"
    using one_more [OF assms(1) top_go [OF assms(2,3)]] .
  then have "reachable targets conc (s\<lparr>sd_main := Holding\<rparr>)"
    using one_more [OF _ acquire, of targets conc "s\<lparr>sd_main := Waiting\<rparr>"] assms(4) by (simp add: slots_def)
  then show ?thesis
    using one_more [OF _ recheck_go, of targets conc "s\<lparr>sd_main := Holding\<rparr>"] assms(3) by (simp add: over_def)
qed

lemma reachable_one: "reachable two_targets 5 one_running"
proof -
  have "reachable two_targets 5 (sched_start\<lparr>sd_main := Picking\<rparr>)"
    by (rule reachable_picking [OF begin_run]) (simp_all add: sched_start_def over_def pool_two)
  moreover have "pick two_targets 0 [] = Some (''a'', 1)" by code_simp
  ultimately show ?thesis
    using one_more [OF _ start, of two_targets 5 "sched_start\<lparr>sd_main := Picking\<rparr>"]
    by (simp add: sched_start_def one_running_def)
qed

lemma reachable_both: "reachable two_targets 5 both_running"
proof -
  have "reachable two_targets 5 (one_running\<lparr>sd_main := Picking\<rparr>)"
    by (rule reachable_picking [OF reachable_one]) (simp_all add: one_running_def over_def pool_two)
  moreover have "pick two_targets 1 [''a''] = Some (''b'', 0)" by code_simp
  ultimately show ?thesis
    using one_more [OF _ start, of two_targets 5 "one_running\<lparr>sd_main := Picking\<rparr>"]
    by (simp add: one_running_def both_running_def numeral_2_eq_2)
qed

lemma reachable_late: "reachable two_targets 5 both_late"
proof -
  have "reachable two_targets 5 (both_running\<lparr>sd_past := True\<rparr>)"
    using one_more [OF reachable_both expire] by (simp add: both_running_def)
  from one_more [OF this top_stop] show ?thesis by (simp add: both_running_def both_late_def over_def)
qed

theorem soak_never_doubles_witness:
  "running both_running = [''b'', ''a''] \<and> distinct (running both_running) \<and>
   length (sd_workers both_running) \<le> pool_size two_targets 5"
  using soak_never_doubles [OF reachable_both] by (simp add: both_running_def running_def)

theorem soak_refills_until_over_witness: "sd_main both_late = Stopped \<and> (sd_past both_late \<or> sd_cancelled both_late)"
  using soak_refills_until_over [OF reachable_late] by (simp add: both_late_def)

theorem soak_terminates_witness:
  "over both_late \<and> steps two_targets 2 1 both_late
     (both_late\<lparr>sd_in_flight := [''a''], sd_workers := [(''b'', False), (''a'', True)]\<rparr>) \<and> 1 \<le> work_left both_late"
proof -
  have o: "over both_late" by code_simp
  have "sched_step two_targets 2 both_late
      (both_late\<lparr>sd_in_flight := [''a''], sd_workers := [(''b'', False), (''a'', True)]\<rparr>)"
    using finish [of both_late "[]" "''b''" "[(''a'', True)]" two_targets 2] by (simp add: both_late_def)
  then have s: "steps two_targets 2 1 both_late
      (both_late\<lparr>sd_in_flight := [''a''], sd_workers := [(''b'', False), (''a'', True)]\<rparr>)"
    using more [OF none] by fastforce
  show ?thesis using soak_terminates [OF o s] o s by simp
qed

theorem soak_starves_nobody_witness:
  "waits two_targets (pool_size two_targets 5) ''b'' one_running one_running \<and> sd_started one_running < 1 + length two_targets"
proof -
  have w: "waits two_targets (pool_size two_targets 5) ''b'' one_running one_running"
    by (rule at_once) (simp add: one_running_def)
  have "sd_started one_running < sd_started one_running + length two_targets"
    using soak_starves_nobody [OF reachable_one _ w] by simp
  with w show ?thesis by (simp add: one_running_def)
qed

end
