(* ===== verification/Fuzz.thy ===== *)
theory Fuzz
  imports Corpus_Cap
begin

text \<open>
  One slice and one sweep (\<open>internal/fuzz/fuzz.go\<close>, \<open>reap.go\<close>, \<open>preflight.go\<close>): the container
  command, the guard that stops a slice, the harvest of reproducers, the compression of the log, and
  the sweep over all targets. What docker, the clock and the file system answer is a record of
  observations; what the code does with every answer is modelled.
\<close>

record request =
  rq_workspace :: string
  rq_data :: string
  rq_name :: string
  rq_out_dir :: string
  rq_target :: string
  rq_seconds :: int
  rq_jobs :: int
  rq_max_len :: int
  rq_stop_free :: f64
  rq_sanitizer :: string
  rq_lineage :: bool
  rq_image :: string

record result =
  rs_target :: string
  rs_err :: "string option"
  rs_elapsed :: int
  rs_log_path :: string
  rs_corpus_from :: int
  rs_corpus_to :: int
  rs_artifacts_from :: int
  rs_artifacts_to :: int
  rs_disk_stop :: bool
  rs_hung :: bool
  rs_harvested :: int
  rs_dict :: bool
  rs_exit_code :: int

definition empty_result :: result where
  "empty_result = \<lparr>rs_target = [], rs_err = None, rs_elapsed = 0, rs_log_path = [], rs_corpus_from = 0, rs_corpus_to = 0,
     rs_artifacts_from = 0, rs_artifacts_to = 0, rs_disk_stop = False, rs_hung = False, rs_harvested = 0, rs_dict = False,
     rs_exit_code = 0\<rparr>"

definition NewArtifacts :: "result \<Rightarrow> int" where
  "NewArtifacts r = (let n = rs_artifacts_to r - rs_artifacts_from r in if n > 0 then n else 0)"

definition with_defaults :: "request \<Rightarrow> request" where
  "with_defaults r = r\<lparr>rq_max_len := (if rq_max_len r = 0 then 4096 else rq_max_len r),
     rq_jobs := (if rq_jobs r = 0 then 1 else rq_jobs r),
     rq_image := (if rq_image r = [] then ''gcr.io/oss-fuzz-base/base-runner:ubuntu-24-04'' else rq_image r)\<rparr>"

definition data_dir :: "request \<Rightarrow> string" where
  "data_dir r = (if rq_data r = [] then rq_workspace r else rq_data r)"

subsection \<open>the container and its name\<close>

definition container_name :: "string \<Rightarrow> string \<Rightarrow> int \<Rightarrow> string" where
  "container_name ws t pid = ''pgfuzz-run-'' @ ws @ ''-'' @ t @ ''-'' @ itoa pid"

definition Ours :: "string \<Rightarrow> int \<Rightarrow> bool" where
  "Ours name pid \<longleftrightarrow> has_prefix name ''pgfuzz-run-'' \<and> has_suffix name (''-'' @ itoa pid)"

text \<open>The verb \<open>%d\<close> of \<open>fmt.Sscanf\<close> on text without spaces: 0 stays when there is no number or it is too big.\<close>

definition scan_int :: "string \<Rightarrow> int" where
  "scan_int s =
     (let neg = (s \<noteq> [] \<and> hd s = CHR ''-'');
          ds = takeWhile is_digit (if s \<noteq> [] \<and> (hd s = CHR ''-'' \<or> hd s = CHR ''+'') then tl s else s);
          v = (if neg then - int (dec_val ds) else int (dec_val ds))
      in if ds = [] \<or> v > max_int64 \<or> v < - max_int64 - 1 then 0 else v)"

record orphan =
  or_name :: string
  or_workspace :: string
  or_pid :: int

definition orphan_of :: "(int \<Rightarrow> bool) \<Rightarrow> string \<Rightarrow> orphan option" where
  "orphan_of alive name =
     (if \<not> has_prefix name ''pgfuzz-run-'' then None
      else let rest = drop 11 name in
        case last_index CHR ''-'' rest of
          None \<Rightarrow> None
        | Some 0 \<Rightarrow> None
        | Some i \<Rightarrow>
            (let pid = scan_int (drop (i + 1) rest);
                 ws = take i rest;
                 ws' = (case last_index CHR ''-'' ws of Some (Suc j) \<Rightarrow> take (Suc j) ws | _ \<Rightarrow> ws)
             in if pid = 0 \<or> alive pid then None
                else Some \<lparr>or_name = name, or_workspace = ws', or_pid = pid\<rparr>))"

text \<open>The names come from \<open>docker ps\<close>; when that fails there is no answer at all.\<close>

definition Orphans :: "(int \<Rightarrow> bool) \<Rightarrow> string option \<Rightarrow> orphan list option" where
  "Orphans alive out = map_option (\<lambda>s. List.map_filter (orphan_of alive) (Go_Prelude.fields s)) out"

definition ReapOwn :: "int \<Rightarrow> (string \<Rightarrow> bool) \<Rightarrow> string option \<Rightarrow> string list \<times> int" where
  "ReapOwn pid kill_ok out =
     (case out of None \<Rightarrow> ([], 0)
      | Some s \<Rightarrow> (let mine = filter (\<lambda>n. Ours n pid) (Go_Prelude.fields s) in (mine, int (length (filter kill_ok mine)))))"

definition DescribeOrphans :: "orphan list \<Rightarrow> string" where
  "DescribeOrphans os =
     (if os = [] then []
      else itoa (int (length os)) @ '' fuzzing container(s) are running with no live driver:'' @ [newline] @
        concat (map (\<lambda>r. ''  '' @ or_name r @ ''  (workspace '' @ or_workspace r @ '', started by pid '' @ itoa (or_pid r) @
          '', which is gone)'' @ [newline]) os) @
        ''  They are still writing into those workspaces, so a campaign'' @ [newline] @
        ''  measuring them would count work it did not do.'' @ [newline] @
        ''  Stop them with: docker stop <name>'')"

subsection \<open>the command line of the container\<close>

definition docker_args :: "request \<Rightarrow> string \<Rightarrow> string \<Rightarrow> int \<Rightarrow> int \<Rightarrow> int \<Rightarrow> string list" where
  "docker_args r self stamp pid uid gid =
     (let data = data_dir r;
          lineage_arg = (if rq_lineage r then ''/lineage/'' @ rq_target r @ ''-'' @ stamp @ ''.tsv'' else [])
      in [''run'', ''--privileged'', ''--shm-size=2g'', ''--platform'', ''linux/amd64'', ''--rm'',
          ''--name'', container_name (rq_name r) (rq_target r) pid,
          ''-e'', ''FUZZING_ENGINE=libfuzzer'',
          ''-e'', ''SANITIZER='' @ rq_sanitizer r,
          ''-e'', ''RUN_FUZZER_MODE=interactive'',
          ''-e'', ''HELPER=True'',
          ''-e'', ''CORPUS_DIR=/tmp/'' @ rq_target r @ ''_corpus'',
          ''-e'', ''LD_LIBRARY_PATH=/out/tmp_install/usr/local/pgsql/lib'',
          ''-e'', ''PGFUZZ_LINEAGE='' @ lineage_arg,
          ''-e'', ''PGFUZZ_UID='' @ itoa uid @ '':'' @ itoa gid,
          ''-v'', data @ ''/corpus/'' @ rq_target r @ '':/tmp/'' @ rq_target r @ ''_corpus'',
          ''-v'', data @ ''/lineage'' @ '':/lineage'',
          ''-v'', rq_out_dir r @ '':/out-lower:ro'',
          ''-v'', data @ ''/runtmp/'' @ rq_target r @ '':/run-ovl'',
          ''-v'', self @ '':/pgfuzz:ro'',
          ''--entrypoint'', ''/pgfuzz'',
          rq_image r, ''_fuzz'', rq_target r,
          ''-max_total_time='' @ itoa (rq_seconds r)] @
         (if rq_jobs r > 1 then [''-jobs='' @ itoa (rq_jobs r), ''-workers='' @ itoa (rq_jobs r)] else []) @
         [''-max_len='' @ itoa (rq_max_len r), ''-detect_leaks=0'', ''-artifact_prefix=/out/'', ''-print_final_stats=1''])"

subsection \<open>the guard\<close>

text \<open>
  The guard wakes when the slice is over, when its budget and the grace have passed, or every thirty
  seconds, when it looks at the free space (\<open>None\<close> if that cannot be read).
\<close>

datatype guard_event = Slice_over | Budget_over | Tick "f64 option"

text \<open>Whether the disk floor stopped the slice, and whether it was stopped as hung.\<close>

fun guard :: "f64 \<Rightarrow> guard_event list \<Rightarrow> bool \<times> bool" where
  "guard keep [] = (False, False)"
| "guard keep (Slice_over # es) = (False, False)"
| "guard keep (Budget_over # es) = (False, True)"
| "guard keep (Tick free # es) =
     (if keep \<le> 0 then guard keep es
      else case free of
        None \<Rightarrow> guard keep es
      | Some f \<Rightarrow> if f \<ge> keep then guard keep es else (True, False))"

definition HangGrace :: int where "HangGrace = 5 * 60 * 1000000000"

definition hard_stop :: "request \<Rightarrow> int" where
  "hard_stop r = rq_seconds r * 1000000000 + HangGrace"

subsection \<open>reproducers\<close>

definition artifactPrefixes :: "string list" where
  "artifactPrefixes = [''crash-'', ''leak-'', ''timeout-'', ''oom-'']"

definition artifact_name :: "string \<Rightarrow> bool" where
  "artifact_name n \<longleftrightarrow> list_ex (has_prefix n) artifactPrefixes"

definition saved_name :: "string \<Rightarrow> bool" where
  "saved_name n \<longleftrightarrow> length n > 6 \<and> take 6 n = ''crash-'' \<or> length n > 5 \<and> take 5 n = ''leak-'' \<or>
     length n > 4 \<and> take 4 n = ''oom-'' \<or> length n > 8 \<and> take 8 n = ''timeout-''"

definition countArtifacts :: "string gomap \<Rightarrow> int" where
  "countArtifacts dir = int (length (filter (\<lambda>(n, _). saved_name n) dir))"

text \<open>
  What moving one file comes to: the rename works, or it fails and the copy works, or the file cannot
  be read, or the write of the copy fails and leaves what it had written so far, if anything.
\<close>

datatype move = Renamed | Copied | Unreadable | Write_failed "string option"

text \<open>One directory entry of the overlay's upper layer: its name, whether it is a directory, its content.\<close>

definition harvest_entry :: "(string \<Rightarrow> move) \<Rightarrow> string \<times> bool \<times> string \<Rightarrow> string gomap \<times> int \<Rightarrow> string gomap \<times> int" where
  "harvest_entry mv = (\<lambda>(name, dir, content) (arts, moved).
     if dir then (arts, moved)
     else if \<not> artifact_name name then (arts, moved)
     else if map_of arts name \<noteq> None then (arts, moved)
     else case mv name of
       Renamed \<Rightarrow> (AList.update name content arts, moved + 1)
     | Copied \<Rightarrow> (AList.update name content arts, moved + 1)
     | Unreadable \<Rightarrow> (arts, moved)
     | Write_failed None \<Rightarrow> (arts, moved)
     | Write_failed (Some part) \<Rightarrow> (AList.update name part arts, moved))"

definition harvest :: "(string \<Rightarrow> move) \<Rightarrow> (string \<times> bool \<times> string) list option \<Rightarrow> string gomap \<Rightarrow> string gomap \<times> int" where
  "harvest mv upper arts = (case upper of None \<Rightarrow> (arts, 0) | Some es \<Rightarrow> fold (harvest_entry mv) es (arts, 0))"

subsection \<open>compressing a finished log\<close>

datatype gzip_fault = No_fault | Open_fails | Create_fails | Write_fails | Rename_fails | Remove_fails

definition gzipInPlace :: "(string \<Rightarrow> string) \<Rightarrow> gzip_fault \<Rightarrow> string \<Rightarrow> string gomap \<Rightarrow> string gomap \<times> bool" where
  "gzipInPlace gz fault path fs =
     (let tmp = path @ ''.gz.partial'' in
      case map_of fs path of
        None \<Rightarrow> (fs, False)
      | Some content \<Rightarrow>
         (case fault of
            Open_fails \<Rightarrow> (fs, False)
          | Create_fails \<Rightarrow> (fs, False)
          | Write_fails \<Rightarrow> (AList.delete tmp fs, False)
          | Rename_fails \<Rightarrow> (AList.delete tmp fs, False)
          | Remove_fails \<Rightarrow> (AList.update (path @ ''.gz'') (gz content) (AList.delete tmp fs), False)
          | No_fault \<Rightarrow> (AList.delete path (AList.update (path @ ''.gz'') (gz content) (AList.delete tmp fs)), True)))"

subsection \<open>one slice\<close>

text \<open>What one slice meets: errors before the container starts, what the container leaves, and the faults after it.\<close>

record slice_env =
  ev_self :: "string option"
  ev_binary :: bool
  ev_mkdir :: "string option"
  ev_create :: "string option"
  ev_stamp :: string
  ev_corpus_before :: "(string \<times> bool) list option"
  ev_corpus_after :: "(string \<times> bool) list option"
  ev_arts :: "string gomap"
  ev_log :: string
  ev_workers :: "string gomap"
  ev_cpu :: "string option"
  ev_guard :: "guard_event list"
  ev_elapsed :: int
  ev_dict :: "bool option"
  ev_upper :: "(string \<times> bool \<times> string) list option"
  ev_moves :: "string \<Rightarrow> move"
  ev_gz :: "string \<Rightarrow> string"
  ev_gzip :: gzip_fault
  ev_exit :: "int option"

definition countFiles :: "(string \<times> bool) list option \<Rightarrow> int" where
  "countFiles d = (case d of None \<Rightarrow> 0 | Some es \<Rightarrow> int (length (filter (\<lambda>(_, dir). \<not> dir) es)))"

text \<open>The slice's own log, its workers' logs and its processor time, all named \<open>run-\<dots>\<close>.\<close>

definition leave_logs :: "slice_env \<Rightarrow> string gomap \<Rightarrow> string gomap" where
  "leave_logs ev arts =
     (let stem = ''run-'' @ ev_stamp ev;
          logged = AList.update (stem @ ''.log'') (ev_log ev) arts;
          workers = fold (\<lambda>(n, b). AList.update (stem @ ''-'' @ n) b) (ev_workers ev) logged
      in case ev_cpu ev of None \<Rightarrow> workers | Some b \<Rightarrow> AList.update (stem @ ''.cpu'') b workers)"

definition Run :: "slice_env \<Rightarrow> request \<Rightarrow> string gomap \<times> (string + result)" where
  "Run ev r0 =
     (let r = with_defaults r0;
          log_name = ''run-'' @ ev_stamp ev @ ''.log'';
          log_path = data_dir r @ ''/artifacts/'' @ rq_target r @ ''/'' @ log_name
      in if ev_self ev = None then (ev_arts ev, Inl ''cannot find my own binary to mount'')
         else if \<not> ev_binary ev then (ev_arts ev, Inl (''no such target: '' @ rq_target r))
         else case ev_mkdir ev of Some err \<Rightarrow> (ev_arts ev, Inl err) | None \<Rightarrow>
           (case ev_create ev of Some err \<Rightarrow> (ev_arts ev, Inl err) | None \<Rightarrow>
             (let stopped = guard (rq_stop_free r) (ev_guard ev);
                  harvested = harvest (ev_moves ev) (ev_upper ev) (leave_logs ev (ev_arts ev));
                  zipped = gzipInPlace (ev_gz ev) (ev_gzip ev) log_name (fst harvested)
              in (fst zipped,
                  Inr \<lparr>rs_target = rq_target r, rs_err = None, rs_elapsed = ev_elapsed ev,
                       rs_log_path = (if snd zipped then log_path @ ''.gz'' else log_path),
                       rs_corpus_from = countFiles (ev_corpus_before ev), rs_corpus_to = countFiles (ev_corpus_after ev),
                       rs_artifacts_from = countArtifacts (ev_arts ev), rs_artifacts_to = countArtifacts (fst zipped),
                       rs_disk_stop = fst stopped, rs_hung = snd stopped, rs_harvested = snd harvested,
                       rs_dict = (case ev_dict ev of None \<Rightarrow> False | Some b \<Rightarrow> b),
                       rs_exit_code = (case ev_exit ev of None \<Rightarrow> 0 | Some n \<Rightarrow> n)\<rparr>))))"

subsection \<open>one sweep\<close>

text \<open>The remainder of Go, with the sign of the dividend.\<close>

definition go_rem :: "int \<Rightarrow> int \<Rightarrow> int" where
  "go_rem a b = a - b * quot a b"

definition rotation :: "int \<Rightarrow> 'a list \<Rightarrow> 'a list" where
  "rotation by ts =
     (let n = int (length ts) in
      if n > 1 \<and> by \<noteq> 0 then let off = nat (go_rem (go_rem by n + n) n) in drop off ts @ take off ts else ts)"

record sweep_request =
  sq_request :: request
  sq_targets :: "string list"
  sq_rotate :: int
  sq_budgets :: "(int gomap) gomap"
  sq_deadline :: bool

text \<open>
  What the sweep meets when its \<open>i\<close>-th target comes up: whether the deadline, if there is one, has
  passed, whether the context is cancelled before and after the slice, and the slice itself.
\<close>

record sweep_env =
  sv_past :: "nat \<Rightarrow> bool"
  sv_cancelled :: "nat \<Rightarrow> string option"
  sv_cancelled_in :: "nat \<Rightarrow> string option"
  sv_slice :: "nat \<Rightarrow> slice_env"

datatype sweep_event = Started string nat nat | Done string result

definition slice_request :: "sweep_request \<Rightarrow> string \<Rightarrow> request" where
  "slice_request sr t = (sq_request sr)\<lparr>rq_target := t,
     rq_seconds := budget_for (sq_budgets sr) (rq_name (sq_request sr)) t (rq_seconds (sq_request sr))\<rparr>"

fun sweep_from :: "sweep_env \<Rightarrow> sweep_request \<Rightarrow> nat \<Rightarrow> nat \<Rightarrow> string list \<Rightarrow> sweep_event list \<times> result list \<times> string option" where
  "sweep_from e sr n i [] = ([], [], None)"
| "sweep_from e sr n i (t # ts) =
     (if sq_deadline sr \<and> sv_past e i then ([], [], None)
      else case sv_cancelled e i of Some err \<Rightarrow> ([], [], Some err) | None \<Rightarrow>
        (case snd (Run (sv_slice e i) (slice_request sr t)) of
           Inl err \<Rightarrow>
             (case sv_cancelled_in e i of Some c \<Rightarrow> ([Started t (i + 1) n], [], Some c) | None \<Rightarrow>
               (let res = empty_result\<lparr>rs_target := t, rs_err := Some err\<rparr>; (ev, out, er) = sweep_from e sr n (Suc i) ts
                in (Started t (i + 1) n # Done t res # ev, res # out, er)))
         | Inr res \<Rightarrow>
             (let (ev, out, er) = sweep_from e sr n (Suc i) ts
              in (Started t (i + 1) n # Done t res # ev, res # out, er))))"

definition Sweep :: "sweep_env \<Rightarrow> sweep_request \<Rightarrow> sweep_event list \<times> result list \<times> string option" where
  "Sweep e sr = (let ts = rotation (sq_rotate sr) (sq_targets sr) in sweep_from e sr (length ts) 0 ts)"

subsection \<open>rotation\<close>

lemma go_rem_pos: "0 < n \<Longrightarrow> 0 \<le> a \<Longrightarrow> go_rem a n = a mod n"
  by (cases "a = 0") (simp_all add: go_rem_def quot_def minus_mult_div_eq_mod mult.commute)

lemma go_rem_neg: "0 < n \<Longrightarrow> a < 0 \<Longrightarrow> go_rem a n = - ((- a) mod n)"
  by (simp add: go_rem_def quot_def minus_mult_div_eq_mod [symmetric])

lemma go_rem_twice:
  assumes n: "0 < (n::int)"
  shows "go_rem (go_rem a n + n) n = a mod n"
proof (cases "0 \<le> a")
  case True
  then show ?thesis using n by (simp add: go_rem_pos)
next
  case False
  moreover have "0 \<le> - ((- a) mod n) + n" using pos_mod_bound [OF n, of "- a"] by simp
  moreover have "(- ((- a) mod n) + n) mod n = a mod n" by (simp add: mod_minus_eq)
  ultimately show ?thesis using n by (simp add: go_rem_neg go_rem_pos)
qed

text \<open>
  What a rotation by a round number promises, for the targets of a sweep here and for the workspaces of
  a campaign: it is the list turned left, by the number modulo the length, negative numbers included.
\<close>

locale rotator =
  fixes rot :: "int \<Rightarrow> 'a list \<Rightarrow> 'a list"
  assumes rot_rotate: "rot by xs = rotate (nat (by mod int (length xs))) xs"
begin

lemma mset_rot: "mset (rot by xs) = mset xs"
  by (metis append_take_drop_id mset_append rotate_drop_take rot_rotate union_commute)

lemma length_rot: "length (rot by xs) = length xs"
  by (simp add: rot_rotate)

lemma leads_at:
  assumes "i < length xs" "by mod int (length xs) = int i"
  shows "\<exists>us. rot by xs = xs ! i # us"
proof -
  have "rot by xs = rotate i xs" by (simp add: rot_rotate assms(2))
  moreover have "xs \<noteq> []" using assms(1) by auto
  then have "hd (rotate i xs) = xs ! i" "rotate i xs \<noteq> []" using assms(1) by (simp_all add: hd_rotate_conv_nth)
  ultimately show ?thesis by (metis list.collapse)
qed

lemma leads:
  assumes "x \<in> set xs"
  shows "\<exists>by \<in> {a..<a + int (length xs)}. \<exists>us. rot by xs = x # us"
proof -
  let ?n = "int (length xs)"
  obtain i where i: "i < length xs" "x = xs ! i" using assms by (auto simp: in_set_conv_nth)
  then have n: "0 < ?n" by linarith
  let ?by = "a + (int i - a) mod ?n"
  have m: "?by mod ?n = int i" using i(1) by (simp add: mod_simps)
  moreover have "?by \<in> {a..<a + ?n}" using pos_mod_bound [OF n] pos_mod_sign [OF n] by simp
  ultimately show ?thesis using leads_at [OF i(1) m] i(2) by blast
qed

end

lemma turn_rotate:
  assumes "0 < length xs"
  shows "(let off = nat (go_rem (go_rem by (int (length xs)) + int (length xs)) (int (length xs))) in drop off xs @ take off xs) =
    rotate (nat (by mod int (length xs))) xs"
proof -
  have n: "0 < int (length xs)" using assms by linarith
  have "nat (by mod int (length xs)) < length xs" using pos_mod_bound [OF n] pos_mod_sign [OF n] by (simp add: nat_less_iff)
  then show ?thesis using n by (simp add: Let_def go_rem_twice rotate_drop_take)
qed

lemma rotate_short: "length xs \<le> 1 \<Longrightarrow> rotate k xs = xs"
  by (cases xs) auto

interpretation sweep_order: rotator rotation
proof
  fix k :: int and xs :: "'a list"
  show "rotation k xs = rotate (nat (k mod int (length xs))) xs"
  proof (cases "int (length xs) > 1 \<and> k \<noteq> 0")
    case True
    then have "0 < length xs" by (cases xs) auto
    from turn_rotate [OF this, of k] True show ?thesis by (simp add: rotation_def Let_def)
  next
    case False
    then show ?thesis by (auto simp: rotation_def rotate_short)
  qed
qed

lemmas mset_rotation [simp] = sweep_order.mset_rot
lemmas length_rotation [simp] = sweep_order.length_rot

subsection \<open>the sweep\<close>

text \<open>What the sweep records for one target, whether its slice ran or failed to start.\<close>

definition slice_outcome :: "sweep_env \<Rightarrow> sweep_request \<Rightarrow> nat \<Rightarrow> string \<Rightarrow> result" where
  "slice_outcome e sr i t =
     (case snd (Run (sv_slice e i) (slice_request sr t)) of
        Inl err \<Rightarrow> empty_result\<lparr>rs_target := t, rs_err := Some err\<rparr>
      | Inr res \<Rightarrow> res)"

definition in_time :: "sweep_env \<Rightarrow> sweep_request \<Rightarrow> nat \<Rightarrow> nat list \<Rightarrow> nat" where
  "in_time e sr i js = length (takeWhile (\<lambda>j. \<not> (sq_deadline sr \<and> sv_past e j)) js)"

lemma Run_target: "snd (Run ev r) = Inr res \<Longrightarrow> rs_target res = rq_target r \<and> rs_err res = None"
  by (auto simp: Run_def Let_def with_defaults_def split: if_splits option.splits)

lemma outcome_target: "rs_target (slice_outcome e sr i t) = t"
  by (auto simp: slice_outcome_def slice_request_def split: sum.split dest!: Run_target)

lemma in_time_Cons:
  "in_time e sr i (j # js) = (if sq_deadline sr \<and> sv_past e j then 0 else Suc (in_time e sr i js))"
  by (simp add: in_time_def)

lemma sweep_from_all:
  assumes "\<forall>i. sv_cancelled e i = None \<and> sv_cancelled_in e i = None"
  shows "sweep_from e sr n i ts =
    (let js = take (in_time e sr i [i..<i + length ts]) (zip [i..<i + length ts] ts)
     in (concat (map (\<lambda>(j, t). [Started t (j + 1) n, Done t (slice_outcome e sr j t)]) js),
         map (\<lambda>(j, t). slice_outcome e sr j t) js, None))"
proof (induction ts arbitrary: i)
  case Nil
  then show ?case by simp
next
  case (Cons t ts)
  have u: "[i..<i + length (t # ts)] = i # [Suc i..<Suc i + length ts]" by (simp add: upt_rec [of i] Suc_le_eq)
  have k: "in_time e sr (Suc i) js = in_time e sr i js" for js by (simp add: in_time_def)
  show ?case
    unfolding u
    by (simp add: in_time_Cons assms Cons.IH [of "Suc i"] Let_def k slice_outcome_def split: sum.split)
qed

text \<open>
  C8: A sweep gives every target its slice: unless the operator cancels it, it takes the rotated list
  in order until the deadline, running each target exactly once; a target whose slice fails to start
  is recorded with its error and the rest still run, and each result is reported as it comes, under
  its own target's name.
\<close>

theorem sweep_takes_every_target:
  assumes "\<forall>i. sv_cancelled e i = None \<and> sv_cancelled_in e i = None"
  shows "let ts = rotation (sq_rotate sr) (sq_targets sr);
             k = length (takeWhile (\<lambda>i. \<not> (sq_deadline sr \<and> sv_past e i)) [0..<length ts]);
             (events, out, err) = Sweep e sr
         in err = None \<and> length out = k \<and> map rs_target out = take k ts \<and> mset ts = mset (sq_targets sr) \<and>
            (\<forall>i < k. case snd (Run (sv_slice e i) (slice_request sr (ts ! i))) of
               Inl why \<Rightarrow> rs_err (out ! i) = Some why
             | Inr res \<Rightarrow> out ! i = res \<and> rs_err res = None) \<and>
            events = concat (map (\<lambda>i. [Started (ts ! i) (i + 1) (length ts), Done (ts ! i) (out ! i)]) [0..<k])"
proof -
  define ts where "ts = rotation (sq_rotate sr) (sq_targets sr)"
  define k where "k = length (takeWhile (\<lambda>i. \<not> (sq_deadline sr \<and> sv_past e i)) [0..<length ts])"
  define outs where "outs = map (\<lambda>i. slice_outcome e sr i (ts ! i)) [0..<k]"
  let ?js = "map (\<lambda>i. (i, ts ! i)) [0..<k]"
  have k: "k \<le> length ts" unfolding k_def by (metis diff_zero length_takeWhile_le length_upt)
  have outs: "i < k \<Longrightarrow> outs ! i = slice_outcome e sr i (ts ! i)" for i by (simp add: outs_def)
  have "zip [0..<length ts] ts = map (\<lambda>i. (i, ts ! i)) [0..<length ts]" by (rule nth_equalityI) auto
  then have "take k (zip [0..<0 + length ts] ts) = ?js" using k by (simp add: take_map)
  moreover have "in_time e sr 0 [0..<0 + length ts] = k" by (simp add: in_time_def k_def)
  ultimately have "Sweep e sr =
      (concat (map (\<lambda>i. [Started (ts ! i) (i + 1) (length ts), Done (ts ! i) (slice_outcome e sr i (ts ! i))]) [0..<k]), outs, None)"
    unfolding Sweep_def ts_def [symmetric] by (simp add: sweep_from_all [OF assms] Let_def comp_def outs_def)
  moreover have ev: "map (\<lambda>i. [Started (ts ! i) (i + 1) (length ts), Done (ts ! i) (slice_outcome e sr i (ts ! i))]) [0..<k] =
      map (\<lambda>i. [Started (ts ! i) (i + 1) (length ts), Done (ts ! i) (outs ! i)]) [0..<k]"
    by (rule map_cong) (auto simp: outs)
  ultimately have sw: "Sweep e sr =
      (concat (map (\<lambda>i. [Started (ts ! i) (i + 1) (length ts), Done (ts ! i) (outs ! i)]) [0..<k]), outs, None)"
    by (simp only: ev)
  have "map rs_target outs = take k ts"
    using k by (intro nth_equalityI) (simp_all add: outs_def outcome_target)
  moreover have "case snd (Run (sv_slice e i) (slice_request sr (ts ! i))) of
      Inl why \<Rightarrow> rs_err (outs ! i) = Some why | Inr res \<Rightarrow> outs ! i = res \<and> rs_err res = None" if "i < k" for i
    by (auto simp: outs [OF that] slice_outcome_def split: sum.split dest: Run_target)
  moreover have "length outs = k" by (simp add: outs_def)
  moreover have "mset ts = mset (sq_targets sr)" by (simp add: ts_def)
  ultimately show ?thesis
    unfolding ts_def [symmetric] k_def [symmetric] Let_def sw by blast
qed

text \<open>
  C31: Rotation is fair: among as many consecutive rounds as there are targets every target comes up
  first once, so however short the deadline cuts the sweeps, a round that gives one slice at all gives
  it to that target.
\<close>

theorem sweep_rotation_fair:
  assumes "t \<in> set (sq_targets sr)"
  shows "\<exists>round \<in> {a..<a + int (length (sq_targets sr))}. \<forall>e.
    \<not> (sq_deadline sr \<and> sv_past e 0) \<and> sv_cancelled e 0 = None \<longrightarrow>
    (\<exists>rest. fst (Sweep e (sr\<lparr>sq_rotate := round\<rparr>)) = Started t 1 (length (sq_targets sr)) # rest)"
proof -
  obtain rd us where r: "rd \<in> {a..<a + int (length (sq_targets sr))}" "rotation rd (sq_targets sr) = t # us"
    using sweep_order.leads [OF assms] by blast
  have n: "length (sq_targets sr) = Suc (length us)" using arg_cong [OF r(2), of length] by simp
  have "\<exists>rest. fst (Sweep e (sr\<lparr>sq_rotate := rd\<rparr>)) = Started t 1 (length (sq_targets sr)) # rest"
    if "\<not> (sq_deadline sr \<and> sv_past e 0) \<and> sv_cancelled e 0 = None" for e
    using that by (simp add: Sweep_def r(2) Let_def n split: sum.split option.split prod.split)
  with r(1) show ?thesis by blast
qed

text \<open>Cancelled or not, what is reported is what is returned, a prefix of the targets in order.\<close>

definition reported :: "sweep_event list \<Rightarrow> (string \<times> result) list" where
  "reported evs = List.map_filter (\<lambda>ev. case ev of Started _ _ _ \<Rightarrow> None | Done t r \<Rightarrow> Some (t, r)) evs"

lemma reported_simps [simp]:
  "reported [] = []" "reported (Started t i n # evs) = reported evs" "reported (Done t r # evs) = (t, r) # reported evs"
  by (simp_all add: reported_def List.map_filter_simps)

lemma sweep_reported:
  "sweep_from e sr n i ts = (evs, out, err) \<Longrightarrow>
   reported evs = map (\<lambda>r. (rs_target r, r)) out \<and> map rs_target out = take (length out) ts"
proof (induction ts arbitrary: i evs out err)
  case (Cons t ts)
  obtain evs' out' err' where rec: "sweep_from e sr n (Suc i) ts = (evs', out', err')" by (metis prod_cases3)
  have o: "rs_target r = t" if "snd (Run (sv_slice e i) (slice_request sr t)) = Inr r" for r
    using Run_target [OF that] by (simp add: slice_request_def)
  show ?case
    using Cons.prems Cons.IH [OF rec] rec o by (auto simp: Let_def split: if_splits option.splits sum.splits)
qed simp

subsection \<open>whose container it is\<close>

definition word :: "string \<Rightarrow> bool" where
  "word w \<longleftrightarrow> w \<noteq> [] \<and> (\<forall>c \<in> set w. \<not> is_space c)"

lemma fields_unlines: "\<forall>w \<in> set ws. word w \<Longrightarrow> Go_Prelude.fields (unlines ws) = ws"
proof (induction ws)
  case Nil
  then show ?case by (simp add: Go_Prelude.fields_def unlines_def)
next
  case (Cons w ws)
  let ?f = "\<lambda>c. if is_space c then CHR '' '' else c"
  have w: "map ?f w = w" using Cons.prems by (auto simp: word_def intro: map_idI)
  have "CHR '' '' \<notin> set w" using Cons.prems by (auto simp: word_def is_space_def)
  moreover have "map ?f (unlines (w # ws)) = w @ CHR '' '' # map ?f (unlines ws)"
    by (simp add: unlines_def w) (simp add: is_space_def)
  ultimately show ?case
    using Cons by (simp add: Go_Prelude.fields_def split_at_append word_def)
qed

lemma last_index_append: "c \<notin> set t \<Longrightarrow> last_index c (s @ c # t) = Some (length s)"
proof (induction s)
  case Nil
  have "last_index c t = None" using Nil by (induction t) auto
  then show ?case by simp
qed simp

lemma suffix_after:
  fixes a b d d' :: string
  assumes "a @ c # d = b @ c # d'" "c \<notin> set d" "c \<notin> set d'"
  shows "d = d'"
proof -
  have "length a = length b"
    using last_index_append [of c d a] last_index_append [of c d' b] assms by simp
  with assms(1) show ?thesis by simp
qed

lemma itoa_digits: "0 \<le> i \<Longrightarrow> list_all is_digit (itoa i)"
  by (simp add: itoa_def)

lemma dec_val_itoa: "0 \<le> i \<Longrightarrow> int (dec_val (itoa i)) = i"
  by (simp add: itoa_def)

lemma no_hyphen: "list_all is_digit ds \<Longrightarrow> CHR ''-'' \<notin> set ds"
  by (auto simp: list_all_iff is_digit_def)

lemma Ours_name:
  assumes "0 \<le> pid" "0 \<le> pid'"
  shows "Ours (container_name ws t pid') pid \<longleftrightarrow> pid = pid'"
proof
  assume "Ours (container_name ws t pid') pid"
  then obtain r where "(''pgfuzz-run-'' @ ws @ ''-'' @ t) @ CHR ''-'' # itoa pid' = r @ CHR ''-'' # itoa pid"
    by (auto simp: Ours_def container_name_def has_suffix_iff)
  from suffix_after [OF this] have "itoa pid' = itoa pid"
    using assms by (simp add: no_hyphen itoa_digits)
  then show "pid = pid'" using assms by (metis dec_val_itoa)
next
  assume "pid = pid'"
  then show "Ours (container_name ws t pid') pid"
    by (auto simp: Ours_def container_name_def has_prefix_def has_suffix_iff)
qed

lemma scan_int_itoa:
  assumes "0 \<le> i" "i \<le> max_int64"
  shows "scan_int (itoa i) = i"
proof -
  have d: "list_all is_digit (itoa i)" using assms(1) by (rule itoa_digits)
  have h: "is_digit (hd (itoa i))" using d by (rule digits_hd) simp
  then have "hd (itoa i) \<noteq> CHR ''-''" "hd (itoa i) \<noteq> CHR ''+''" by (auto simp: is_digit_def)
  moreover have t: "takeWhile is_digit (itoa i) = itoa i" using d by (auto simp: list_all_iff)
  ultimately show ?thesis using assms by (simp only: scan_int_def t Let_def if_False simp_thms) (simp add: t dec_val_itoa max_int64_def)
qed

lemma orphan_of_name:
  assumes "CHR ''-'' \<notin> set t" "ws \<noteq> []" "0 < pid" "pid \<le> max_int64"
  shows "orphan_of alive (container_name ws t pid) =
    (if alive pid then None else Some \<lparr>or_name = container_name ws t pid, or_workspace = ws, or_pid = pid\<rparr>)"
proof -
  let ?rest = "ws @ ''-'' @ t @ ''-'' @ itoa pid"
  have d: "CHR ''-'' \<notin> set (itoa pid)" using assms(3) by (simp add: no_hyphen itoa_digits)
  have "drop 11 (container_name ws t pid) = ?rest" by (simp add: container_name_def)
  moreover have "last_index CHR ''-'' ?rest = Some (length (ws @ ''-'' @ t))"
    using last_index_append [OF d, of "ws @ ''-'' @ t"] by simp
  moreover have "length (ws @ ''-'' @ t) = Suc (length ws + length t)" by simp
  moreover have "take (Suc (length ws + length t)) ?rest = ws @ ''-'' @ t" by simp
  moreover have "drop (Suc (length ws + length t) + 1) ?rest = itoa pid" by simp
  moreover have "last_index CHR ''-'' (ws @ ''-'' @ t) = Some (length ws)" using last_index_append [OF assms(1), of ws] by simp
  moreover obtain j where "length ws = Suc j" using assms(2) by (cases ws) auto
  moreover have "has_prefix (container_name ws t pid) ''pgfuzz-run-''" by (simp add: container_name_def has_prefix_def)
  moreover have "scan_int (itoa pid) = pid" using assms(3,4) by (simp add: scan_int_itoa)
  ultimately show ?thesis
    using assms(3) by (simp add: orphan_of_def Let_def take_append)
qed

type_synonym run_name = "string \<times> string \<times> int"

abbreviation named :: "run_name \<Rightarrow> string" where
  "named r \<equiv> container_name (fst r) (fst (snd r)) (snd (snd r))"

definition proper_run :: "run_name \<Rightarrow> bool" where
  "proper_run r \<longleftrightarrow> word (fst r) \<and> word (fst (snd r)) \<and> CHR ''-'' \<notin> set (fst (snd r)) \<and>
     0 < snd (snd r) \<and> snd (snd r) \<le> max_int64"

lemma itoa_no_space: "c \<in> set (itoa i) \<Longrightarrow> \<not> is_space c"
  using set_itoa [of i] is_space_not_digit [of c] by (auto simp: is_space_def)

lemma word_named: "proper_run r \<Longrightarrow> word (named r)"
  by (auto simp: proper_run_def word_def container_name_def itoa_no_space is_space_def [of "CHR ''-''"]
        is_space_def [of "CHR ''p''"] is_space_def [of "CHR ''g''"] is_space_def [of "CHR ''f''"]
        is_space_def [of "CHR ''u''"] is_space_def [of "CHR ''z''"] is_space_def [of "CHR ''r''"] is_space_def [of "CHR ''n''"])

lemma filter_eqI: "(\<And>x. x \<in> set xs \<Longrightarrow> P (f x) = Q x) \<Longrightarrow> filter P (map f xs) = map f (filter Q xs)"
  by (induction xs) auto

text \<open>
  The container name carries its owner both ways: of the containers \<open>docker ps\<close> lists, an interrupted
  run kills exactly those its own process started and none of another campaign's, and the orphans of the
  preflight are exactly those whose process is gone, each under the workspace it writes into, for target
  names without a hyphen and every workspace name.
\<close>

theorem names_carry_owner:
  assumes "\<forall>r \<in> set rs. proper_run r" and "0 < pid"
  shows "fst (ReapOwn pid kill_ok (Some (unlines (map named rs)))) = map named (filter (\<lambda>r. snd (snd r) = pid) rs) \<and>
    Orphans alive (Some (unlines (map named rs))) =
      Some (map (\<lambda>r. \<lparr>or_name = named r, or_workspace = fst r, or_pid = snd (snd r)\<rparr>) (filter (\<lambda>r. \<not> alive (snd (snd r))) rs))"
proof
  have f: "Go_Prelude.fields (unlines (map named rs)) = map named rs"
    using assms(1) by (intro fields_unlines) (auto simp: word_named)
  have "filter (\<lambda>n. Ours n pid) (map named rs) = map named (filter (\<lambda>r. snd (snd r) = pid) rs)"
    by (rule filter_eqI) (use assms in \<open>auto simp: proper_run_def Ours_name\<close>)
  then show "fst (ReapOwn pid kill_ok (Some (unlines (map named rs)))) = map named (filter (\<lambda>r. snd (snd r) = pid) rs)"
    by (simp add: ReapOwn_def f Let_def)
  have "List.map_filter (orphan_of alive) (map named rs) =
      map (\<lambda>r. \<lparr>or_name = named r, or_workspace = fst r, or_pid = snd (snd r)\<rparr>) (filter (\<lambda>r. \<not> alive (snd (snd r))) rs)"
    using assms(1) by (induction rs) (auto simp: List.map_filter_simps proper_run_def word_def orphan_of_name)
  then show "Orphans alive (Some (unlines (map named rs))) =
      Some (map (\<lambda>r. \<lparr>or_name = named r, or_workspace = fst r, or_pid = snd (snd r)\<rparr>) (filter (\<lambda>r. \<not> alive (snd (snd r))) rs))"
    by (simp add: Orphans_def f)
qed

subsection \<open>the evidence a slice leaves\<close>

definition moved_whole :: "move \<Rightarrow> bool" where
  "moved_whole m \<longleftrightarrow> m = Renamed \<or> m = Copied"

lemma harvest_entry_keeps:
  "map_of arts n = Some c \<Longrightarrow> map_of (fst (harvest_entry mv e (arts, k))) n = Some c"
  by (auto simp: harvest_entry_def split: prod.split move.split option.split)

lemma harvest_fold_keeps:
  "map_of (fst s) n = Some c \<Longrightarrow> map_of (fst (fold (harvest_entry mv) es s)) n = Some c"
proof (induction es arbitrary: s)
  case (Cons e es)
  then show ?case using harvest_entry_keeps [of "fst s" n c mv e "snd s"] by simp
qed simp

lemma harvest_entry_takes:
  assumes "artifact_name n" "moved_whole (mv n)" "map_of (fst s) n \<in> {None, Some c}"
  shows "map_of (fst (harvest_entry mv (n, False, c) s)) n = Some c"
  using assms by (cases s) (auto simp: harvest_entry_def moved_whole_def split: move.split)

text \<open>Names are content hashes: two entries of one name have one content.\<close>

definition one_content :: "(string \<times> bool \<times> string) list \<Rightarrow> string gomap \<Rightarrow> bool" where
  "one_content es arts \<longleftrightarrow> distinct (map fst es) \<and>
     list_all (\<lambda>(n, dir, c). artifact_name n \<longrightarrow> map_of arts n = None \<or> map_of arts n = Some c) es"

lemma harvest_entry_other:
  "n' \<noteq> fst e \<Longrightarrow> map_of (fst (harvest_entry mv e s)) n' = map_of (fst s) n'"
  by (cases s; cases e) (auto simp: harvest_entry_def split: prod.split move.split option.split)

lemma harvest_fold_takes:
  "one_content es (fst s) \<Longrightarrow> (n, False, c) \<in> set es \<Longrightarrow> artifact_name n \<Longrightarrow> moved_whole (mv n) \<Longrightarrow>
   map_of (fst (fold (harvest_entry mv) es s)) n = Some c"
proof (induction es arbitrary: s)
  case (Cons e es)
  show ?case
  proof (cases "e = (n, False, c)")
    case True
    then have "map_of (fst (harvest_entry mv e s)) n = Some c"
      using Cons.prems by (auto simp: one_content_def intro: harvest_entry_takes)
    then show ?thesis by (simp add: harvest_fold_keeps)
  next
    case False
    have "fst e' \<noteq> fst e" if "e' \<in> set es" for e' using Cons.prems(1) that by (auto simp: one_content_def)
    then have "one_content es (fst (harvest_entry mv e s))"
      using Cons.prems(1) by (auto simp: one_content_def list_all_iff harvest_entry_other split: prod.splits)
    then show ?thesis using Cons False by simp
  qed
qed simp

lemma harvest_fold_other:
  "\<not> artifact_name n \<Longrightarrow> map_of (fst (fold (harvest_entry mv) es s)) n = map_of (fst s) n"
proof (induction es arbitrary: s)
  case (Cons e es)
  have "map_of (fst (harvest_entry mv e s)) n = map_of (fst s) n"
    using Cons.prems by (cases s; cases e) (auto simp: harvest_entry_def split: move.split option.split)
  then show ?case using Cons by simp
qed simp

lemma gzip_keeps:
  assumes "map_of fs path = Some c"
  shows "map_of (fst (gzipInPlace gz f path fs)) path = Some c \<or> map_of (fst (gzipInPlace gz f path fs)) (path @ ''.gz'') = Some (gz c)"
  using assms by (cases f) (auto simp: gzipInPlace_def Let_def)

lemma gzip_other:
  "n \<notin> {path, path @ ''.gz'', path @ ''.gz.partial''} \<Longrightarrow> map_of (fst (gzipInPlace gz f path fs)) n = map_of fs n"
  by (cases f) (auto simp: gzipInPlace_def Let_def split: option.split)

lemma not_artifact: "has_prefix n ''run-'' \<Longrightarrow> \<not> artifact_name n"
  by (auto simp: artifact_name_def artifactPrefixes_def has_prefix_iff)

lemma saved_artifact: "saved_name n \<Longrightarrow> artifact_name n"
  by (auto simp: saved_name_def artifact_name_def artifactPrefixes_def has_prefix_def eval_nat_numeral)

lemma run_named [simp]:
  "has_prefix (''run-'' @ x) ''run-''" "\<not> artifact_name (''run-'' @ x)" "\<not> saved_name (''run-'' @ x)"
  using not_artifact [of "''run-'' @ x"] saved_artifact [of "''run-'' @ x"] by (auto simp: has_prefix_def)

subsubsection \<open>counting\<close>

lemma count_update:
  "countArtifacts (AList.update n c m) = countArtifacts m + (if map_of m n = None \<and> saved_name n then 1 else 0)"
proof (induction m)
  case (Cons e m)
  then show ?case by (cases e) (auto simp: countArtifacts_def split: if_splits)
qed (simp add: countArtifacts_def)

lemma count_delete: "\<not> saved_name n \<Longrightarrow> countArtifacts (AList.delete n m) = countArtifacts m"
  by (induction m) (auto simp: countArtifacts_def)

lemma count_leave_logs: "countArtifacts (leave_logs ev arts) = countArtifacts arts"
proof -
  let ?stem = "''run-'' @ ev_stamp ev"
  have "countArtifacts (fold (\<lambda>(n, b). AList.update (?stem @ ''-'' @ n) b) ws m) = countArtifacts m" for ws m
  proof (induction ws arbitrary: m)
    case (Cons w ws)
    then show ?case using run_named(3) [of "ev_stamp ev @ ''-'' @ fst w"] by (cases w) (simp add: count_update)
  qed simp
  moreover have "\<not> saved_name (?stem @ ''.log'')" "\<not> saved_name (?stem @ ''.cpu'')"
    using run_named(3) [of "ev_stamp ev @ ''.log''"] run_named(3) [of "ev_stamp ev @ ''.cpu''"] by simp_all
  ultimately show ?thesis by (simp add: leave_logs_def Let_def count_update split: option.split)
qed

lemma count_gzip:
  assumes "has_prefix path ''run-''"
  shows "countArtifacts (fst (gzipInPlace gz f path fs)) = countArtifacts fs"
proof -
  obtain x where p: "path = ''run-'' @ x" using assms by (auto simp: has_prefix_iff)
  have "\<not> saved_name path" "\<not> saved_name (path @ ''.gz'')" "\<not> saved_name (path @ ''.gz.partial'')"
    using run_named(3) [of x] run_named(3) [of "x @ ''.gz''"] run_named(3) [of "x @ ''.gz.partial''"] by (simp_all add: p)
  then show ?thesis by (cases f) (auto simp: gzipInPlace_def Let_def count_update count_delete split: option.split)
qed

text \<open>The entries that leave a file under a reproducer's name where there was none, whole or cut short, and those moved whole.\<close>

definition leaves_file :: "move \<Rightarrow> bool" where
  "leaves_file m \<longleftrightarrow> m \<noteq> Unreadable \<and> m \<noteq> Write_failed None"

definition arrivals :: "(string \<Rightarrow> move) \<Rightarrow> string gomap \<Rightarrow> (string \<times> bool \<times> string) list \<Rightarrow> string list" where
  "arrivals mv arts es = map fst (filter (\<lambda>(n, dir, c). \<not> dir \<and> saved_name n \<and> map_of arts n = None \<and> leaves_file (mv n)) es)"

definition whole_arrivals :: "(string \<Rightarrow> move) \<Rightarrow> string gomap \<Rightarrow> (string \<times> bool \<times> string) list \<Rightarrow> string list" where
  "whole_arrivals mv arts es = map fst (filter (\<lambda>(n, dir, c). \<not> dir \<and> artifact_name n \<and> map_of arts n = None \<and> moved_whole (mv n)) es)"

lemma arrivals_cong:
  assumes "\<And>n. n \<in> fst ` set es \<Longrightarrow> artifact_name n \<Longrightarrow> map_of a n = map_of b n"
  shows "arrivals mv a es = arrivals mv b es" "whole_arrivals mv a es = whole_arrivals mv b es"
  unfolding arrivals_def whole_arrivals_def using assms saved_artifact
  by (force intro!: arg_cong [where f = "map fst"] filter_cong)+

lemma harvest_counts:
  "distinct (map fst es) \<Longrightarrow>
   countArtifacts (fst (fold (harvest_entry mv) es s)) = countArtifacts (fst s) + int (length (arrivals mv (fst s) es)) \<and>
   snd (fold (harvest_entry mv) es s) = snd s + int (length (whole_arrivals mv (fst s) es))"
proof (induction es arbitrary: s)
  case (Cons e es)
  let ?s = "harvest_entry mv e s"
  have "map_of (fst ?s) n = map_of (fst s) n" if "n \<in> fst ` set es" for n
  proof (rule harvest_entry_other)
    have "fst e \<notin> fst ` set es" using Cons.prems by simp
    then show "n \<noteq> fst e" using that by blast
  qed
  then have c: "arrivals mv (fst ?s) es = arrivals mv (fst s) es" "whole_arrivals mv (fst ?s) es = whole_arrivals mv (fst s) es"
    by (intro arrivals_cong; simp)+
  have "countArtifacts (fst ?s) = countArtifacts (fst s) + int (length (arrivals mv (fst s) [e])) \<and>
      snd ?s = snd s + int (length (whole_arrivals mv (fst s) [e]))"
    using saved_artifact [of "fst e"]
    by (cases s; cases e) (auto simp: harvest_entry_def arrivals_def whole_arrivals_def leaves_file_def moved_whole_def count_update
        split: move.split option.split)
  moreover have "arrivals mv (fst s) (e # es) = arrivals mv (fst s) [e] @ arrivals mv (fst s) es"
    "whole_arrivals mv (fst s) (e # es) = whole_arrivals mv (fst s) [e] @ whole_arrivals mv (fst s) es"
    by (simp_all add: arrivals_def whole_arrivals_def)
  ultimately show ?case using Cons.IH [of ?s] Cons.prems by (simp add: c)
qed (simp add: arrivals_def whole_arrivals_def)

lemma map_of_fold_other:
  "(\<And>k. n \<noteq> f k) \<Longrightarrow> map_of (fold (\<lambda>(k, b). AList.update (f k) b) ws m) n = map_of m n"
  by (induction ws arbitrary: m) (auto split: prod.split)

lemma leave_logs_other:
  assumes n: "\<not> has_prefix n ''run-''"
  shows "map_of (leave_logs ev arts) n = map_of arts n"
proof -
  have ne: "n \<noteq> (''run-'' @ ev_stamp ev) @ x" for x using n by (auto simp: has_prefix_def)
  show ?thesis
    using ne [of "''.log''"] ne [of "''.cpu''"] ne [of "CHR ''-'' # x" for x]
    by (simp add: leave_logs_def Let_def map_of_fold_other split: option.split)
qed

lemma leave_logs_log: "map_of (leave_logs ev arts) (''run-'' @ ev_stamp ev @ ''.log'') = Some (ev_log ev)"
  by (simp add: leave_logs_def Let_def map_of_fold_other split: option.split)

lemma Run_ok:
  assumes "snd (Run ev r) = Inr res"
  defines "h \<equiv> harvest (ev_moves ev) (ev_upper ev) (leave_logs ev (ev_arts ev))"
  shows "fst (Run ev r) = fst (gzipInPlace (ev_gz ev) (ev_gzip ev) (''run-'' @ ev_stamp ev @ ''.log'') (fst h)) \<and>
    rs_harvested res = snd h \<and> rs_artifacts_from res = countArtifacts (ev_arts ev) \<and>
    rs_artifacts_to res = countArtifacts (fst (Run ev r)) \<and>
    rs_disk_stop res = fst (guard (rq_stop_free r) (ev_guard ev)) \<and> rs_hung res = snd (guard (rq_stop_free r) (ev_guard ev))"
proof -
  have f: "rq_stop_free (with_defaults r) = rq_stop_free r" by (simp add: with_defaults_def)
  show ?thesis
    using assms(1) unfolding h_def by (auto simp: Run_def Let_def f split: if_splits option.splits)
qed

text \<open>
  C9: A slice keeps its evidence: after a slice that ran, every reproducer the container saved and that
  could be moved is among the artifacts with its own content, no reproducer an earlier slice saved has
  changed, and the slice's log is there whole, compressed or not, whatever step of the compression
  failed. What the slice reports as new is the number of reproducers that arrived under a name that was not
  there, whole or cut short by a copy that failed, and what it harvested those that arrived whole.
\<close>

theorem slice_keeps_evidence:
  assumes "snd (Run ev r) = Inr res" and "ev_upper ev = Some es" and "one_content es (ev_arts ev)"
  shows "(\<forall>n c. (n, False, c) \<in> set es \<and> artifact_name n \<and> moved_whole (ev_moves ev n) \<longrightarrow> map_of (fst (Run ev r)) n = Some c) \<and>
    (\<forall>n c. map_of (ev_arts ev) n = Some c \<and> artifact_name n \<longrightarrow> map_of (fst (Run ev r)) n = Some c) \<and>
    (map_of (fst (Run ev r)) (''run-'' @ ev_stamp ev @ ''.log'') = Some (ev_log ev) \<or>
     map_of (fst (Run ev r)) (''run-'' @ ev_stamp ev @ ''.log.gz'') = Some (ev_gz ev (ev_log ev))) \<and>
    NewArtifacts res = int (length (arrivals (ev_moves ev) (ev_arts ev) es)) \<and>
    rs_harvested res = int (length (whole_arrivals (ev_moves ev) (ev_arts ev) es))"
proof -
  define lg where "lg = ''run-'' @ ev_stamp ev @ ''.log''"
  define s0 where "s0 = (leave_logs ev (ev_arts ev), 0 :: int)"
  define s where "s = fold (harvest_entry (ev_moves ev)) es s0"
  have h: "harvest (ev_moves ev) (ev_upper ev) (leave_logs ev (ev_arts ev)) = s"
    by (simp add: harvest_def assms(2) s_def s0_def)
  have run: "fst (Run ev r) = fst (gzipInPlace (ev_gz ev) (ev_gzip ev) lg (fst s))"
    and res: "rs_harvested res = snd s" "rs_artifacts_from res = countArtifacts (ev_arts ev)"
      "rs_artifacts_to res = countArtifacts (fst (Run ev r))"
    using Run_ok [OF assms(1)] by (simp_all add: h lg_def)
  have art: "\<not> has_prefix n ''run-''" if "artifact_name n" for n using not_artifact that by blast
  have kept: "map_of (fst (Run ev r)) n = map_of (fst s) n" if "artifact_name n" for n
    unfolding run by (rule gzip_other) (use art [OF that] in \<open>auto simp: lg_def has_prefix_def\<close>)
  have oc: "one_content es (fst s0)"
    using assms(3) leave_logs_other [OF art] by (auto simp: one_content_def list_all_iff s0_def)
  show ?thesis
  proof (intro conjI allI impI; (elim conjE)?)
    fix n c assume "(n, False, c) \<in> set es" "artifact_name n" "moved_whole (ev_moves ev n)"
    then show "map_of (fst (Run ev r)) n = Some c" using harvest_fold_takes [OF oc] kept by (simp add: s_def)
  next
    fix n c assume n: "map_of (ev_arts ev) n = Some c" "artifact_name n"
    then have "map_of (fst s0) n = Some c" using leave_logs_other [OF art] by (simp add: s0_def)
    then show "map_of (fst (Run ev r)) n = Some c" using kept n(2) by (simp add: s_def harvest_fold_keeps)
  next
    have "map_of (fst s) lg = Some (ev_log ev)"
      using harvest_fold_other [of lg "ev_moves ev" es s0] leave_logs_log [of ev "ev_arts ev"] run_named(2) [of "ev_stamp ev @ ''.log''"]
      unfolding lg_def s_def s0_def by simp
    from gzip_keeps [OF this]
    show "map_of (fst (Run ev r)) (''run-'' @ ev_stamp ev @ ''.log'') = Some (ev_log ev) \<or>
        map_of (fst (Run ev r)) (''run-'' @ ev_stamp ev @ ''.log.gz'') = Some (ev_gz ev (ev_log ev))"
      unfolding run by (simp add: lg_def)
  next
    have "arrivals (ev_moves ev) (fst s0) es = arrivals (ev_moves ev) (ev_arts ev) es"
      "whole_arrivals (ev_moves ev) (fst s0) es = whole_arrivals (ev_moves ev) (ev_arts ev) es"
      by (intro arrivals_cong; simp add: s0_def leave_logs_other art)+
    with harvest_counts [of es "ev_moves ev" s0] assms(3)
    have n: "countArtifacts (fst s) = countArtifacts (ev_arts ev) + int (length (arrivals (ev_moves ev) (ev_arts ev) es))"
      "snd s = int (length (whole_arrivals (ev_moves ev) (ev_arts ev) es))"
      by (simp_all add: s_def s0_def count_leave_logs one_content_def)
    have "countArtifacts (fst (Run ev r)) = countArtifacts (fst s)"
      unfolding run by (rule count_gzip) (simp add: lg_def has_prefix_def)
    then show "NewArtifacts res = int (length (arrivals (ev_moves ev) (ev_arts ev) es))"
      "rs_harvested res = int (length (whole_arrivals (ev_moves ev) (ev_arts ev) es))"
      using n by (simp_all add: NewArtifacts_def res Let_def)
  qed
qed

subsection \<open>a small workspace\<close>

definition calm_slice :: slice_env where
  "calm_slice = \<lparr>ev_self = Some ''/bin/pgfuzz'', ev_binary = True, ev_mkdir = None, ev_create = None,
     ev_stamp = ''1'', ev_corpus_before = Some [], ev_corpus_after = Some [(''i'', False)], ev_arts = [(''crash-a'', ''x'')],
     ev_log = ''DONE'', ev_workers = [], ev_cpu = None, ev_guard = [Slice_over], ev_elapsed = 90, ev_dict = None,
     ev_upper = Some [(''crash-b'', False, ''y''), (''out'', True, [])], ev_moves = (\<lambda>_. Renamed), ev_gz = rev,
     ev_gzip = No_fault, ev_exit = Some 77\<rparr>"

definition calm_request :: request where
  "calm_request = \<lparr>rq_workspace = ''/w'', rq_data = [], rq_name = ''w'', rq_out_dir = ''/out'', rq_target = ''a'',
     rq_seconds = 90, rq_jobs = 1, rq_max_len = 0, rq_stop_free = 8, rq_sanitizer = ''address'', rq_lineage = True,
     rq_image = []\<rparr>"

definition calm_sweep :: sweep_request where
  "calm_sweep = \<lparr>sq_request = calm_request, sq_targets = [''a'', ''b'', ''c''], sq_rotate = 4, sq_budgets = [], sq_deadline = True\<rparr>"

text \<open>The second target's binary is gone, and the deadline passes before the third.\<close>

definition bumpy_sweep :: sweep_env where
  "bumpy_sweep = \<lparr>sv_past = (\<lambda>i. i \<ge> 2), sv_cancelled = (\<lambda>_. None), sv_cancelled_in = (\<lambda>_. None),
     sv_slice = (\<lambda>i. calm_slice\<lparr>ev_binary := (i \<noteq> 1)\<rparr>)\<rparr>"

theorem sweep_takes_every_target_witness:
  "map rs_target (fst (snd (Sweep bumpy_sweep calm_sweep))) = [''b'', ''c''] \<and>
   snd (snd (Sweep bumpy_sweep calm_sweep)) = None"
proof -
  have r: "rotation 4 [''a'', ''b'', ''c''] = [''b'', ''c'', ''a'']" by code_simp
  have "\<forall>i. sv_cancelled bumpy_sweep i = None \<and> sv_cancelled_in bumpy_sweep i = None" by (simp add: bumpy_sweep_def)
  from sweep_takes_every_target [OF this, of calm_sweep] show ?thesis
    by (simp add: calm_sweep_def r bumpy_sweep_def upt_rec split: prod.splits)
qed

theorem sweep_rotation_fair_witness:
  "\<exists>round \<in> {5..<8}. \<exists>rest. fst (Sweep bumpy_sweep (calm_sweep\<lparr>sq_rotate := round\<rparr>)) = Started ''c'' 1 3 # rest"
proof -
  have t: "''c'' \<in> set (sq_targets calm_sweep)" and n: "length (sq_targets calm_sweep) = 3" by (simp_all add: calm_sweep_def)
  have e: "\<not> (sq_deadline calm_sweep \<and> sv_past bumpy_sweep 0) \<and> sv_cancelled bumpy_sweep 0 = None" by (simp add: bumpy_sweep_def)
  from sweep_rotation_fair [OF t, of 5] obtain rd where "rd \<in> {5..<5 + int 3}"
    "\<exists>rest. fst (Sweep bumpy_sweep (calm_sweep\<lparr>sq_rotate := rd\<rparr>)) = Started ''c'' 1 3 # rest"
    unfolding n using e by blast
  then show ?thesis by auto
qed

theorem names_carry_owner_witness:
  "fst (ReapOwn 12 (\<lambda>_. True) (Some (unlines (map named [(''my-ws'', ''a_fuzzer'', 12), (''my-ws'', ''a_fuzzer'', 112)])))) =
     [''pgfuzz-run-my-ws-a_fuzzer-12'']"
proof -
  have p: "\<forall>r \<in> set [(''my-ws'', ''a_fuzzer'', 12), (''my-ws'', ''a_fuzzer'', 112)]. proper_run r" by code_simp
  have "container_name ''my-ws'' ''a_fuzzer'' 12 = ''pgfuzz-run-my-ws-a_fuzzer-12''" by code_simp
  then show ?thesis using names_carry_owner [OF p, of 12] by simp
qed

theorem slice_keeps_evidence_witness:
  "\<exists>res. snd (Run calm_slice calm_request) = Inr res \<and> NewArtifacts res = 1 \<and>
    map_of (fst (Run calm_slice calm_request)) ''crash-b'' = Some ''y'' \<and>
    map_of (fst (Run calm_slice calm_request)) ''crash-a'' = Some ''x''"
proof -
  obtain res where r: "snd (Run calm_slice calm_request) = Inr res"
    by (simp add: Run_def Let_def calm_slice_def)
  have u: "ev_upper calm_slice = Some [(''crash-b'', False, ''y''), (''out'', True, [])]" by (simp add: calm_slice_def)
  have oc: "one_content [(''crash-b'', False, ''y''), (''out'', True, [])] (ev_arts calm_slice)" by code_simp
  have c: "artifact_name ''crash-b''" "artifact_name ''crash-a''" "moved_whole (ev_moves calm_slice ''crash-b'')"
    "length (arrivals (ev_moves calm_slice) (ev_arts calm_slice) [(''crash-b'', False, ''y''), (''out'', True, [])]) = 1"
    "map_of (ev_arts calm_slice) ''crash-a'' = Some ''x''"
    by (code_simp, code_simp, code_simp, code_simp, code_simp)
  show ?thesis using slice_keeps_evidence [OF r u oc] r c by auto
qed

end
