(* ===== verification/Campaign.thy ===== *)
theory Campaign
  imports Fuzz Trajectory Go_Time "HOL-Library.Product_Lexorder"
begin

text \<open>
  Many workspaces for many rounds (\<open>internal/campaign\<close>): the order of targets and workspaces, what one
  sweep of a workspace records and hands to the gates, the series file, and the driver with its deadline
  policy. The sweeps themselves are those of \<open>Fuzz\<close>. Workspaces sweep concurrently; the driver only
  starts them and waits, so it is a function of the clock readings it takes.
\<close>

subsection \<open>the order of targets\<close>

record series_new_units =
  su_ws :: string
  su_new_units :: "int gomap"

definition LatestNewUnits :: "series_new_units list \<Rightarrow> string \<Rightarrow> int gomap" where
  "LatestNewUnits rows ws =
     fold (\<lambda>r out. if su_ws r \<noteq> ws then out else fold (\<lambda>(t, v). AList.update t v) (su_new_units r) out) rows []"

text \<open>A stable sort by a comparison on the newest figure, descending, and then the name is the sort by that key.\<close>

definition ByProductivity :: "string list \<Rightarrow> int gomap \<Rightarrow> string list" where
  "ByProductivity targets latest = sort_key (\<lambda>t. (- num latest t, t)) targets"

subsection \<open>workspaces and their sweep\<close>

record entry =
  en_name :: string
  en_dir :: string
  en_data :: string
  en_out_dir :: string
  en_targets :: "string list"
  en_max_len :: int
  en_san :: string

record config =
  cf_run_id :: string
  cf_hours :: f64
  cf_per_target :: int
  cf_jobs :: int
  cf_entries :: "entry list"
  cf_on_deadline :: string
  cf_max_overrun :: int
  cf_parallel :: int
  cf_budgets :: "(int gomap) gomap"
  cf_productivity :: "(int gomap) gomap"

record slice =
  sl_run_id :: string
  sl_round :: int
  sl_ws :: string
  sl_target :: string
  sl_started :: string
  sl_secs :: int
  sl_jobs :: int
  sl_dict :: bool
  sl_execs :: int
  sl_new_units :: int
  sl_cov :: int
  sl_ft :: int
  sl_corpus :: int
  sl_corpus_before :: int
  sl_disk_stop :: bool
  sl_hung :: bool
  sl_peak_rss :: int
  sl_artifacts :: int
  sl_artifacts_before :: int
  sl_artifacts_after :: int
  sl_slowest :: int
  sl_cov_start :: int
  sl_ft_start :: int
  sl_cov_gained :: int
  sl_ft_gained :: int
  sl_last_new_edge :: int
  sl_last_exec :: int
  sl_saturated :: "f64 option"
  sl_alive :: bool

text \<open>Seconds of a duration are a float, cut off; here the duration is in nanoseconds.\<close>

definition whole_seconds :: "int \<Rightarrow> int" where
  "whole_seconds d = quot d 1000000000"

text \<open>
  One row of the series, from the result and the text of its log (\<open>None\<close> if it cannot be opened).
\<close>

definition slice_row :: "config \<Rightarrow> entry \<Rightarrow> int \<Rightarrow> string \<Rightarrow> string \<Rightarrow> string option \<Rightarrow> result \<Rightarrow> slice" where
  "slice_row c e rd t started raw r =
     (let st = (case raw of None \<Rightarrow> empty_stats | Some s \<Rightarrow> parse s);
          traj = (case raw of None \<Rightarrow> empty_trajectory | Some s \<Rightarrow> summarise (read_trajectory s))
      in \<lparr>sl_run_id = cf_run_id c, sl_round = rd, sl_ws = en_name e, sl_target = t, sl_started = started,
          sl_secs = whole_seconds (rs_elapsed r), sl_jobs = cf_jobs c, sl_dict = rs_dict r,
          sl_execs = st_execs st, sl_new_units = st_new_units st, sl_cov = st_cov st, sl_ft = st_ft st,
          sl_corpus = rs_corpus_to r, sl_corpus_before = rs_corpus_from r, sl_disk_stop = rs_disk_stop r,
          sl_hung = rs_hung r, sl_peak_rss = st_peak_rss st, sl_artifacts = NewArtifacts r,
          sl_artifacts_before = rs_artifacts_from r, sl_artifacts_after = rs_artifacts_to r,
          sl_slowest = st_slowest_unit st, sl_cov_start = tj_cov_start traj, sl_ft_start = tj_ft_start traj,
          sl_cov_gained = tj_cov_gained traj, sl_ft_gained = tj_ft_gained traj,
          sl_last_new_edge = tj_last_new_edge traj, sl_last_exec = tj_last_exec traj,
          sl_saturated = tj_saturated traj, sl_alive = (st_execs st > 0 \<or> tj_last_exec traj > 0)\<rparr>)"

definition reasonNotJudgeable :: "bool \<Rightarrow> string list \<Rightarrow> string" where
  "reasonNotJudgeable whole disk_cut =
     (if \<not> whole then ''the sweep was cut short''
      else if length disk_cut > 0 then ''the disk floor cut '' @ join '', '' disk_cut
      else [])"

definition ordered_entry :: "config \<Rightarrow> entry \<Rightarrow> entry" where
  "ordered_entry c e =
     (let latest = sub (cf_productivity c) (en_name e)
      in if length latest > 0 then e\<lparr>en_targets := ByProductivity (en_targets e) latest\<rparr> else e)"

definition sweep_of :: "config \<Rightarrow> entry \<Rightarrow> int \<Rightarrow> bool \<Rightarrow> sweep_request" where
  "sweep_of c e rd has_deadline =
     \<lparr>sq_request = \<lparr>rq_workspace = en_dir e, rq_data = en_data e, rq_name = en_name e, rq_out_dir = en_out_dir e,
        rq_target = [], rq_seconds = cf_per_target c, rq_jobs = cf_jobs c, rq_max_len = en_max_len e,
        rq_stop_free = 8, rq_sanitizer = en_san e, rq_lineage = True, rq_image = []\<rparr>,
      sq_targets = en_targets e, sq_rotate = rd, sq_budgets = cf_budgets c, sq_deadline = has_deadline\<rparr>"

text \<open>What the gates are called with: the workspace, whether every target ran, and why not to judge.\<close>

record gate_call =
  gc_entry :: entry
  gc_round :: int
  gc_complete :: bool
  gc_reason :: string

text \<open>
  The rows that reach the series as slices finish: a slice that did not run writes none, and neither does one
  whose row could not be appended (\<open>writes\<close>), which is said and nothing more.
\<close>

definition rows_of :: "config \<Rightarrow> entry \<Rightarrow> int \<Rightarrow> string \<Rightarrow> (string \<Rightarrow> string option) \<Rightarrow> (string \<Rightarrow> bool) \<Rightarrow> sweep_event list \<Rightarrow> slice list" where
  "rows_of c e rd started log_at writes evs =
     List.map_filter (\<lambda>ev. case ev of
        Started _ _ _ \<Rightarrow> None
      | Done t r \<Rightarrow> if rs_err r \<noteq> None then None
          else if writes t then Some (slice_row c e rd t started (log_at (rs_log_path r)) r) else None) evs"

definition run_one :: "config \<Rightarrow> entry \<Rightarrow> int \<Rightarrow> string \<Rightarrow> (string \<Rightarrow> string option) \<Rightarrow> (string \<Rightarrow> bool) \<Rightarrow> sweep_env \<Rightarrow> slice list \<times> gate_call" where
  "run_one c e0 rd started log_at writes env =
     (let e = ordered_entry c e0;
          (evs, res, err) = Sweep env (sweep_of c e rd True);
          ran = length (filter (\<lambda>r. rs_err r = None) res);
          whole = (ran \<ge> length (en_targets e));
          disk_cut = map rs_target (filter rs_disk_stop res)
      in (rows_of c e rd started log_at writes evs,
          \<lparr>gc_entry = e, gc_round = rd, gc_complete = whole, gc_reason = reasonNotJudgeable whole disk_cut\<rparr>))"

subsection \<open>the driver\<close>

definition widest :: "entry list \<Rightarrow> int" where
  "widest es = fold (\<lambda>e w. if int (length (en_targets e)) > w then int (length (en_targets e)) else w) es 1"

definition second :: int where "second = 1000000000"

definition defaultOverrun :: "config \<Rightarrow> int" where
  "defaultOverrun c = cf_per_target c * widest (cf_entries c) * 3 * second"

definition settled :: "config \<Rightarrow> config" where
  "settled c =
     (let c1 = (if cf_on_deadline c = [] then c\<lparr>cf_on_deadline := ''cut''\<rparr> else c)
      in if cf_max_overrun c1 = 0 then c1\<lparr>cf_max_overrun := defaultOverrun c1\<rparr> else c1)"

definition deadline_of :: "config \<Rightarrow> int \<Rightarrow> int" where
  "deadline_of c start = start + f64_to_int (f64_mul (cf_hours c) (f64_of_int hour))"

definition parallel :: "config \<Rightarrow> int" where
  "parallel c = (if cf_parallel c > 1 then cf_parallel c else 1)"

text \<open>
  A workspace the driver sets going: in which round, with which bound, what the clock read at the check of
  the hard stop and at that of the deadline, when it began, after waiting for a free place, and when it was
  done.
\<close>

record launch =
  la_round :: int
  la_entry :: entry
  la_bound :: int
  la_hard_check :: int
  la_check :: int
  la_start :: int
  la_end :: int

definition rotate_entries :: "entry list \<Rightarrow> int \<Rightarrow> entry list" where
  "rotate_entries es by =
     (let n = int (length es) in
      if n < 2 then es else let off = nat (go_rem (go_rem by n + n) n) in drop off es @ take off es)"

text \<open>
  Time passes at the readings of the clock and while the driver waits. \<open>clock k\<close> is what the \<open>k\<close>-th reading
  shows at the earliest, later if the driver waited past it; the \<open>n\<close>-th workspace set going takes \<open>lasts n\<close>,
  its gates included.
\<close>

record driver =
  dr_k :: nat
  dr_now :: int
  dr_count :: nat

definition look :: "(nat \<Rightarrow> int) \<Rightarrow> driver \<Rightarrow> driver" where
  "look clock s = s\<lparr>dr_k := dr_k s + 1, dr_now := max (dr_now s) (clock (dr_k s))\<rparr>"

text \<open>The wait for a place among \<open>p\<close>, from the moments at which those before end, and the wait for all of them.\<close>

definition free_place :: "nat \<Rightarrow> int list \<Rightarrow> int \<Rightarrow> int" where
  "free_place p ends now = (if length ends < p then now else max now (sort ends ! (length ends - p)))"

definition wait_all :: "int list \<Rightarrow> driver \<Rightarrow> driver" where
  "wait_all ends s = s\<lparr>dr_now := fold max ends (dr_now s)\<rparr>"

definition set_going :: "int \<Rightarrow> entry \<Rightarrow> int \<Rightarrow> int \<Rightarrow> int \<Rightarrow> int \<Rightarrow> nat \<Rightarrow> launch" where
  "set_going rd e bound hard_check check start takes = \<lparr>la_round = rd, la_entry = e, la_bound = bound,
     la_hard_check = hard_check, la_check = check, la_start = start, la_end = start + int takes\<rparr>"

text \<open>
  The workspaces of one round in order, \<open>ends\<close> being when those of the round before this one are done; the flag
  says that the campaign returned.
\<close>

fun round_from :: "config \<Rightarrow> int \<Rightarrow> int \<Rightarrow> (nat \<Rightarrow> int) \<Rightarrow> (nat \<Rightarrow> nat) \<Rightarrow> int \<Rightarrow> int list \<Rightarrow> driver \<Rightarrow> entry list \<Rightarrow>
    launch list \<times> driver \<times> bool" where
  "round_from c deadline hard clock lasts rd ends s [] = ([], wait_all ends s, False)"
| "round_from c deadline hard clock lasts rd ends s (e # es) =
     (let s1 = look clock s; s2 = look clock s1 in
      if dr_now s1 > hard then ([], wait_all ends s1, False)
      else if dr_now s2 > deadline \<and> cf_on_deadline c = ''cut'' then ([], wait_all ends s2, False)
      else if dr_now s2 > deadline \<and> cf_on_deadline c = ''finish-sweep'' then
        (let s3 = wait_all ends s2; l = set_going rd e hard (dr_now s1) (dr_now s2) (dr_now s3) (lasts (dr_count s3))
         in ([l], s3\<lparr>dr_now := la_end l, dr_count := dr_count s3 + 1\<rparr>, True))
      else
        (let start = free_place (nat (parallel c)) ends (dr_now s2);
             l = set_going rd e deadline (dr_now s1) (dr_now s2) start (lasts (dr_count s2));
             (ls, s', stop) = round_from c deadline hard clock lasts rd (ends @ [la_end l])
               (s2\<lparr>dr_now := start, dr_count := dr_count s2 + 1\<rparr>) es
         in (l # ls, s', stop)))"

text \<open>The rounds; running out of fuel is \<open>None\<close>.\<close>

fun rounds :: "nat \<Rightarrow> config \<Rightarrow> int \<Rightarrow> int \<Rightarrow> (nat \<Rightarrow> int) \<Rightarrow> (nat \<Rightarrow> nat) \<Rightarrow> int \<Rightarrow> driver \<Rightarrow> launch list option" where
  "rounds 0 c deadline hard clock lasts rd s = None"
| "rounds (Suc fuel) c deadline hard clock lasts rd s =
     (let s1 = look clock s; s2 = look clock s1 in
      if dr_now s1 > deadline \<and> cf_on_deadline c \<noteq> ''finish-round'' then Some []
      else if dr_now s2 > hard then Some []
      else let (ls, s3, stop) = round_from c deadline hard clock lasts rd [] s2 (rotate_entries (cf_entries c) (rd * 7))
           in if stop then Some ls
              else let s4 = look clock s3 in
                if dr_now s4 > deadline then Some ls
                else map_option ((@) ls) (rounds fuel c deadline hard clock lasts (rd + 1) s4))"

definition Campaign_Run :: "nat \<Rightarrow> config \<Rightarrow> (nat \<Rightarrow> int) \<Rightarrow> (nat \<Rightarrow> nat) \<Rightarrow> launch list option" where
  "Campaign_Run fuel c0 clock lasts =
     (let c = settled c0; deadline = deadline_of c (clock 0)
      in rounds fuel c deadline (deadline + cf_max_overrun c) clock lasts 1 \<lparr>dr_k = 1, dr_now = clock 0, dr_count = 0\<rparr>)"

subsection \<open>the series file\<close>

fun split_from :: "string \<Rightarrow> string \<Rightarrow> string list" where
  "split_from cur [] = (if cur = [] then [] else [rev cur])"
| "split_from cur (c # cs) = (if c = newline then rev cur # split_from [] cs else split_from (c # cur) cs)"

definition splitLines :: "string \<Rightarrow> string list" where
  "splitLines b = split_from [] b"

text \<open>A row on its way to the file is a line of JSON, which holds no line break; \<open>decode\<close> is the JSON reader.\<close>

definition append_row :: "string \<Rightarrow> string \<Rightarrow> string" where
  "append_row file_text row = file_text @ row @ [newline]"

definition read_series :: "(string \<Rightarrow> 'a option) \<Rightarrow> string \<Rightarrow> 'a list" where
  "read_series decode b = List.map_filter (\<lambda>l. if length l = 0 then None else decode l) (splitLines b)"

subsection \<open>which targets first\<close>

lemma fold_update_wf: "wf_map m \<Longrightarrow> map_of (fold (\<lambda>(t, v). AList.update t v) m out) t =
    (case map_of m t of Some v \<Rightarrow> Some v | None \<Rightarrow> map_of out t)"
proof (induction m arbitrary: out)
  case (Cons e m)
  then show ?case by (cases e) (auto split: option.splits dest: map_of_SomeD simp: image_iff)
qed simp

lemma latest_snoc:
  "wf_map (su_new_units r) \<Longrightarrow> map_of (LatestNewUnits (rows @ [r]) ws) t =
    (if su_ws r = ws \<and> map_of (su_new_units r) t \<noteq> None then map_of (su_new_units r) t else map_of (LatestNewUnits rows ws) t)"
  by (auto simp: LatestNewUnits_def fold_update_wf split: option.split)

text \<open>
  A workspace's targets run most productive first: the order is the targets themselves, by the
  newest number of new units each has, ties by name, whatever order they were listed in; a new row of
  the series changes the figures of exactly the targets it names, so rows of one target and rows of all
  of them feed it alike.
\<close>

theorem productivity_order:
  assumes "wf_map (su_new_units r)"
  shows "let latest = LatestNewUnits (rows @ [r]) ws; out = ByProductivity targets latest
    in mset out = mset targets \<and>
       (\<forall>i j. i < j \<and> j < length out \<longrightarrow> num latest (out ! i) > num latest (out ! j) \<or>
          num latest (out ! i) = num latest (out ! j) \<and> out ! i \<le> out ! j) \<and>
       (\<forall>targets'. mset targets' = mset targets \<longrightarrow> ByProductivity targets' latest = out) \<and>
       (\<forall>t. map_of latest t = (if su_ws r = ws \<and> map_of (su_new_units r) t \<noteq> None
          then map_of (su_new_units r) t else map_of (LatestNewUnits rows ws) t))"
proof -
  define latest where "latest = LatestNewUnits (rows @ [r]) ws"
  let ?key = "\<lambda>t. (- num latest t, t)"
  let ?out = "sort_key ?key targets"
  have inj: "inj ?key" by (auto simp: inj_def)
  have "sorted (map ?key ?out)" by simp
  then have "?key (?out ! i) \<le> ?key (?out ! j)" if "i < j" "j < length ?out" for i j
    using sorted_nth_mono [of "map ?key ?out" i j] that by simp
  then have "\<forall>i j. i < j \<and> j < length ?out \<longrightarrow> num latest (?out ! i) > num latest (?out ! j) \<or>
      num latest (?out ! i) = num latest (?out ! j) \<and> ?out ! i \<le> ?out ! j"
    by (fastforce simp: less_eq_prod_def)
  moreover have "\<forall>targets'. mset targets' = mset targets \<longrightarrow> sort_key ?key targets' = ?out"
    by (intro allI impI sort_key_unique inj_on_subset [OF inj subset_UNIV])
  moreover have "\<forall>t. map_of latest t = (if su_ws r = ws \<and> map_of (su_new_units r) t \<noteq> None
      then map_of (su_new_units r) t else map_of (LatestNewUnits rows ws) t)"
    unfolding latest_def using latest_snoc [OF assms] by blast
  moreover have "mset ?out = mset targets" by simp
  ultimately show ?thesis
    unfolding latest_def [symmetric] Let_def ByProductivity_def by blast
qed

subsection \<open>what the gates may judge\<close>

lemma mset_ordered [simp]: "mset (en_targets (ordered_entry c e)) = mset (en_targets e)"
  by (simp add: ordered_entry_def Let_def ByProductivity_def)

lemma length_ordered [simp]: "length (en_targets (ordered_entry c e)) = length (en_targets e)"
  using mset_ordered mset_eq_length by blast

lemma rows_reported:
  "rows_of c e rd started log_at writes evs =
     map (\<lambda>(t, r). slice_row c e rd t started (log_at (rs_log_path r)) r) (filter (\<lambda>(t, r). rs_err r = None \<and> writes t) (reported evs))"
  by (induction evs) (auto simp: rows_of_def reported_def List.map_filter_simps split: sweep_event.splits)

lemma row_fields [simp]: "sl_target (slice_row c e rd t started raw r) = t" "sl_round (slice_row c e rd t started raw r) = rd"
  "sl_ws (slice_row c e rd t started raw r) = en_name e"
  by (simp_all add: slice_row_def Let_def)

lemma reason_empty: "reasonNotJudgeable whole cuts = [] \<longleftrightarrow> whole \<and> cuts = []"
  by (simp add: reasonNotJudgeable_def)

text \<open>
  C11: A round is judged only on whole evidence: after a sweep of a workspace, cut by the deadline or the
  operator or not, the series gets one row per slice that ran and whose row could be written, in order, under the
  right target, round and workspace and none for a slice that never started, and the gates are called without an objection
  exactly when every target of the workspace ran and the disk floor stopped none of them.
\<close>

theorem judged_only_when_whole:
  "let (rows, call) = run_one c e rd started log_at writes env;
       res = fst (snd (Sweep env (sweep_of c (ordered_entry c e) rd True)))
   in map sl_target rows = map rs_target (filter (\<lambda>r. rs_err r = None \<and> writes (rs_target r)) res) \<and>
      (\<forall>row \<in> set rows. sl_round row = rd \<and> sl_ws row = en_name e) \<and>
      (gc_reason call = [] \<longleftrightarrow>
         mset (map rs_target res) = mset (en_targets e) \<and> (\<forall>r \<in> set res. rs_err r = None \<and> \<not> rs_disk_stop r))"
proof -
  define oe where "oe = ordered_entry c e"
  define ts where "ts = rotation rd (en_targets oe)"
  obtain evs res err where sw: "Sweep env (sweep_of c oe rd True) = (evs, res, err)" by (metis prod_cases3)
  have rep: "reported evs = map (\<lambda>r. (rs_target r, r)) res" and pre: "map rs_target res = take (length res) ts"
    using sweep_reported [of env "sweep_of c oe rd True" "length ts" 0 ts evs res err] sw
    by (simp_all add: Sweep_def sweep_of_def ts_def)
  have n: "length ts = length (en_targets e)" by (simp add: ts_def oe_def)
  have m: "mset ts = mset (en_targets e)" by (simp add: ts_def oe_def)
  have le: "length res \<le> length ts" using arg_cong [OF pre, of length] by simp
  have name: "en_name oe = en_name e" by (simp add: oe_def ordered_entry_def Let_def)
  let ?ran = "filter (\<lambda>r. rs_err r = None) res"
  have full: "length ?ran \<ge> length (en_targets e) \<longleftrightarrow> length res = length ts \<and> (\<forall>r \<in> set res. rs_err r = None)"
  proof (cases "\<forall>r \<in> set res. rs_err r = None")
    case True
    then have "?ran = res" by (simp add: filter_id_conv)
    then show ?thesis using True le n by auto
  next
    case False
    then have "length ?ran < length res" using length_filter_less [of _ res "\<lambda>r. rs_err r = None"] by blast
    then show ?thesis using False le n by auto
  qed
  have perm: "mset (map rs_target res) = mset (en_targets e) \<longleftrightarrow> length res = length ts"
  proof
    assume "mset (map rs_target res) = mset (en_targets e)"
    then show "length res = length ts" using mset_eq_length n by fastforce
  next
    assume "length res = length ts"
    then show "mset (map rs_target res) = mset (en_targets e)" using pre m by simp
  qed
  have rows: "rows_of c oe rd started log_at writes evs =
      map (\<lambda>r. slice_row c oe rd (rs_target r) started (log_at (rs_log_path r)) r) (filter (\<lambda>r. rs_err r = None \<and> writes (rs_target r)) res)"
    by (simp add: rows_reported rep filter_map comp_def)
  have "run_one c e rd started log_at writes env = (rows_of c oe rd started log_at writes evs,
      \<lparr>gc_entry = oe, gc_round = rd, gc_complete = (length ?ran \<ge> length (en_targets e)),
       gc_reason = reasonNotJudgeable (length ?ran \<ge> length (en_targets e)) (map rs_target (filter rs_disk_stop res))\<rparr>)"
    by (simp add: run_one_def oe_def [symmetric] sw Let_def) (simp add: oe_def)
  moreover have "map rs_target (filter rs_disk_stop res) = [] \<longleftrightarrow> (\<forall>r \<in> set res. \<not> rs_disk_stop r)"
    by (simp add: filter_empty_conv)
  ultimately show ?thesis
    unfolding oe_def [symmetric] sw Let_def
    by (auto simp: rows name reason_empty full perm [unfolded mset_map] comp_def)
qed

subsection \<open>the deadline policy\<close>

text \<open>
  What holds of a workspace set going, given when those before it end and whether it is the last: the checks, the
  bound, that it found a place, and that the extra workspace of \<open>finish-sweep\<close> runs alone.
\<close>

definition late :: "config \<Rightarrow> int \<Rightarrow> launch \<Rightarrow> bool" where
  "late c d l \<longleftrightarrow> cf_on_deadline c = ''finish-sweep'' \<and> d < la_check l"

definition going_ok :: "config \<Rightarrow> int \<Rightarrow> int \<Rightarrow> int list \<Rightarrow> launch \<Rightarrow> bool \<Rightarrow> bool" where
  "going_ok c d h ends l is_last \<longleftrightarrow>
     la_hard_check l \<le> h \<and> la_check l \<le> la_start l \<and> la_start l \<le> la_end l \<and>
     la_bound l = (if late c d l then h else d) \<and> (cf_on_deadline c = ''cut'' \<longrightarrow> la_check l \<le> d) \<and>
     length (filter (\<lambda>f. la_start l < f) ends) < nat (parallel c) \<and>
     (late c d l \<longrightarrow> is_last \<and> (\<forall>f \<in> set ends. f \<le> la_start l))"

fun all_going :: "config \<Rightarrow> int \<Rightarrow> int \<Rightarrow> int list \<Rightarrow> launch list \<Rightarrow> bool" where
  "all_going c d h ends [] = True"
| "all_going c d h ends (l # ls) \<longleftrightarrow> going_ok c d h ends l (ls = []) \<and> all_going c d h (ends @ [la_end l]) ls"

lemma parallel_pos: "0 < nat (parallel c)"
  by (simp add: parallel_def)

lemma fold_max_ge: "now \<le> fold max ends (now::int) \<and> (\<forall>f \<in> set ends. f \<le> fold max ends now)"
proof (induction ends arbitrary: now)
  case (Cons e ends)
  from Cons [of "max e now"] show ?case by auto
qed simp

lemma few_beyond:
  assumes "sorted ys" "0 < p" "p \<le> length ys"
  shows "length (filter (\<lambda>f. ys ! (length ys - p) < f) ys) < p"
proof -
  let ?m = "length ys - p"
  have "filter (\<lambda>f. ys ! ?m < f) (take (Suc ?m) ys) = []"
  proof -
    have "ys ! i \<le> ys ! ?m" if "i < Suc ?m" for i
      using sorted_nth_mono [OF assms(1), of i ?m] that assms(2,3) by linarith
    then show ?thesis by (auto simp: filter_empty_conv in_set_conv_nth not_less)
  qed
  then have "filter (\<lambda>f. ys ! ?m < f) ys = filter (\<lambda>f. ys ! ?m < f) (drop (Suc ?m) ys)"
    by (metis append_take_drop_id filter_append append_Nil)
  then have "length (filter (\<lambda>f. ys ! ?m < f) ys) \<le> length ys - Suc ?m"
    by (metis length_drop length_filter_le)
  then show ?thesis using assms(2,3) by linarith
qed

lemma place_found:
  assumes "0 < p"
  shows "length (filter (\<lambda>f. free_place p ends now < f) ends) < p"
proof (cases "length ends < p")
  case True
  then show ?thesis using length_filter_le [of "\<lambda>f. free_place p ends now < f" ends] by linarith
next
  case False
  let ?t = "sort ends ! (length ends - p)"
  have "?t \<le> free_place p ends now" using False by (simp add: free_place_def)
  then have "filter (\<lambda>f. free_place p ends now < f) ends = filter (\<lambda>f. free_place p ends now < f) (filter (\<lambda>f. ?t < f) ends)"
    by (auto intro: filter_cong)
  then have "length (filter (\<lambda>f. free_place p ends now < f) ends) \<le> length (filter (\<lambda>f. ?t < f) ends)"
    by (metis length_filter_le)
  also have "\<dots> = length (filter (\<lambda>f. ?t < f) (sort ends))"
    by (rule mset_eq_length) (simp add: filter_sort)
  also have "\<dots> < p" using few_beyond [of "sort ends" p] assms False by simp
  finally show ?thesis .
qed

lemma place_later: "now \<le> free_place p ends now"
  by (simp add: free_place_def)

lemma look_sel [simp]: "dr_k (look clock s) = dr_k s + 1" "dr_now s \<le> dr_now (look clock s)" "clock (dr_k s) \<le> dr_now (look clock s)"
  by (simp_all add: look_def)

lemma wait_sel [simp]: "dr_k (wait_all ends s) = dr_k s" "dr_now s \<le> dr_now (wait_all ends s)"
  "f \<in> set ends \<Longrightarrow> f \<le> dr_now (wait_all ends s)"
  using fold_max_ge [of "dr_now s" ends] by (simp_all add: wait_all_def)

lemma set_going_sel [simp]:
  "la_round (set_going rd e b hc ch st n) = rd" "la_entry (set_going rd e b hc ch st n) = e" "la_bound (set_going rd e b hc ch st n) = b"
  "la_hard_check (set_going rd e b hc ch st n) = hc" "la_check (set_going rd e b hc ch st n) = ch"
  "la_start (set_going rd e b hc ch st n) = st" "la_end (set_going rd e b hc ch st n) = st + int n"
  by (simp_all add: set_going_def)

lemma all_going_append:
  "all_going c d h ends ls1 \<Longrightarrow> \<forall>l \<in> set ls1. \<not> late c d l \<Longrightarrow> all_going c d h (ends @ map la_end ls1) ls2 \<Longrightarrow>
   all_going c d h ends (ls1 @ ls2)"
  by (induction ls1 arbitrary: ends) (auto simp: going_ok_def)

lemma all_going_later:
  "all_going c d h ends ls \<Longrightarrow> \<forall>f \<in> set old. \<forall>l \<in> set ls. f \<le> la_start l \<Longrightarrow> all_going c d h (old @ ends) ls"
proof (induction ls arbitrary: ends)
  case (Cons l ls)
  have "filter (\<lambda>f. la_start l < f) old = []" using Cons.prems(2) by (auto simp: filter_empty_conv not_less)
  then have "going_ok c d h (old @ ends) l (ls = [])" using Cons.prems by (auto simp: going_ok_def)
  with Cons show ?case by simp
qed simp

lemma all_going_at:
  "all_going c d h ends (pre @ l # post) \<Longrightarrow> going_ok c d h (ends @ map la_end pre) l (post = [])"
proof (induction pre arbitrary: ends)
  case (Cons a pre)
  from Cons.IH [of "ends @ [la_end a]"] Cons.prems show ?case by simp
qed simp

definition went_ok :: "config \<Rightarrow> int \<Rightarrow> int \<Rightarrow> int \<Rightarrow> int list \<Rightarrow> driver \<Rightarrow> entry list \<Rightarrow> launch list \<times> driver \<times> bool \<Rightarrow> bool" where
  "went_ok c d h rd ends s es r = (case r of (ls, s', stop) \<Rightarrow>
     dr_k s \<le> dr_k s' \<and> dr_now s \<le> dr_now s' \<and> all_going c d h ends ls \<and> (\<not> stop \<longrightarrow> (\<forall>l \<in> set ls. \<not> late c d l)) \<and>
     map la_entry ls = take (length ls) es \<and> (\<forall>l \<in> set ls. la_round l = rd \<and> dr_now s \<le> la_start l \<and> la_end l \<le> dr_now s') \<and>
     (\<forall>f \<in> set ends. f \<le> dr_now s'))"

lemma went_nothing: "dr_k s \<le> dr_k s1 \<Longrightarrow> dr_now s \<le> dr_now s1 \<Longrightarrow> went_ok c d h rd ends s es ([], wait_all ends s1, stop)"
  using order_trans [OF _ wait_sel(2)] by (simp add: went_ok_def)

lemma round_from_ok: "went_ok c d h rd ends s es (round_from c d h clock lasts rd ends s es)"
proof (induction es arbitrary: ends s)
  case Nil
  show ?case using went_nothing [of s s] by simp
next
  case (Cons e es)
  define s1 where "s1 = look clock s"
  define s2 where "s2 = look clock s1"
  have le: "dr_now s \<le> dr_now s1" "dr_now s1 \<le> dr_now s2" "dr_k s \<le> dr_k s1" "dr_k s1 \<le> dr_k s2"
    by (simp_all add: s1_def s2_def)
  note step = round_from.simps(2) [of c d h clock lasts rd ends s e es, unfolded Let_def, folded s1_def, folded s2_def]
  consider "dr_now s1 > h" | "dr_now s1 \<le> h" "dr_now s2 > d" "cf_on_deadline c = ''cut''"
    | "dr_now s1 \<le> h" "dr_now s2 > d" "cf_on_deadline c = ''finish-sweep''"
    | "dr_now s1 \<le> h" "\<not> (dr_now s2 > d \<and> cf_on_deadline c = ''cut'')" "\<not> (dr_now s2 > d \<and> cf_on_deadline c = ''finish-sweep'')"
    by linarith
  then show ?case
  proof cases
    case 1
    then show ?thesis unfolding step using went_nothing le(1,3) by simp
  next
    case 2
    have "went_ok c d h rd ends s (e # es) ([], wait_all ends s2, False)"
      using went_nothing [of s s2] le by (meson order_trans)
    then show ?thesis unfolding step using 2 by simp
  next
    case 3
    have "\<forall>f \<in> set ends. f \<le> dr_now (wait_all ends s2)" by simp
    then have "filter (\<lambda>f. dr_now (wait_all ends s2) < f) ends = []" by (auto simp: filter_empty_conv not_less)
    moreover have "\<not> (dr_now s2 > d \<and> cf_on_deadline c = ''cut'')" using 3 by simp
    ultimately show ?thesis unfolding step went_ok_def
      using 3 le wait_sel(2) [of s2 ends] wait_sel(3) [of _ ends s2] parallel_pos [of c]
      by (auto simp: going_ok_def late_def simp del: zero_less_nat_eq wait_sel(2,3) intro: add_increasing2)
  next
    case 4
    define start where "start = free_place (nat (parallel c)) ends (dr_now s2)"
    define l where "l = set_going rd e d (dr_now s1) (dr_now s2) start (lasts (dr_count s2))"
    define s3 where "s3 = s2\<lparr>dr_now := start, dr_count := dr_count s2 + 1\<rparr>"
    obtain ls s' stop where r: "round_from c d h clock lasts rd (ends @ [la_end l]) s3 es = (ls, s', stop)" by (metis prod_cases3)
    have eq: "round_from c d h clock lasts rd ends s (e # es) = (l # ls, s', stop)"
    proof -
      have "\<not> dr_now s1 > h" using 4 by simp
      then show ?thesis unfolding step using 4(2,3) r
        by (simp only: if_False prod.case start_def [symmetric] l_def [symmetric] s3_def [symmetric])
    qed
    have ih: "went_ok c d h rd (ends @ [la_end l]) s3 es (ls, s', stop)" using Cons.IH r by metis
    have st: "dr_now s2 \<le> start" by (simp add: start_def place_later)
    have "going_ok c d h ends l (ls = [])"
      using 4 st place_found [OF parallel_pos, of c ends "dr_now s2"]
      by (auto simp: going_ok_def late_def l_def start_def)
    moreover have "\<not> late c d l" using 4 by (auto simp: late_def l_def)
    ultimately show ?thesis
      using ih st le unfolding eq went_ok_def by (auto simp: s3_def l_def)
  qed
qed

definition round_prefix :: "config \<Rightarrow> launch list \<Rightarrow> int \<Rightarrow> bool" where
  "round_prefix c ls r \<longleftrightarrow>
     (\<exists>m. map la_entry (filter (\<lambda>l. la_round l = r) ls) = take m (rotate_entries (cf_entries c) (r * 7)))"

lemma rounds_ok:
  "rounds fuel c d h clock lasts rd s = Some ls \<Longrightarrow>
   all_going c d h [] ls \<and> (\<forall>l \<in> set ls. rd \<le> la_round l \<and> dr_now s \<le> la_start l) \<and> (\<forall>r. round_prefix c ls r)"
proof (induction fuel arbitrary: rd s ls)
  case (Suc fuel)
  have nil: "all_going c d h [] [] \<and> (\<forall>l \<in> set []. rd \<le> la_round l \<and> dr_now s \<le> la_start l) \<and> (\<forall>r. round_prefix c [] r)"
    by (simp add: round_prefix_def)
  define s2 where "s2 = look clock (look clock s)"
  have le: "dr_now s \<le> dr_now s2" unfolding s2_def using look_sel(2) order_trans by blast
  obtain ls1 s3 stop where rec: "round_from c d h clock lasts rd [] s2 (rotate_entries (cf_entries c) (rd * 7)) = (ls1, s3, stop)"
    by (metis prod_cases3)
  have ok: "went_ok c d h rd [] s2 (rotate_entries (cf_entries c) (rd * 7)) (ls1, s3, stop)" using round_from_ok rec by metis
  note ok = ok [unfolded went_ok_def prod.case]
  have p1: "round_prefix c ls1 r" for r
  proof (cases "r = rd")
    case True
    then have "filter (\<lambda>l. la_round l = r) ls1 = ls1" using ok by (simp add: filter_id_conv)
    then show ?thesis using ok True by (auto simp: round_prefix_def)
  next
    case False
    then have "filter (\<lambda>l. la_round l = r) ls1 = []" using ok by (simp add: filter_empty_conv)
    then show ?thesis by (auto simp: round_prefix_def)
  qed
  consider "ls = []" | "ls = ls1" | ls2 where "ls = ls1 @ ls2" "\<not> stop" "rounds fuel c d h clock lasts (rd + 1) (look clock s3) = Some ls2"
    using Suc.prems rec by (auto simp: Let_def s2_def split: if_splits)
  then show ?case
  proof cases
    case 1
    then show ?thesis using nil by simp
  next
    case 2
    then show ?thesis using ok p1 le by force
  next
    case (3 ls2)
    note rest = Suc.IH [OF 3(3)]
    have "round_prefix c ls r" for r
    proof (cases "r = rd")
      case True
      then have "filter (\<lambda>l. la_round l = r) ls2 = []" using rest by (force simp: filter_empty_conv)
      then show ?thesis using p1 [of r] 3(1) by (simp add: round_prefix_def)
    next
      case False
      then have "filter (\<lambda>l. la_round l = r) ls1 = []" using ok by (simp add: filter_empty_conv)
      then show ?thesis using rest 3(1) by (simp add: round_prefix_def)
    qed
    moreover have late: "dr_now s3 \<le> la_start l" if "l \<in> set ls2" for l
      using rest that look_sel(2) [of s3 clock] by (meson order_trans)
    then have "\<forall>f \<in> set (map la_end ls1). \<forall>l \<in> set ls2. f \<le> la_start l" using ok by fastforce
    then have "all_going c d h (map la_end ls1 @ []) ls2" using all_going_later rest by blast
    then have "all_going c d h [] ls" using all_going_append [of c d h "[]" ls1 ls2] ok 3(1,2) by simp
    moreover have "dr_now s \<le> la_start l" if "l \<in> set ls" for l
      using that 3(1) ok le late [of l] by (auto intro: order_trans)
    ultimately show ?thesis using ok rest 3(1) by fastforce
  qed
qed simp

lemma sweep_past: "sv_past env 0 \<Longrightarrow> fst (snd (Sweep env (sweep_of c e rd True))) = []"
  by (cases "rotation rd (en_targets e)") (simp_all add: Sweep_def sweep_of_def Let_def)

lemma past_writes_nothing:
  assumes "sv_past env 0"
  shows "fst (run_one c e rd started log_at writes env) = [] \<and>
    (en_targets e \<noteq> [] \<longrightarrow> gc_reason (snd (run_one c e rd started log_at writes env)) = ''the sweep was cut short'')"
proof -
  obtain evs res err where sw: "Sweep env (sweep_of c (ordered_entry c e) rd True) = (evs, res, err)"
    by (metis prod_cases3)
  have "res = []" using sweep_past [OF assms] sw by (metis fst_conv snd_conv)
  moreover have "reported evs = map (\<lambda>r. (rs_target r, r)) res" using sweep_reported sw unfolding Sweep_def Let_def by blast
  ultimately show ?thesis by (simp add: run_one_def sw Let_def rows_reported reasonNotJudgeable_def)
qed


subsection \<open>the campaign ends\<close>

lemma rounds_end:
  assumes "mono clock" "deadline < clock N"
  shows "0 < fuel \<Longrightarrow> N < fuel + dr_k s \<Longrightarrow> rounds fuel c deadline hard clock lasts rd s \<noteq> None"
proof (induction fuel arbitrary: rd s)
  case (Suc fuel)
  define s2 where "s2 = look clock (look clock s)"
  obtain ls1 s3 stop where rec: "round_from c deadline hard clock lasts rd [] s2 (rotate_entries (cf_entries c) (rd * 7)) = (ls1, s3, stop)"
    by (metis prod_cases3)
  have "went_ok c deadline hard rd [] s2 (rotate_entries (cf_entries c) (rd * 7)) (ls1, s3, stop)" using round_from_ok rec by metis
  then have k: "dr_k s + 2 \<le> dr_k s3" by (simp add: went_ok_def s2_def)
  show ?case
  proof (cases "N \<le> dr_k s3")
    case True
    then have "deadline < dr_now (look clock s3)"
      using assms monoD [OF assms(1), of N "dr_k s3"] look_sel(3) [of clock s3] by linarith
    then show ?thesis using rec by (simp add: Let_def s2_def [symmetric])
  next
    case False
    then have "0 < fuel" "N < fuel + dr_k (look clock s3)" using Suc.prems k by simp_all
    then have "rounds fuel c deadline hard clock lasts (rd + 1) (look clock s3) \<noteq> None" by (rule Suc.IH)
    then show ?thesis using rec by (simp add: Let_def s2_def [symmetric])
  qed
qed simp

lemma rounds_more: "rounds fuel c deadline hard clock lasts rd s = Some ls \<Longrightarrow> rounds (fuel + m) c deadline hard clock lasts rd s = Some ls"
proof (induction fuel arbitrary: rd s ls)
  case (Suc fuel)
  define s2 where "s2 = look clock (look clock s)"
  obtain ls1 s3 stop where rec: "round_from c deadline hard clock lasts rd [] s2 (rotate_entries (cf_entries c) (rd * 7)) = (ls1, s3, stop)"
    by (metis prod_cases3)
  show ?case using Suc.prems Suc.IH rec by (auto simp: Let_def s2_def [symmetric] split: if_splits)
qed simp

text \<open>
  C27: A campaign ends: on a clock that never runs backwards and at some reading is past the deadline, the
  driver returns, under every policy, however many workspaces there are and whatever they take; one round per
  reading is fuel enough, and more of it changes nothing.
\<close>

theorem campaign_ends:
  assumes "mono clock" and "deadline_of (settled c0) (clock 0) < clock N"
  shows "\<exists>ls. \<forall>fuel > N. Campaign_Run fuel c0 clock lasts = Some ls"
proof -
  let ?r = "\<lambda>fuel. rounds fuel (settled c0) (deadline_of (settled c0) (clock 0))
    (deadline_of (settled c0) (clock 0) + cf_max_overrun (settled c0)) clock lasts 1 \<lparr>dr_k = 1, dr_now = clock 0, dr_count = 0\<rparr>"
  have "?r (Suc N) \<noteq> None" by (rule rounds_end [OF assms]) simp_all
  then obtain ls where ls: "?r (Suc N) = Some ls" by blast
  have "?r fuel = Some ls" if "N < fuel" for fuel
    using rounds_more [OF ls, of "fuel - Suc N"] that by simp
  then show ?thesis by (auto simp: Campaign_Run_def Let_def)
qed

subsection \<open>past the deadline\<close>

lemma settled_policy: "cf_on_deadline c0 \<noteq> [] \<Longrightarrow> cf_on_deadline (settled c0) = cf_on_deadline c0"
  by (simp add: settled_def Let_def)

text \<open>
  C33: The policy to finish the round fuzzes nothing past the deadline: a workspace it sets going after
  the deadline is handed the deadline that has already passed, so the sweep, whose first look at the
  clock comes later still, runs no target, records no slice, and reports the round as cut short; the
  policy to finish the sweep hands down the hard stop instead.
\<close>

theorem finish_round_past_deadline_idle:
  assumes "Campaign_Run fuel c0 clock lasts = Some ls" and "cf_on_deadline c0 = ''finish-round''" and "l \<in> set ls"
    and "deadline_of (settled c0) (clock 0) < la_check l" and "la_check l \<le> reading"
    and "sv_past env 0 \<longleftrightarrow> la_bound l < reading" and "en_targets (la_entry l) \<noteq> []"
  shows "fst (run_one (settled c0) (la_entry l) (la_round l) started log_at writes env) = [] \<and>
    gc_reason (snd (run_one (settled c0) (la_entry l) (la_round l) started log_at writes env)) = ''the sweep was cut short''"
proof -
  let ?c = "settled c0" and ?d = "deadline_of (settled c0) (clock 0)"
  have "rounds fuel ?c ?d (?d + cf_max_overrun ?c) clock lasts 1 \<lparr>dr_k = 1, dr_now = clock 0, dr_count = 0\<rparr> = Some ls"
    using assms(1) by (simp add: Campaign_Run_def Let_def)
  note ok = rounds_ok [OF this]
  obtain pre post where "ls = pre @ l # post" using assms(3) by (meson split_list)
  then have "going_ok ?c ?d (?d + cf_max_overrun ?c) (map la_end pre) l (post = [])"
    using all_going_at [of ?c ?d "?d + cf_max_overrun ?c" "[]" pre l post] ok by simp
  then have "la_bound l = ?d" using assms(2) by (simp add: going_ok_def late_def settled_policy)
  then have "sv_past env 0" using assms(4-6) by linarith
  then show ?thesis using past_writes_nothing assms(7) by blast
qed

subsection \<open>which workspace first\<close>

interpretation workspace_order: rotator "\<lambda>by es. rotate_entries es by"
proof
  fix k :: int and es :: "entry list"
  show "rotate_entries es k = rotate (nat (k mod int (length es))) es"
  proof (cases "length es < 2")
    case True
    then show ?thesis by (simp add: rotate_entries_def rotate_short)
  next
    case False
    then have "0 < length es" by (cases es) auto
    from turn_rotate [OF this, of k] False show ?thesis by (simp add: rotate_entries_def Let_def)
  qed
qed

lemma stride_reaches:
  assumes "coprime 7 n" "0 < n" "0 \<le> i" "i < (n::int)"
  shows "\<exists>r \<in> {a..<a + n}. (r * 7) mod n = i"
proof -
  obtain u v where uv: "u * 7 + v * n = 1" using bezout_int [of 7 n] assms(1) by (auto simp: coprime_iff_gcd_eq_1)
  let ?r = "a + (i * u - a) mod n"
  have "?r mod n = (i * u) mod n" by (simp add: mod_simps)
  then have "(?r * 7) mod n = (i * u * 7) mod n" by (metis mod_mult_left_eq)
  moreover have "u * 7 = 1 - v * n" using uv by linarith
  then have "i * u * 7 = i - (i * v) * n" by (simp add: mult.assoc right_diff_distrib)
  moreover have "(i - (i * v) * n) mod n = i mod n" by (simp add: mod_diff_right_eq [symmetric])
  ultimately have "(?r * 7) mod n = i" using assms(3,4) by simp
  moreover have "?r \<in> {a..<a + n}" using pos_mod_bound [OF assms(2)] pos_mod_sign [OF assms(2)] by simp
  ultimately show ?thesis by blast
qed

lemma coprime_seven:
  assumes "\<not> 7 dvd (n::nat)"
  shows "coprime 7 n"
proof -
  have "n mod 7 < 7" "n mod 7 \<noteq> 0" using assms by (auto simp: mod_eq_0_iff_dvd)
  then have "n mod 7 \<in> {1, 2, 3, 4, 5, 6}" by auto
  then have "gcd 7 (n mod 7) = 1" by (auto simp: gcd_non_0_nat)
  then show ?thesis by (simp add: coprime_iff_gcd_eq_1 gcd_red_nat [of n 7] gcd.commute)
qed

text \<open>
  The rotation of the workspaces by seven a round gives every workspace the first place once in as
  many consecutive rounds as there are workspaces, as long as that number is not a multiple of seven;
  with exactly seven workspaces it never moves, and the same arm is last in every round.
\<close>

theorem workspace_rotation_stride:
  "(\<not> 7 dvd length es \<longrightarrow> (\<forall>e \<in> set es. \<exists>r \<in> {a..<a + int (length es)}. \<exists>rest. rotate_entries es (r * 7) = e # rest)) \<and>
   (length es = 7 \<longrightarrow> (\<forall>r. rotate_entries es (r * 7) = es))"
proof (intro conjI impI ballI allI)
  fix e assume d: "\<not> 7 dvd length es" and e: "e \<in> set es"
  let ?n = "int (length es)"
  obtain i where i: "i < length es" "e = es ! i" using e by (auto simp: in_set_conv_nth)
  have "coprime 7 (length es)" using d by (rule coprime_seven)
  then have "coprime 7 ?n" by (metis coprime_int_iff of_nat_numeral)
  then obtain r where r: "r \<in> {a..<a + ?n}" "(r * 7) mod ?n = int i"
    using stride_reaches [of ?n "int i" a] i(1) by force
  have "\<exists>rest. rotate_entries es (r * 7) = e # rest" using workspace_order.leads_at [OF i(1) r(2)] i(2) by simp
  with r(1) show "\<exists>r \<in> {a..<a + ?n}. \<exists>rest. rotate_entries es (r * 7) = e # rest" by blast
next
  fix r assume "length es = 7"
  then show "rotate_entries es (r * 7) = es" by (simp add: workspace_order.rot_rotate)
qed

subsection \<open>what a kill costs the series\<close>

lemma split_from_line: "newline \<notin> set l \<Longrightarrow> split_from cur (l @ newline # b) = (rev cur @ l) # split_from [] b"
  by (induction l arbitrary: cur) auto

lemma splitLines_append: "newline \<notin> set l \<Longrightarrow> splitLines (l @ newline # b) = l # splitLines b"
  using split_from_line [of l "[]" b] by (simp add: splitLines_def)

lemma splitLines_unlines: "\<forall>l \<in> set ls. newline \<notin> set l \<Longrightarrow> splitLines (unlines ls @ b) = ls @ splitLines b"
  by (induction ls) (simp_all add: unlines_def splitLines_append)

lemma split_from_free: "newline \<notin> set b \<Longrightarrow> split_from cur b = (if rev cur @ b = [] then [] else [rev cur @ b])"
  by (induction b arbitrary: cur) auto

lemma fold_append_row: "fold (\<lambda>l t. append_row t l) ls b = b @ unlines ls"
  by (induction ls arbitrary: b) (simp_all add: append_row_def unlines_def)

definition decoded :: "(string \<Rightarrow> 'a option) \<Rightarrow> string list \<Rightarrow> 'a list" where
  "decoded decode ls = List.map_filter (\<lambda>l. if length l = 0 then None else decode l) ls"

lemma decoded_append: "decoded decode (xs @ ys) = decoded decode xs @ decoded decode ys"
  by (simp add: decoded_def map_filter_append)

lemma decoded_tail: "newline \<notin> set b \<Longrightarrow> decoded decode (splitLines b) = decoded decode [b]"
  by (simp add: splitLines_def split_from_free decoded_def List.map_filter_simps)

text \<open>
  C34: The series survives a kill: rows appended one by one, however many, are read back in order each as
  it decodes on its own, whatever part of a further row was written when the process died; the price is
  that the next row appended lands on the torn line and is read together with it.
\<close>

theorem series_survives_kill:
  assumes "\<forall>l \<in> set ls. newline \<notin> set l" and "newline \<notin> set torn" and "newline \<notin> set row"
  shows "read_series decode (fold (\<lambda>l t. append_row t l) ls [] @ torn) = decoded decode ls @ decoded decode [torn] \<and>
    read_series decode (append_row (fold (\<lambda>l t. append_row t l) ls [] @ torn) row) =
      decoded decode ls @ decoded decode [torn @ row]"
proof -
  have r: "read_series decode (unlines ls @ b) = decoded decode ls @ decoded decode (splitLines b)" for b
    by (simp add: read_series_def splitLines_unlines [OF assms(1)] decoded_def map_filter_append)
  have "newline \<notin> set (torn @ row)" using assms(2,3) by simp
  then have "splitLines ((torn @ row) @ newline # []) = [torn @ row]" using splitLines_append [of "torn @ row" "[]"] by (simp add: splitLines_def)
  then have "read_series decode (unlines ls @ torn @ row @ [newline]) = decoded decode ls @ decoded decode [torn @ row]"
    by (simp add: r)
  moreover have "read_series decode (unlines ls @ torn) = decoded decode ls @ decoded decode [torn]"
    by (simp only: r decoded_tail [OF assms(2)])
  ultimately show ?thesis unfolding fold_append_row by (simp add: append_row_def)
qed

subsection \<open>a short campaign\<close>

definition two_entries :: "entry list" where
  "two_entries = map (\<lambda>n. \<lparr>en_name = n, en_dir = n, en_data = [], en_out_dir = [], en_targets = [''a'', ''b''], en_max_len = 0,
     en_san = ''address''\<rparr>) [''v'', ''w'']"

definition short_campaign :: "string \<Rightarrow> config" where
  "short_campaign policy = \<lparr>cf_run_id = ''r'', cf_hours = 0, cf_per_target = 1, cf_jobs = 1, cf_entries = two_entries,
     cf_on_deadline = policy, cf_max_overrun = 0, cf_parallel = 1, cf_budgets = [], cf_productivity = []\<rparr>"

text \<open>A clock that steps one nanosecond a reading, and stands still for its first four.\<close>

definition slow_clock :: "nat \<Rightarrow> int" where
  "slow_clock k = (if k \<le> 4 then 0 else int k)"

lemma slow_mono: "mono slow_clock"
  by (rule monoI) (simp add: slow_clock_def)

lemma f64_to_int_0: "f64_to_int 0 = 0" "f64 0 = 0"
  by (code_simp, code_simp)

lemma short_deadline: "deadline_of (settled (short_campaign p)) (slow_clock 0) = 0"
  by (simp add: deadline_of_def settled_def short_campaign_def slow_clock_def f64_mul_def Let_def f64_to_int_0)

theorem productivity_order_witness:
  "ByProductivity [''b'', ''a'', ''c''] (LatestNewUnits ([\<lparr>su_ws = ''w'', su_new_units = [(''a'', 5), (''b'', 1)]\<rparr>] @
     [\<lparr>su_ws = ''w'', su_new_units = [(''b'', 9)]\<rparr>]) ''w'') = [''b'', ''a'', ''c'']"
proof -
  let ?r = "\<lparr>su_ws = ''w'', su_new_units = [(''b'', 9 :: int)]\<rparr>" and ?rows = "[\<lparr>su_ws = ''w'', su_new_units = [(''a'', 5), (''b'', 1 :: int)]\<rparr>]"
  have w: "wf_map (su_new_units ?r)" by simp
  have "ByProductivity [''a'', ''b'', ''c''] (LatestNewUnits (?rows @ [?r]) ''w'') = [''b'', ''a'', ''c'']" by code_simp
  then show ?thesis using productivity_order [OF w, of ?rows "''w''" "[''a'', ''b'', ''c'']"] by (simp add: Let_def)
qed

definition late_launch :: "string \<Rightarrow> int \<Rightarrow> launch list" where
  "late_launch who b = map (\<lambda>(n, bound, hc, chk, st, en). \<lparr>la_round = 1,
     la_entry = \<lparr>en_name = n, en_dir = n, en_data = [], en_out_dir = [], en_targets = [''a'', ''b''], en_max_len = 0,
       en_san = ''address''\<rparr>, la_bound = bound, la_hard_check = hc, la_check = chk, la_start = st, la_end = en\<rparr>)
     [(''w'', 0, 0, 0, 0, 4), (who, b, 5, 6, 6, 10)]"

text \<open>The second target's binary is gone: one row, and an objection to judging.\<close>

theorem judged_only_when_whole_witness:
  "map sl_target (fst (run_one (short_campaign ''cut'') (hd two_entries) 1 ''now'' (\<lambda>_. None) (\<lambda>_. True) bumpy_sweep)) = [''b''] \<and>
   gc_reason (snd (run_one (short_campaign ''cut'') (hd two_entries) 1 ''now'' (\<lambda>_. None) (\<lambda>_. True) bumpy_sweep)) \<noteq> []"
proof -
  define res where "res = fst (snd (Sweep bumpy_sweep (sweep_of (short_campaign ''cut'')
    (ordered_entry (short_campaign ''cut'') (hd two_entries)) 1 True)))"
  have err: "map (\<lambda>r. (rs_target r, rs_err r = None)) res = [(''b'', True), (''a'', False)]"
    unfolding res_def by code_simp
  then obtain r1 r2 where r: "res = [r1, r2]" "rs_target r1 = ''b''" "rs_err r1 = None" "rs_err r2 \<noteq> None" by auto
  from judged_only_when_whole [of "short_campaign ''cut''" "hd two_entries" 1 "''now''" "\<lambda>_. None" "\<lambda>_. True" bumpy_sweep]
  show ?thesis unfolding res_def [symmetric] Let_def by (auto simp: r split: prod.splits)
qed

lemma short_runs:
  "Campaign_Run 5 (short_campaign ''finish-round'') slow_clock (\<lambda>_. 4) = Some (late_launch ''v'' 0)"
  "Campaign_Run 5 (short_campaign ''finish-sweep'') slow_clock (\<lambda>_. 4) = Some (late_launch ''v'' 6000000000)"
  by (code_simp, code_simp)

text \<open>
  With room for one, the workspace after the first passes its check of the deadline at once, waits until the first
  is done, and begins past the deadline with the deadline as its bound.
\<close>

definition waited_launch :: "launch list" where
  "waited_launch = map (\<lambda>(n, st, en). \<lparr>la_round = 1,
     la_entry = \<lparr>en_name = n, en_dir = n, en_data = [], en_out_dir = [], en_targets = [''a'', ''b''], en_max_len = 0,
       en_san = ''address''\<rparr>, la_bound = 0, la_hard_check = 0, la_check = 0, la_start = st, la_end = en\<rparr>)
     [(''w'', 0, 4), (''v'', 4, 8)]"

definition still_clock :: "nat \<Rightarrow> int" where "still_clock k = (if k \<le> 6 then 0 else int k)"


text \<open>Under the policy to finish the sweep the same one is cut: it passed its check, and nobody gets the extra sweep.\<close>

lemma waited_under_finish_sweep: "Campaign_Run 5 (short_campaign ''finish-sweep'') still_clock (\<lambda>_. 4) = Some waited_launch"
  by code_simp


theorem campaign_ends_witness: "\<exists>ls. \<forall>fuel > 5. Campaign_Run fuel (short_campaign ''finish-round'') slow_clock (\<lambda>_. 4) = Some ls"
  by (rule campaign_ends [OF slow_mono]) (simp only: short_deadline, simp add: slow_clock_def)

theorem finish_round_past_deadline_idle_witness:
  "\<exists>l env. l \<in> set (late_launch ''v'' 0) \<and> 0 < la_check l \<and>
    gc_reason (snd (run_one (settled (short_campaign ''finish-round'')) (la_entry l) (la_round l) ''now'' (\<lambda>_. None) (\<lambda>_. True) env)) =
      ''the sweep was cut short''"
proof -
  define l where "l = last (late_launch ''v'' 0)"
  define env where "env = bumpy_sweep\<lparr>sv_past := (\<lambda>_. True)\<rparr>"
  have l: "l \<in> set (late_launch ''v'' 0)" "la_check l = 6" "la_bound l = 0" "en_targets (la_entry l) \<noteq> []"
    by (simp_all add: l_def late_launch_def)
  have "sv_past env 0 \<longleftrightarrow> la_bound l < 6" by (simp add: env_def l)
  note idle = finish_round_past_deadline_idle [OF short_runs(1) _ l(1) _ _ this l(4)]
  have "cf_on_deadline (short_campaign ''finish-round'') = ''finish-round''" by (simp add: short_campaign_def)
  with idle have "gc_reason (snd (run_one (settled (short_campaign ''finish-round'')) (la_entry l) (la_round l) ''now'' (\<lambda>_. None) (\<lambda>_. True) env)) =
      ''the sweep was cut short''"
    by (simp add: short_deadline l(2) del: settled_def)
  with l show ?thesis by (intro exI [of _ l] exI [of _ env]) simp
qed

theorem series_survives_kill_witness:
  "read_series (\<lambda>l. if hd l = CHR ''{'' then Some l else None)
     (fold (\<lambda>l t. append_row t l) [''{1}'', ''{2}''] [] @ ''par'') = [''{1}'', ''{2}'']"
proof -
  have "newline \<notin> set ''par''" "newline \<notin> set ''{3}''" "\<forall>l \<in> set [''{1}'', ''{2}'']. newline \<notin> set l" by simp_all
  from series_survives_kill [OF this(3,1,2), of "\<lambda>l. if hd l = CHR ''{'' then Some l else None"]
  show ?thesis by (simp add: decoded_def List.map_filter_simps)
qed

theorem workspace_rotation_stride_witness:
  "\<exists>r \<in> {3..<5}. \<exists>rest. rotate_entries two_entries (r * 7) = last two_entries # rest"
proof -
  have n: "length two_entries = 2" by (simp add: two_entries_def)
  have "last two_entries \<in> set two_entries" by (rule last_in_set) (simp add: two_entries_def)
  moreover have "\<not> 7 dvd length two_entries" by (simp add: n)
  ultimately show ?thesis using workspace_rotation_stride [of two_entries 3] by (simp add: n)
qed

end
