(* ===== verification/Census.thy ===== *)
theory Census
  imports Line_Machine "HOL-Library.Product_Lexorder"
begin

text \<open>
  The census of crash signatures (\<open>internal/census/census.go\<close>, \<open>summary.go\<close>): what is read off one line
  of a log, the scope that tells a leak's token from another sanitizer's, the two streaming readers, the
  builder that accumulates hits, its rows, the sanitizer of a workspace and the liveness of the targets.
  A log is the list of its lines. Bytes are counted where the code's \<open>.{0,80}\<close> counts runes, which is
  the same on the ASCII text PostgreSQL and the sanitizers print.
\<close>

subsection \<open>the signatures on a line\<close>

abbreviation quote :: char where "quote \<equiv> CHR 0x22"

definition reAssert :: re where
  "reAssert = seqs [lit (''TRAP: failed Assert('' @ [quote]), Group 1 (LazyStar any), lit ([quote] @ ''), File: '' @ [quote]),
     Group 2 (LazyStar any), lit ([quote] @ '', Line: ''), Group 3 digits]"

definition reUB_site :: re where
  "reUB_site = seqs [Group 1 (seqs [plus (Class (\<lambda>c. \<not> re_space c)), lit ''.'', Class (\<lambda>c. c \<in> set ''ch'')]),
     lit '':'', Group 2 digits, lit '':'', digits, lit '': '', Group 3 (Seq (lit ''runtime error: '') (Star any))]"

definition reASan :: re where
  "reASan = seqs [lit ''SUMMARY: AddressSanitizer: '', Group 1 (plus (Class (lower_or ''-''))), lit '' '',
     Group 2 (plus (Class (\<lambda>c. \<not> re_space c))), lit '' in '', Group 3 (plus (Class (\<lambda>c. \<not> re_space c)))]"

definition reLF :: re where
  "reLF = Seq (lit ''ERROR: libFuzzer: '') (Group 1 (Alt (lit ''out-of-memory'') (lit ''timeout'')))"

definition reLeak :: re where
  "reLeak = seqs [Bol, lit ''DEDUP_TOKEN: '', LazyStar (Class (\<lambda>c. \<not> re_space c)), lit ''--'',
     Group 1 (Seq (Class (\<lambda>c. is_word c \<and> \<not> is_digit c)) (Star (Class is_word))), Star (Class re_space), Eol]"

definition rePanic :: re where
  "rePanic = seqs [Group 1 (Alt (lit ''PANIC'') (lit ''FATAL'')), lit '':'', spaces, Group 2 (up_to 80 any)]"

definition reDigits :: re where "reDigits = digits"

definition reBanner_line :: re where
  "reBanner_line = seqs [Bol, lit ''---- '', Group 1 (seqs [plus (Class (lower_digit_or ''_'')), lit ''_fuzzer'']),
     lit '' ----'', Star (Class re_space), Eol]"

text \<open>\<open>filepath.Base\<close>.\<close>

definition path_base :: "string \<Rightarrow> string" where
  "path_base p =
     (if p = [] then ''.''
      else let q = rev (dropWhile (\<lambda>c. c = CHR ''/'') (rev p))
           in if q = [] then ''/'' else rev (takeWhile (\<lambda>c. c \<noteq> CHR ''/'') (rev q)))"

definition Extract :: "string \<Rightarrow> (string \<times> string) list" where
  "Extract t =
     map (\<lambda>m. (''Assert('' @ grp m 1 @ '') '' @ path_base (grp m 2) @ '':'' @ grp m 3, grp m 2)) (find_all reAssert t)
     @ map (\<lambda>m. let msg = take 90 (replace_re reDigits ''N'' (grp m 3))
                in (''UBSAN '' @ path_base (grp m 1) @ '':'' @ grp m 2 @ '' '' @ msg, grp m 1)) (find_all reUB_site t)
     @ map (\<lambda>m. (''ASAN '' @ grp m 1 @ '' '' @ path_base (grp m 2) @ '' in '' @ grp m 3, grp m 2)) (find_all reASan t)
     @ map (\<lambda>m. (''libFuzzer '' @ grp m 1, [])) (find_all reLF t)
     @ map (\<lambda>m. (grp m 1 @ '' '' @ replace_re reDigits ''N'' (trim_space (grp m 2)), [])) (find_all rePanic t)"

definition ExtractLeak :: "string \<Rightarrow> string option" where
  "ExtractLeak t = (case find_re reLeak t of None \<Rightarrow> None | Some m \<Rightarrow> Some (''LEAK in '' @ grp m 1))"

text \<open>\<open>leakScope.see\<close>: the answer for this line, and the scope after it.\<close>

definition see :: "string \<Rightarrow> bool \<Rightarrow> bool \<times> bool" where
  "see line inl =
     (if contains line ''LeakSanitizer: detected memory leaks'' then (True, True)
      else if contains line ''runtime error:'' then (False, False)
      else if has_prefix (trim_space line) ''SUMMARY:'' then (inl, False)
      else (inl, inl))"

definition markers :: "string list" where
  "markers = [''TRAP:'', ''runtime error:'', ''AddressSanitizer'', ''libFuzzer'', ''DEDUP_TOKEN'', ''PANIC:'',
     ''FATAL:'', ''_fuzzer -'']"

definition interesting :: "string \<Rightarrow> bool" where
  "interesting line \<longleftrightarrow> list_ex (contains line) markers"

subsection \<open>the builder\<close>

record builder =
  perWS :: "(string \<times> (string \<times> int) list) list"
  targets_of :: "(string \<times> string list) list"
  sources_of :: "(string \<times> string list) list"
  units_of :: "((string \<times> string) \<times> int) list"

definition New :: builder where
  "New = \<lparr>perWS = [], targets_of = [], sources_of = [], units_of = []\<rparr>"

definition record_hit :: "string \<Rightarrow> string \<Rightarrow> string \<times> string \<Rightarrow> builder \<Rightarrow> builder" where
  "record_hit ws target h b =
     (let (sg, src) = h;
          b1 = (if map_of (perWS b) sg = None
                then b\<lparr>perWS := AList.update sg [] (perWS b), targets_of := AList.update sg [] (targets_of b),
                       sources_of := AList.update sg [] (sources_of b)\<rparr>
                else b);
          b2 = b1\<lparr>perWS := AList.update sg (bump ws 1 (sub (perWS b1) sg)) (perWS b1)\<rparr>;
          b3 = (if target \<noteq> []
                then b2\<lparr>targets_of := AList.update sg (List.insert target (sub (targets_of b2) sg)) (targets_of b2)\<rparr>
                else b2)
      in if src \<noteq> []
         then b3\<lparr>sources_of := AList.update sg (List.insert src (sub (sources_of b3) sg)) (sources_of b3)\<rparr>
         else b3)"

definition Add :: "string \<Rightarrow> string \<Rightarrow> string \<Rightarrow> builder \<Rightarrow> builder" where
  "Add ws target t b = fold (record_hit ws target) (Extract t) b"

text \<open>The body the two readers share once a line is looked at: the signatures, then the leak.\<close>

definition leak_of :: "string \<Rightarrow> (string \<times> string) list" where
  "leak_of line = (case ExtractLeak line of Some sg \<Rightarrow> [(sg, [])] | None \<Rightarrow> [])"

definition line_hits :: "string \<Rightarrow> bool \<Rightarrow> (string \<times> string) list" where
  "line_hits line inl = Extract line @ (if fst (see line inl) then leak_of line else [])"

text \<open>\<open>AddReaderAs\<close>, one line: the scope and the builder.\<close>

definition reader_as_line :: "string \<Rightarrow> string \<Rightarrow> string \<Rightarrow> bool \<times> builder \<Rightarrow> bool \<times> builder" where
  "reader_as_line ws target line = (\<lambda>(inl, b).
     (snd (see line inl), fold (record_hit ws target) (line_hits line inl) b))"

definition AddReaderAs :: "string \<Rightarrow> string \<Rightarrow> string list \<Rightarrow> builder \<Rightarrow> builder" where
  "AddReaderAs ws target ls b = snd (fold (reader_as_line ws target) ls (False, b))"

text \<open>\<open>AddReader\<close>: a line without a marker is skipped, a banner moves the target.\<close>

definition reader_line :: "(string \<Rightarrow> bool) \<Rightarrow> string \<Rightarrow> string \<Rightarrow> bool \<times> string \<times> builder \<Rightarrow> bool \<times> string \<times> builder" where
  "reader_line look ws line = (\<lambda>(inl, target, b).
     if \<not> look line then (inl, target, b)
     else case find_re reBanner_line line of
       Some m \<Rightarrow> (inl, grp m 1, b)
     | None \<Rightarrow> (snd (see line inl), target, fold (record_hit ws target) (line_hits line inl) b))"

definition AddReader :: "string \<Rightarrow> string list \<Rightarrow> builder \<Rightarrow> builder" where
  "AddReader ws ls b = snd (snd (fold (reader_line interesting ws) ls (False, [], b)))"

definition reUnitsCensus :: re where
  "reUnitsCensus = seqs [lit ''stat::number_of_executed_units:'', spaces, Group 1 digits]"

definition CountUnits :: "string \<Rightarrow> string \<Rightarrow> string \<Rightarrow> builder \<Rightarrow> builder" where
  "CountUnits ws target t b =
     (let u = fold (\<lambda>m u. if num_grp_ok m 1 then bump (ws, target) (num_grp m 1) u else u)
                (find_all reUnitsCensus t) (units_of b)
      in b\<lparr>units_of := (if map_of u (ws, target) = None then AList.update (ws, target) 0 u else u)\<rparr>)"

subsection \<open>the rows\<close>

record row =
  Signature :: string
  Hits :: int
  Workspaces :: "string list"
  Families :: "string list"
  Targets :: "string list"
  OrioleOnly :: bool
  OrioleWS :: "string list"
  VanillaWS :: "string list"
  InOrioleDB :: bool
  Sources :: "string list"
  ASan_ws :: int
  UBSan_ws :: int

definition reFamily :: re where
  "reFamily = Seq Bol (Group 1 (Seq (plus (Class (lower_or []))) digits))"

definition Family :: "string \<Rightarrow> string" where
  "Family ws =
     (case find_re reFamily ws of
        Some m \<Rightarrow> grp m 1
      | None \<Rightarrow> (case cut_at CHR ''-'' ws of Some (k, _) \<Rightarrow> if k = [] then ws else k | None \<Rightarrow> ws))"

definition row_of :: "builder \<Rightarrow> string \<times> (string \<times> int) list \<Rightarrow> row" where
  "row_of b = (\<lambda>(sg, per).
     let wss = map fst per; oriole = filter (\<lambda>w. has_prefix w ''oriole'') wss;
         vanilla = filter (\<lambda>w. \<not> has_prefix w ''oriole'') wss
     in \<lparr>Signature = sg, Hits = sum_list (map snd per), Workspaces = sort wss,
         Families = sort (remdups (map Family wss)), Targets = sort (sub (targets_of b) sg),
         OrioleOnly = (length oriole > 0 \<and> length vanilla = 0), OrioleWS = sort oriole, VanillaWS = sort vanilla,
         InOrioleDB = list_ex (\<lambda>s. contains s ''orioledb'') (sub (sources_of b) sg),
         Sources = take 4 (sort (sub (sources_of b) sg)), ASan_ws = 0, UBSan_ws = 0\<rparr>)"

definition Rows :: "builder \<Rightarrow> row list" where
  "Rows b = sort_key (\<lambda>r. (- Hits r, Signature r)) (map (row_of b) (perWS b))"

subsection \<open>the summary's figures\<close>

definition Sanitizer :: "string \<Rightarrow> string gomap \<Rightarrow> string" where
  "Sanitizer ws known =
     (let k = sub known ws in
      if k = ''address'' then ''asan''
      else if k = ''undefined'' then ''ubsan''
      else if k = ''coverage'' then ''coverage''
      else if has_suffix ws ''-add'' then ''asan''
      else if has_suffix ws ''-und'' then ''ubsan''
      else ''other'')"

definition Annotate :: "row list \<Rightarrow> string gomap \<Rightarrow> row list" where
  "Annotate rows known =
     map (\<lambda>r. r\<lparr>ASan_ws := int (length (filter (\<lambda>w. Sanitizer w known = ''asan'') (Workspaces r))),
                UBSan_ws := int (length (filter (\<lambda>w. Sanitizer w known = ''ubsan'') (Workspaces r)))\<rparr>) rows"

record liveness =
  lv_target :: string
  ExecutedUnits :: int
  WSSeen :: int
  PerWS :: "(string \<times> int) list"
  WSZeroUnits :: "string list"
  lv_artifacts :: int

definition liveness_of :: "((string \<times> string) \<times> int) list \<Rightarrow> ((string \<times> string) \<times> int) list \<Rightarrow> string list \<Rightarrow> string \<Rightarrow> liveness" where
  "liveness_of units arts wss t =
     (let ran = filter (\<lambda>w. map_of units (w, t) \<noteq> None \<or> map_of arts (w, t) \<noteq> None) wss
      in \<lparr>lv_target = t, ExecutedUnits = sum_list (map (\<lambda>w. num units (w, t)) ran), WSSeen = int (length ran),
          PerWS = fold (\<lambda>w m. AList.update w (num units (w, t)) m) ran [],
          WSZeroUnits = sort (filter (\<lambda>w. num units (w, t) = 0) ran),
          lv_artifacts = sum_list (map snd (filter (\<lambda>(k, _). snd k = t) arts))\<rparr>)"

definition LivenessRows :: "((string \<times> string) \<times> int) list \<Rightarrow> ((string \<times> string) \<times> int) list \<Rightarrow> string list \<Rightarrow> liveness list" where
  "LivenessRows units arts wss =
     (let ts = sort (remdups (map (snd \<circ> fst) units @ map (snd \<circ> fst) arts))
      in sort_key (\<lambda>r. (ExecutedUnits r, lv_target r)) (map (liveness_of units arts wss) ts))"

definition dead_rows :: "liveness list \<Rightarrow> liveness list" where
  "dead_rows ls = filter (\<lambda>r. ExecutedUnits r = 0 \<and> WSSeen r > 0) ls"

definition commaN :: "int \<Rightarrow> string" where
  "commaN n =
     (let s = itoa n
      in concat (map (\<lambda>i. (if i > 0 \<and> (length s - i) mod 3 = 0 then '','' else []) @ [s ! i]) [0..<length s]))"

subsection \<open>what the filter of the stream can drop\<close>

lemma needs_ub: "needs reUB_site ''runtime error:''"
proof -
  have "needs (lit ''runtime error: '') ([] @ ''runtime error:'' @ '' '')"
    using needs_lit [of "''runtime error: ''"] by simp
  then have "needs (lit ''runtime error: '') ''runtime error:''" by (rule needs_part)
  then have "needs (Group 3 (Seq (lit ''runtime error: '') (Star any))) ''runtime error:''"
    by (intro needs_group needs_seq1)
  then show ?thesis
    unfolding reUB_site_def seqs.simps
    by (rule needs_seq2 [OF needs_seq2 [OF needs_seq2 [OF needs_seq2 [OF needs_seq2 [OF needs_seq2]]]]])
qed

lemma needs_asan: "needs reASan ''AddressSanitizer''"
proof -
  have "needs (lit ''SUMMARY: AddressSanitizer: '') (''SUMMARY: '' @ ''AddressSanitizer'' @ '': '')"
    using needs_lit [of "''SUMMARY: AddressSanitizer: ''"] by simp
  then show ?thesis unfolding reASan_def seqs.simps by (intro needs_seq1) (rule needs_part)
qed

lemma needs_lf: "needs reLF ''libFuzzer''"
proof -
  have "needs (lit ''ERROR: libFuzzer: '') (''ERROR: '' @ ''libFuzzer'' @ '': '')"
    using needs_lit [of "''ERROR: libFuzzer: ''"] by simp
  then show ?thesis unfolding reLF_def by (intro needs_seq1) (rule needs_part)
qed

lemma needs_assert: "needs reAssert ''TRAP:''"
proof -
  have "needs (lit (''TRAP: failed Assert('' @ [quote])) ([] @ ''TRAP:'' @ ('' failed Assert('' @ [quote]))"
    using needs_lit [of "''TRAP: failed Assert('' @ [quote]"] by simp
  then show ?thesis unfolding reAssert_def seqs.simps by (intro needs_seq1) (rule needs_part)
qed

lemma needs_leak: "needs reLeak ''DEDUP_TOKEN''"
proof -
  have "needs (lit ''DEDUP_TOKEN: '') ([] @ ''DEDUP_TOKEN'' @ '': '')"
    using needs_lit [of "''DEDUP_TOKEN: ''"] by simp
  then have "needs (lit ''DEDUP_TOKEN: '') ''DEDUP_TOKEN''" by (rule needs_part)
  then show ?thesis unfolding reLeak_def seqs.simps by (intro needs_seq2 needs_seq1)
qed

lemma needs_banner: "needs reBanner_line ''_fuzzer -''"
proof -
  have e: "ends_lit (Group 1 (Seq (plus (Class (lower_digit_or ''_''))) (lit ''_fuzzer''))) ''_fuzzer''"
    by (intro ends_lit_group ends_lit_seq ends_lit_lit)
  have "starts_lit (lit ('' -'' @ ''---'')) '' -''" by (rule starts_lit_lit)
  then have "starts_lit (Seq (lit '' ----'') (Seq (Star (Class re_space)) Eol)) '' -''"
    by (intro starts_lit_seq) simp
  from needs_join [OF e this] show ?thesis
    unfolding reBanner_line_def seqs.simps append.simps append_Nil by (rule needs_seq2 [OF needs_seq2])
qed

lemma panic_contains:
  "find_all rePanic t \<noteq> [] \<Longrightarrow> contains t ''PANIC:'' \<or> contains t ''FATAL:''"
proof -
  assume "find_all rePanic t \<noteq> []"
  then obtain u p s q where t: "t = u @ s" and q: "q \<in> set (matches rePanic (p, s, []))"
    using find_all_from_match unfolding find_all_def by metis
  from needs_join_alt [OF q [unfolded rePanic_def seqs.simps], of u] show ?thesis
    unfolding t append.simps append_Nil by simp
qed

lemma boring_nothing:
  assumes "\<not> interesting l"
  shows "Extract l = []" and "leak_of l = []" and "find_re reBanner_line l = None"
proof -
  have no: "\<forall>m \<in> set markers. \<not> contains l m"
    using assms by (simp only: interesting_def list_ex_iff) blast
  then have n: "\<not> contains l ''TRAP:''" "\<not> contains l ''runtime error:''" "\<not> contains l ''AddressSanitizer''"
    "\<not> contains l ''libFuzzer''" "\<not> contains l ''DEDUP_TOKEN''" "\<not> contains l ''PANIC:''"
    "\<not> contains l ''FATAL:''" "\<not> contains l ''_fuzzer -''"
    unfolding markers_def by (simp_all only: list.set insert_iff ball_simps) auto
  show "Extract l = []"
    unfolding Extract_def find_all_contains [OF needs_assert n(1)] find_all_contains [OF needs_ub n(2)]
      find_all_contains [OF needs_asan n(3)] find_all_contains [OF needs_lf n(4)]
    using panic_contains [of l] n(6,7) by auto
  show "leak_of l = []"
    using find_re_contains [OF needs_leak, of l] n(5)
    by (cases "find_re reLeak l") (auto simp: leak_of_def ExtractLeak_def)
  show "find_re reBanner_line l = None"
    using find_re_contains [OF needs_banner, of l] n(8) by (cases "find_re reBanner_line l") auto
qed

text \<open>
  Reading for comparison: every line, the banner, the signatures of \<^const>\<open>Extract\<close>, and no leak rule.
\<close>

definition plain_line :: "string \<Rightarrow> string \<Rightarrow> string \<times> builder \<Rightarrow> string \<times> builder" where
  "plain_line ws line = (\<lambda>(target, b). case find_re reBanner_line line of
     Some m \<Rightarrow> (grp m 1, b)
   | None \<Rightarrow> (target, fold (record_hit ws target) (Extract line) b))"

abbreviation leak_header :: "string \<Rightarrow> bool" where
  "leak_header l \<equiv> contains l ''LeakSanitizer: detected memory leaks''"

lemma reader_plain:
  "\<forall>l \<in> set ls. leak_header l \<longrightarrow> \<not> interesting l \<Longrightarrow>
     fold (reader_line interesting ws) ls (False, t, b) = (False, fold (plain_line ws) ls (t, b))"
proof (induction ls arbitrary: t b)
  case (Cons l ls)
  show ?case
  proof (cases "interesting l")
    case False
    then show ?thesis using Cons boring_nothing [OF False] by (simp add: reader_line_def plain_line_def)
  next
    case True
    then have "\<not> leak_header l" using Cons.prems by auto
    then have "see l False = (False, False)" unfolding see_def by auto
    then show ?thesis using Cons True
      by (simp add: reader_line_def plain_line_def line_hits_def split: option.splits)
  qed
qed simp

text \<open>
  C32: Streaming a sweep's log through the marker filter gives exactly what reading every line without
  the leak rule gives, as long as the line that opens a leak report carries none of the markers. That is
  the line LeakSanitizer prints, so the filter loses nothing but the leaks, and loses all of them.
\<close>

theorem stream_drops_only_leaks:
  assumes "\<forall>l \<in> set ls. leak_header l \<longrightarrow> \<not> interesting l"
  shows "AddReader ws ls b = snd (fold (plain_line ws) ls ([], b))"
  unfolding AddReader_def reader_plain [OF assms] by simp

definition leak_log :: "string list" where
  "leak_log = [''==1==ERROR: LeakSanitizer: detected memory leaks'', ''DEDUP_TOKEN: m--A--B'',
     ''SUMMARY: AddressSanitizer: 3 byte(s) leaked in 1 allocation(s).'']"

theorem stream_drops_only_leaks_witness:
  "Rows (AddReader ''pg17'' leak_log New) = []
     \<and> map Signature (Rows (AddReaderAs ''pg17'' ''a_fuzzer'' leak_log New)) = [''LEAK in B'']"
proof -
  have "\<forall>l \<in> set leak_log. leak_header l \<longrightarrow> \<not> interesting l" by code_simp
  from stream_drops_only_leaks [OF this, of "''pg17''" New]
  have a: "Rows (AddReader ''pg17'' leak_log New) = Rows (snd (fold (plain_line ''pg17'') leak_log ([], New)))"
    by simp
  have "Rows (snd (fold (plain_line ''pg17'') leak_log ([], New))) = []" by code_simp
  moreover have "map Signature (Rows (AddReaderAs ''pg17'' ''a_fuzzer'' leak_log New)) = [''LEAK in B'']"
    by code_simp
  ultimately show ?thesis using a by simp
qed

subsection \<open>the scope of a leak report\<close>

definition decides :: "string \<Rightarrow> bool" where
  "decides l \<longleftrightarrow> leak_header l \<or> contains l ''runtime error:'' \<or> has_prefix (trim_space l) ''SUMMARY:''"

definition opened :: "string list \<Rightarrow> bool" where
  "opened prev = (case filter decides (rev prev) of [] \<Rightarrow> False | l # _ \<Rightarrow> leak_header l)"

definition leak_open :: "string list \<Rightarrow> string \<Rightarrow> bool" where
  "leak_open prev l \<longleftrightarrow> leak_header l \<or> \<not> contains l ''runtime error:'' \<and> opened prev"

lemma opened_snoc: "opened (prev @ [l]) = snd (see l (opened prev))"
  by (auto simp: opened_def decides_def see_def)

lemma see_open: "fst (see l (opened prev)) = leak_open prev l"
  by (auto simp: see_def leak_open_def)

lemma reader_as_run:
  "fold (reader_as_line ws t) ls (False, b) =
     (opened ls, fold (record_hit ws t) (concat (map (\<lambda>i. line_hits (ls ! i) (opened (take i ls))) [0..<length ls])) b)"
proof (induction ls rule: rev_induct)
  case Nil
  show ?case by (simp add: opened_def)
next
  case (snoc l ls)
  have same: "map (\<lambda>i. line_hits ((ls @ [l]) ! i) (opened (take i (ls @ [l])))) [0..<length ls]
      = map (\<lambda>i. line_hits (ls ! i) (opened (take i ls))) [0..<length ls]"
    by (rule map_cong) (auto simp: nth_append)
  have "concat (map (\<lambda>i. line_hits ((ls @ [l]) ! i) (opened (take i (ls @ [l])))) [0..<length (ls @ [l])])
      = concat (map (\<lambda>i. line_hits (ls ! i) (opened (take i ls))) [0..<length ls]) @ line_hits l (opened ls)"
    unfolding length_append list.size upt_add_eq_append [OF le0] map_append concat_append same
    by simp
  then show ?case using snoc by (simp add: reader_as_line_def opened_snoc)
qed

text \<open>
  A log read for one target records, line by line, the signatures on the line, and its
  \<open>DEDUP_TOKEN\<close> as a leak exactly when the last line that decides (the head of a leak report, a
  \<open>runtime error:\<close> of UBSan, a \<open>SUMMARY:\<close>) was the head of a leak report and the line itself is not
  UBSan's. So a token after another sanitizer's report is never called a leak.
\<close>

theorem leak_token_belongs_to_report:
  "AddReaderAs ws t ls b =
     fold (record_hit ws t)
       (concat (map (\<lambda>i. Extract (ls ! i) @ (if leak_open (take i ls) (ls ! i) then leak_of (ls ! i) else []))
         [0..<length ls])) b"
  unfolding AddReaderAs_def reader_as_run line_hits_def see_open by simp

subsection \<open>the rows against a count of the hits\<close>

text \<open>A hit: the workspace, the target, the signature and its source.\<close>

type_synonym a_hit = "string \<times> string \<times> string \<times> string"

definition record_all :: "a_hit list \<Rightarrow> builder \<Rightarrow> builder" where
  "record_all hs b = fold (\<lambda>(w, t, h). record_hit w t h) hs b"

definition hits_of :: "a_hit list \<Rightarrow> string \<Rightarrow> a_hit list" where
  "hits_of hs sg = filter (\<lambda>(w, t, s, src). s = sg) hs"

definition spec_row :: "a_hit list \<Rightarrow> string \<Rightarrow> row" where
  "spec_row hs sg =
     (let mine = hits_of hs sg; wss = sort (remdups (map fst mine));
          srcs = sort (remdups (filter (\<lambda>s. s \<noteq> []) (map (\<lambda>(w, t, s, src). src) mine)))
      in \<lparr>Signature = sg, Hits = int (length mine), Workspaces = wss, Families = sort (remdups (map Family wss)),
          Targets = sort (remdups (filter (\<lambda>t. t \<noteq> []) (map (fst \<circ> snd) mine))),
          OrioleOnly = (mine \<noteq> [] \<and> list_all (\<lambda>w. has_prefix w ''oriole'') wss),
          OrioleWS = filter (\<lambda>w. has_prefix w ''oriole'') wss, VanillaWS = filter (\<lambda>w. \<not> has_prefix w ''oriole'') wss,
          InOrioleDB = list_ex (\<lambda>s. contains s ''orioledb'') srcs, Sources = take 4 srcs, ASan_ws = 0, UBSan_ws = 0\<rparr>)"

definition census_spec :: "a_hit list \<Rightarrow> row list" where
  "census_spec hs =
     sort_key (\<lambda>r. (- Hits r, Signature r)) (map (spec_row hs) (sort (remdups (map (fst \<circ> snd \<circ> snd) hs))))"

lemma perWS_record_hit:
  "perWS (record_hit w t (sg, src) b) =
     (let m = if map_of (perWS b) sg = None then AList.update sg [] (perWS b) else perWS b
      in AList.update sg (bump w 1 (sub m sg)) m)"
  by (simp add: record_hit_def Let_def)

lemma sub_record_hit:
  "sub (perWS (record_hit w t (sg, src) b)) s =
     (if s = sg then bump w 1 (sub (perWS b) sg) else sub (perWS b) s)"
  by (simp add: perWS_record_hit Let_def sub_def)

lemma dom_record_hit:
  "dom (map_of (perWS (record_hit w t (sg, src) b))) = insert sg (dom (map_of (perWS b)))"
  by (auto simp: perWS_record_hit Let_def)

lemma wf_record_hit: "wf_map (perWS b) \<Longrightarrow> wf_map (perWS (record_hit w t (sg, src) b))"
  by (simp add: perWS_record_hit Let_def)

definition loose :: "builder \<Rightarrow> bool" where
  "loose b \<longleftrightarrow> (\<forall>s. map_of (perWS b) s = None \<longrightarrow> sub (targets_of b) s = [] \<and> sub (sources_of b) s = [])"

lemma loose_record_hit: "loose b \<Longrightarrow> loose (record_hit w t (sg, src) b)"
  by (auto simp: loose_def record_hit_def Let_def split: if_splits)

lemma targets_record_hit:
  "loose b \<Longrightarrow> sub (targets_of (record_hit w t (sg, src) b)) s =
     (if s = sg \<and> t \<noteq> [] then List.insert t (sub (targets_of b) s) else sub (targets_of b) s)"
  by (auto simp: loose_def record_hit_def Let_def split: if_splits)

lemma sources_record_hit:
  "loose b \<Longrightarrow> sub (sources_of (record_hit w t (sg, src) b)) s =
     (if s = sg \<and> src \<noteq> [] then List.insert src (sub (sources_of b) s) else sub (sources_of b) s)"
  by (auto simp: loose_def record_hit_def Let_def split: if_splits)

lemma record_all_snoc:
  "record_all (hs @ [(w, t, sg, src)]) b = record_hit w t (sg, src) (record_all hs b)"
  by (simp add: record_all_def)

lemma hits_of_snoc:
  "hits_of (hs @ [(w, t, sg, src)]) s = hits_of hs s @ (if s = sg then [(w, t, sg, src)] else [])"
  by (simp add: hits_of_def)

text \<open>What the builder holds after a list of hits.\<close>

lemma update_total: "sum_list (map snd (AList.update k v m)) = sum_list (map snd m) - num m k + (v :: int)"
  by (induction m) (auto simp: num_def)

lemma bump_total: "sum_list (map snd (bump k n m)) = sum_list (map snd m) + n"
  by (simp add: bump_def update_total)

lemma bump_keys: "dom (map_of (bump k n m)) = insert k (dom (map_of m))" "wf_map m \<Longrightarrow> wf_map (bump k n m)"
  by (auto simp: bump_def split: if_splits)

lemma loose_all: "loose (record_all hs New)"
proof (induction hs rule: rev_induct)
  case (snoc h hs)
  then show ?case by (cases h) (simp add: record_all_snoc loose_record_hit)
qed (simp add: record_all_def New_def loose_def)

lemma keys_all:
  "wf_map (perWS (record_all hs New)) \<and> dom (map_of (perWS (record_all hs New))) = (fst \<circ> snd \<circ> snd) ` set hs"
proof (induction hs rule: rev_induct)
  case (snoc h hs)
  then show ?case by (cases h) (simp only: record_all_snoc wf_record_hit dom_record_hit, auto)
qed (simp add: record_all_def New_def)

lemma counts_all:
  "wf_map (sub (perWS (record_all hs New)) s)
     \<and> dom (map_of (sub (perWS (record_all hs New)) s)) = fst ` set (hits_of hs s)
     \<and> sum_list (map snd (sub (perWS (record_all hs New)) s)) = int (length (hits_of hs s))"
proof (induction hs rule: rev_induct)
  case (snoc h hs)
  obtain w t sg src where h: "h = (w, t, sg, src)" by (cases h)
  show ?case
    using snoc unfolding h record_all_snoc hits_of_snoc sub_record_hit
    by (cases "s = sg") (simp_all add: bump_total bump_keys)
qed (simp add: record_all_def New_def hits_of_def)

lemma targets_all:
  "distinct (sub (targets_of (record_all hs New)) s)
     \<and> set (sub (targets_of (record_all hs New)) s) = set (filter (\<lambda>t. t \<noteq> []) (map (fst \<circ> snd) (hits_of hs s)))"
proof (induction hs rule: rev_induct)
  case (snoc h hs)
  obtain w t sg src where h: "h = (w, t, sg, src)" by (cases h)
  show ?case
    using snoc unfolding h record_all_snoc hits_of_snoc targets_record_hit [OF loose_all]
    by (cases "s = sg") (simp_all add: distinct_insert)
qed (simp add: record_all_def New_def hits_of_def)

lemma sources_all:
  "distinct (sub (sources_of (record_all hs New)) s)
     \<and> set (sub (sources_of (record_all hs New)) s)
         = set (filter (\<lambda>t. t \<noteq> []) (map (\<lambda>(w, t, s, src). src) (hits_of hs s)))"
proof (induction hs rule: rev_induct)
  case (snoc h hs)
  obtain w t sg src where h: "h = (w, t, sg, src)" by (cases h)
  show ?case
    using snoc unfolding h record_all_snoc hits_of_snoc sources_record_hit [OF loose_all]
    by (cases "s = sg") (simp_all add: distinct_insert)
qed (simp add: record_all_def New_def hits_of_def)

lemma row_is_spec:
  assumes "map_of (perWS (record_all hs New)) sg = Some per"
  shows "row_of (record_all hs New) (sg, per) = spec_row hs sg"
proof -
  let ?b = "record_all hs New"
  have per: "sub (perWS ?b) sg = per" using assms by (simp add: sub_def)
  have w: "wf_map per" "set (map fst per) = set (map fst (hits_of hs sg))"
    "sum_list (map snd per) = int (length (hits_of hs sg))"
    using counts_all [of hs sg] unfolding per by (simp_all add: dom_map_of_conv_image_fst)
  have ne: "hits_of hs sg \<noteq> []"
  proof -
    have "sg \<in> dom (map_of (perWS ?b))" using assms by auto
    then obtain h where "h \<in> set hs" "fst (snd (snd h)) = sg" using keys_all [of hs] by auto
    then have "h \<in> set (hits_of hs sg)" by (auto simp: hits_of_def split: prod.splits)
    then show ?thesis by auto
  qed
  let ?wss = "sort (remdups (map fst (hits_of hs sg)))"
  have ws: "sort (map fst per) = ?wss" by (rule sort_same_set [OF w(1,2)])
  have part: "sort (filter P (map fst per)) = filter P ?wss" for P
    unfolding filter_sort [symmetric] ws [symmetric] ..
  have fam: "sort (remdups (map Family (map fst per))) = sort (remdups (map Family ?wss))"
    by (rule sort_same_set) (use w(2) in \<open>simp_all only: distinct_remdups set_remdups set_sort set_map\<close>)
  have tg: "sort (sub (targets_of ?b) sg) = sort (remdups (filter (\<lambda>t. t \<noteq> []) (map (fst \<circ> snd) (hits_of hs sg))))"
    using targets_all by (blast intro: sort_same_set)
  have sr: "sort (sub (sources_of ?b) sg)
      = sort (remdups (filter (\<lambda>s. s \<noteq> []) (map (\<lambda>(w, t, s, src). src) (hits_of hs sg))))"
    using sources_all by (blast intro: sort_same_set)
  have ex: "list_ex Q (sub (sources_of ?b) sg)
      = list_ex Q (sort (remdups (filter (\<lambda>s. s \<noteq> []) (map (\<lambda>(w, t, s, src). src) (hits_of hs sg)))))" for Q
    unfolding sr [symmetric] by (simp add: list_ex_iff)
  have or: "(length (filter P (map fst per)) > 0 \<and> length (filter (\<lambda>w. \<not> P w) (map fst per)) = 0)
      = (hits_of hs sg \<noteq> [] \<and> list_all P ?wss)" for P
  proof -
    have "list_all P ?wss = (\<forall>x \<in> set (map fst per). P x)" using w(2) by (auto simp: list_all_iff)
    moreover have "map fst per \<noteq> []" using ne w(2) by (metis list.map_disc_iff set_empty)
    ultimately show ?thesis using ne
      by (simp only: length_greater_0_conv length_0_conv filter_empty_conv)
        (metis list.set_intros(1) neq_Nil_conv)
  qed
  show ?thesis
    unfolding row_of_def spec_row_def Let_def prod.case part fam ws tg ex sr w(3)
      or [of "\<lambda>w. has_prefix w ''oriole''"] ..
qed

lemma spec_signature [simp]: "Signature (spec_row hs sg) = sg" "Hits (spec_row hs sg) = int (length (hits_of hs sg))"
  by (simp_all add: spec_row_def Let_def)

lemma rows_are_spec: "Rows (record_all hs New) = census_spec hs"
proof -
  let ?b = "record_all hs New" and ?sigs = "sort (remdups (map (fst \<circ> snd \<circ> snd) hs))"
  have k: "distinct (map fst (perWS ?b))" "set (map fst (perWS ?b)) = set ?sigs"
    using keys_all [of hs] by (simp_all add: dom_map_of_conv_image_fst)
  have "row_of ?b e = spec_row hs (fst e)" if "e \<in> set (perWS ?b)" for e
    using that k(1) row_is_spec [of hs "fst e" "snd e"] by simp
  then have "map (row_of ?b) (perWS ?b) = map (spec_row hs \<circ> fst) (perWS ?b)" by (intro map_cong) auto
  also have "\<dots> = map (spec_row hs) (map fst (perWS ?b))" by simp
  finally have rows: "map (row_of ?b) (perWS ?b) = map (spec_row hs) (map fst (perWS ?b))" .
  have "mset (map fst (perWS ?b)) = mset ?sigs" 
    by (rule set_eq_iff_mset_eq_distinct [THEN iffD1]) (use k in simp_all)
  then have m: "mset (map (spec_row hs) (map fst (perWS ?b))) = mset (map (spec_row hs) ?sigs)"
    by (metis mset_map)
  have "inj_on (\<lambda>r. (- Hits r, Signature r)) (set (map (spec_row hs) (map fst (perWS ?b))))"
    by (auto simp: inj_on_def)
  from sort_key_unique [OF m this] show ?thesis unfolding Rows_def census_spec_def rows .
qed

lemma hits_total: "(\<Sum>sg \<in> set (map (fst \<circ> snd \<circ> snd) hs). length (hits_of hs sg)) = length hs"
proof -
  have "length (hits_of hs sg) = count_list (map (fst \<circ> snd \<circ> snd) hs) sg" for sg
    unfolding hits_of_def by (induction hs) auto
  then show ?thesis by (simp only: sum_count_set [OF subset_refl finite_set] length_map)
qed

lemma sort_remdups_set: "set xs = set ys \<Longrightarrow> sort (remdups xs) = sort (remdups (ys :: string list))"
  by (rule sort_same_set [THEN trans]) simp_all

lemma spec_row_perm:
  assumes "mset hs' = mset hs"
  shows "spec_row hs' sg = spec_row hs sg"
proof -
  have m: "mset (hits_of hs' sg) = mset (hits_of hs sg)" using assms by (simp add: hits_of_def)
  have len: "length (hits_of hs' sg) = length (hits_of hs sg)" by (rule mset_eq_length [OF m])
  have st: "set (hits_of hs' sg) = set (hits_of hs sg)" by (rule mset_eq_setD [OF m])
  have by_set: "sort (remdups (filter P (map f (hits_of hs' sg)))) = sort (remdups (filter P (map f (hits_of hs sg))))"
    for P and f :: "a_hit \<Rightarrow> string"
    by (rule sort_remdups_set) (simp only: set_filter set_map st)
  have ws: "sort (remdups (map fst (hits_of hs' sg))) = sort (remdups (map fst (hits_of hs sg)))"
    using by_set [of "\<lambda>_. True" fst] by simp
  have ne: "(hits_of hs' sg \<noteq> []) = (hits_of hs sg \<noteq> [])" using st by (metis set_empty)
  show ?thesis unfolding spec_row_def Let_def ws by_set len ne ..
qed

lemma spec_perm: "mset hs' = mset hs \<Longrightarrow> census_spec hs' = census_spec hs"
proof -
  assume m: "mset hs' = mset hs"
  have "sort (remdups (map (fst \<circ> snd \<circ> snd) hs')) = sort (remdups (map (fst \<circ> snd \<circ> snd) hs))"
    by (rule sort_remdups_set) (simp only: set_map mset_eq_setD [OF m])
  moreover have "spec_row hs' = spec_row hs" using spec_row_perm [OF m] by blast
  ultimately show ?thesis by (simp only: census_spec_def)
qed

text \<open>
  C30: The rows of a census are the hits, counted: one row per signature with its number of hits, its
  workspaces, targets and sources as sorted sets and the differential read off the workspaces, busiest
  first. Every hit is counted once, and the order in which logs were read does not show.
\<close>

theorem census_counts_hits:
  assumes "mset hs' = mset hs"
  shows "Rows (record_all hs' New) = Rows (record_all hs New)
    \<and> Rows (record_all hs New) = census_spec hs
    \<and> distinct (map Signature (Rows (record_all hs New)))
    \<and> sum_list (map Hits (Rows (record_all hs New))) = int (length hs)"
proof -
  let ?sigs = "sort (remdups (map (fst \<circ> snd \<circ> snd) hs))"
  let ?out = "sort_key (\<lambda>r. (- Hits r, Signature r)) (map (spec_row hs) ?sigs)"
  have "Rows (record_all hs' New) = Rows (record_all hs New)"
    unfolding rows_are_spec by (rule spec_perm [OF assms])
  moreover have "distinct (map Signature ?out)"
  proof -
    have "mset (map Signature ?out) = mset (map Signature (map (spec_row hs) ?sigs))"
      by (simp only: mset_map mset_sort)
    from mset_eq_imp_distinct_iff [OF this] show ?thesis
      by (simp only: map_map comp_def spec_signature map_ident distinct_sort distinct_remdups simp_thms)
  qed
  moreover have "sum_list (map Hits ?out) = int (length hs)"
  proof -
    have "sum_mset (mset (map Hits ?out)) = sum_mset (mset (map Hits (map (spec_row hs) ?sigs)))"
      by (simp only: mset_map mset_sort)
    then have "sum_list (map Hits ?out) = sum_list (map Hits (map (spec_row hs) ?sigs))"
      by (simp only: sum_mset_sum_list)
    also have "\<dots> = (\<Sum>sg \<in> set ?sigs. int (length (hits_of hs sg)))"
      by (subst sum_list_distinct_conv_sum_set [symmetric]) (simp_all add: comp_def)
    also have "\<dots> = int (length hs)" using hits_total [of hs] by (simp flip: of_nat_sum)
    finally show ?thesis .
  qed
  ultimately show ?thesis unfolding rows_are_spec census_spec_def by blast
qed

theorem census_counts_hits_witness:
  "map (\<lambda>r. (Signature r, Hits r, Workspaces r, OrioleOnly r))
     (Rows (record_all [(''pg17'', ''a'', ''S'', []), (''oriole17'', ''a'', ''L'', []), (''oriole17'', [], ''S'', ''x.c'')] New))
     = [(''S'', 2, [''oriole17'', ''pg17''], False), (''L'', 1, [''oriole17''], True)]"
proof -
  let ?a = "[(''pg17'', ''a'', ''S'', []), (''oriole17'', ''a'', ''L'', []), (''oriole17'', [], ''S'', ''x.c'')] :: a_hit list"
  have "mset (rev ?a) = mset ?a" by simp
  from census_counts_hits [OF this] have "Rows (record_all ?a New) = census_spec ?a" by blast
  then show ?thesis by simp code_simp
qed

subsection \<open>the liveness of a target\<close>

text \<open>A log that is counted is on record, at zero if it has no figure; other pairs are left alone.\<close>

lemma fold_bump_if:
  "fold (\<lambda>m u. if P m then bump c (w m) u else u) ms u = fold (\<lambda>m. bump c (w m)) (filter P ms) u"
  by (induction ms arbitrary: u) auto

lemma map_of_fold_bump:
  "map_of (fold (\<lambda>m. bump c (w m)) ms u) k =
     (if k = c \<and> (ms \<noteq> [] \<or> map_of u k \<noteq> None) then Some (num u k + (\<Sum>m \<leftarrow> ms. w m)) else map_of u k)"
  by (induction ms arbitrary: u) (auto simp: bump_def num_def split: option.splits)

lemma count_units:
  "map_of (units_of (CountUnits ws t l b)) k =
     (if k = (ws, t)
      then Some (num (units_of b) k + (\<Sum>m \<leftarrow> filter (\<lambda>m. num_grp_ok m 1) (find_all reUnitsCensus l). num_grp m 1))
      else map_of (units_of b) k)"
  unfolding CountUnits_def Let_def fold_bump_if
  by (auto simp: map_of_fold_bump num_def split: option.splits)

text \<open>
  A target is reported dead exactly when it was seen somewhere and executed nothing anywhere; its
  workspaces at zero are then all those it was seen in.
\<close>

lemma dead_iff:
  assumes "\<forall>(k, u) \<in> set units. 0 \<le> u"
  shows "r \<in> set (dead_rows (LivenessRows units arts wss)) \<longleftrightarrow>
     (\<exists>t \<in> (snd \<circ> fst) ` set units \<union> (snd \<circ> fst) ` set arts. r = liveness_of units arts wss t
        \<and> WSSeen r > 0 \<and> (\<forall>w \<in> set wss. num units (w, t) = 0))"
proof -
  have pos: "0 \<le> num units k" for k
    using assms map_of_SomeD [of units k] by (fastforce simp: num_def split: option.splits)
  have z: "ExecutedUnits (liveness_of units arts wss t) = 0 \<longleftrightarrow> (\<forall>w \<in> set wss. num units (w, t) = 0)" for t
  proof -
    have "ExecutedUnits (liveness_of units arts wss t) = 0
        \<longleftrightarrow> (\<forall>w \<in> set wss. (map_of units (w, t) \<noteq> None \<or> map_of arts (w, t) \<noteq> None) \<longrightarrow> num units (w, t) = 0)"
      unfolding liveness_of_def Let_def liveness.simps
      by (subst sum_list_nonneg_eq_0_iff) (auto simp: pos)
    also have "\<dots> \<longleftrightarrow> (\<forall>w \<in> set wss. num units (w, t) = 0)" by (auto simp: num_def)
    finally show ?thesis .
  qed
  show ?thesis unfolding dead_rows_def LivenessRows_def Let_def using z by auto
qed

end
