(* ===== verification/Scenario.thy ===== *)
theory Scenario
  imports Go_Map Go_Float
begin

text \<open>
  The storage scenarios (\<open>internal/scenario\<close>): what a recorded experiment is, how it is generated, the
  SQL that sets it up, the plan of every step with what it declares about the row count, and the probes.
  A nil pointer is \<open>None\<close>, a nil slice the empty list. The generator's random source is a parameter.
\<close>

abbreviation sq :: char where "sq \<equiv> CHR 0x27"
abbreviation dq :: char where "dq \<equiv> CHR 0x22"

subsection \<open>the experiment\<close>

text \<open>A value of the JSON settings: a string, a boolean, a number, or anything else as \<open>%v\<close> prints it.\<close>

datatype jval = JStr string | JBool bool | JNum f64 | JOther string

record tabl =
  tb_name :: string
  AM :: string
  Partitioned :: bool
  PK :: string
  PKExtra :: string
  Unlogged :: bool
  Wide :: bool
  Generated :: bool
  ExtraTypes :: "string list"
  Indexes :: "string list"
  Tablespace :: "string option"
  IndexTablespace :: "string option"
  tb_rows :: int
  Compress :: "int option"

record stp =
  Op :: string
  on_table :: string

record scen =
  Seed :: int
  OrioleDB :: bool
  OrioleSettings :: "jval gomap"
  OrioleConf :: "jval gomap"
  WarmDefaultTablespace :: bool
  DefaultTablespace :: "string option"
  Writers :: int
  Tables :: "tabl list"
  Steps :: "stp list"

definition Ops :: "string list" where
  "Ops = [''add_column'', ''alter_type'', ''analyze'', ''attach_partition'', ''checkpoint'',
    ''churn_evict'', ''concurrent_checkpoint'', ''concurrent_ddl'', ''concurrent_write'',
    ''delete_half'', ''detach_partition'', ''drop_column'', ''insert_more'',
    ''move_across_partition'', ''move_index'', ''prepare_2pc'', ''reindex'',
    ''repeatable_read_write'', ''restart_clean'', ''restart_crash'', ''rollback_ddl'',
    ''rollback_delete'', ''rollback_insert'', ''savepoint_partial'',
    ''serializable_write'', ''set_tablespace'', ''truncate_refill'', ''update_all'',
    ''upsert'', ''vacuum'', ''vacuum_full'']"

definition KnownOp :: "string \<Rightarrow> bool" where
  "KnownOp p = list_ex (\<lambda>q. q = p) Ops"

text \<open>
  The settings of the postmaster. A number that is whole prints as an integer; \<open>fmt_num\<close> is the
  shortest decimal form of any other.
\<close>

definition PostmasterSettings :: "(f64 \<Rightarrow> string) \<Rightarrow> scen \<Rightarrow> string gomap" where
  "PostmasterSettings fmt_num sc =
     map (\<lambda>(k, v). (k, case v of
         JStr s \<Rightarrow> s
       | JBool b \<Rightarrow> if b then ''on'' else ''off''
       | JNum x \<Rightarrow> if x = of_int (f64_to_int x) then itoa (f64_to_int x) else fmt_num x
       | JOther s \<Rightarrow> s)) (OrioleConf sc)"

subsection \<open>rendering the setup\<close>

definition SetupDB :: string where "SetupDB = ''dbfuzz''"

definition usesTablespaces :: "scen \<Rightarrow> bool" where
  "usesTablespaces s \<longleftrightarrow> DefaultTablespace s \<noteq> None
     \<or> list_ex (\<lambda>t. Tablespace t \<noteq> None \<or> IndexTablespace t \<noteq> None) (Tables s)"

definition orderedKeys :: "jval gomap \<Rightarrow> string list" where
  "orderedKeys m =
     (let pref = [''orioledb.serializable'', ''orioledb.default_compress'']
      in filter (\<lambda>k. map_of m k \<noteq> None) pref @ filter (\<lambda>k. k \<notin> set pref) (map fst m))"

definition pkClause :: "tabl \<Rightarrow> string" where
  "pkClause t =
     (if PK t = ''single'' then ''PRIMARY KEY (i)''
      else if PK t = ''composite'' then ''PRIMARY KEY (i, j)''
      else if PK t = ''composite_typed'' then ''PRIMARY KEY (i, k)''
      else [])"

definition withClause :: "tabl \<Rightarrow> string" where
  "withClause t =
     (case Compress t of None \<Rightarrow> []
      | Some c \<Rightarrow> if AM t \<noteq> ''orioledb'' then [] else '' WITH (compress = '' @ itoa c @ '')'')"

definition tsClause :: "string option \<Rightarrow> string" where
  "tsClause ts = (case ts of None \<Rightarrow> [] | Some s \<Rightarrow> if s = [] then [] else '' TABLESPACE '' @ s)"

definition has_k :: "tabl \<Rightarrow> bool" where
  "has_k t \<longleftrightarrow> PK t = ''composite_typed'' \<and> PKExtra t \<noteq> []"

definition loadExpr :: "string \<Rightarrow> string" where
  "loadExpr ty =
     (if ty = ''timestamptz'' then [sq] @ ''2020-01-01'' @ [sq] @ ''::timestamptz + (g || '' @ [sq] @ '' seconds'' @ [sq] @ '')::interval''
      else if ty = ''bigint[]'' then ''ARRAY[g, g + 1]''
      else if ty = ''text'' then [sq] @ ''r'' @ [sq] @ '' || g''
      else if ty = ''bigint'' then ''g''
      else if ty = ''numeric'' then ''(g::numeric / 7)''
      else if ty = ''uuid'' then ''md5(g::text)::uuid''
      else if ty = ''date'' then [sq] @ ''2020-01-01'' @ [sq] @ ''::date + (g %% 3000)''
      else if ty = ''smallint'' then ''(g % 30000)::smallint''
      else if ty = ''boolean'' then ''(g %% 2 = 0)''
      else if ty = ''int'' then ''(g %% 1000000)::int''
      else if ty = ''jsonb'' then ''jsonb_build_object('' @ [sq] @ ''k'' @ [sq] @ '', g)''
      else if ty = ''double precision'' then ''g::double precision / 3''
      else ''g'')"

text \<open>\<open>strings.ReplaceAll(s, "%%", "%")\<close>.\<close>

fun halve_percent :: "string \<Rightarrow> string" where
  "halve_percent (c # d # s) =
     (if c = CHR ''%'' \<and> d = CHR ''%'' then CHR ''%'' # halve_percent s else c # halve_percent (d # s))"
| "halve_percent s = s"

definition number :: "'a list \<Rightarrow> (nat \<times> 'a) list" where
  "number xs = zip [0..<length xs] xs"

definition x_col :: "nat \<Rightarrow> string" where "x_col i = CHR ''x'' # nat_dec i"

definition renderLoad :: "tabl \<Rightarrow> string" where
  "renderLoad t =
     (let cols = [''i'', ''j'', ''v''] @ (if has_k t then [''k''] else []) @ map (\<lambda>(i, ty). x_col i) (number (ExtraTypes t))
            @ (if Wide t then [''payload''] else []);
          vals = [''g'', ''g %% 97'', ''g * 2''] @ (if has_k t then [loadExpr (PKExtra t)] else [])
            @ map (\<lambda>(i, ty). loadExpr ty) (number (ExtraTypes t))
            @ (if Wide t then [''repeat('' @ [sq] @ ''x'' @ [sq] @ '', 2000)''] else [])
      in ''INSERT INTO '' @ tb_name t @ '' ('' @ join '', '' cols @ '') SELECT ''
         @ halve_percent (join '', '' vals) @ '' FROM generate_series(1, '' @ itoa (tb_rows t) @ '') g;'' @ [newline])"

definition firstOfType :: "tabl \<Rightarrow> string \<Rightarrow> string" where
  "firstOfType t ty =
     (case filter (\<lambda>(i, e). e = ty) (number (ExtraTypes t)) of [] \<Rightarrow> [] | (i, _) # _ \<Rightarrow> x_col i)"

text \<open>\<open>%q\<close>, for the printable bytes of ASCII.\<close>

definition quoted :: "string \<Rightarrow> string" where
  "quoted s = [dq] @ concat (map (\<lambda>c. if c = dq \<or> c = CHR 0x5C then [CHR 0x5C, c] else [c]) s) @ [dq]"

definition renderIndex :: "tabl \<Rightarrow> string \<Rightarrow> string" where
  "renderIndex t kind =
     (let name = tb_name t @ ''_'' @ kind @ ''_idx''; ts = tsClause (IndexTablespace t);
          head = ''CREATE INDEX '' @ name @ '' ON '' @ tb_name t
      in if kind = ''gin'' then
           (let col = firstOfType t ''bigint[]''
            in if col = [] then [] else head @ '' USING gin ('' @ col @ '')'' @ ts @ '';'' @ [newline])
         else if kind = ''spgist'' then
           (let col = firstOfType t ''text''
            in if col = [] then [] else head @ '' USING spgist ('' @ col @ '')'' @ ts @ '';'' @ [newline])
         else if kind = ''brin'' \<or> kind = ''hash'' then head @ '' USING '' @ kind @ '' (v)'' @ ts @ '';'' @ [newline]
         else if kind = ''btree'' then head @ '' (v)'' @ ts @ '';'' @ [newline]
         else if kind = ''multicolumn'' then head @ '' (j, v)'' @ ts @ '';'' @ [newline]
         else if kind = ''expression'' then head @ '' ((v * 2))'' @ ts @ '';'' @ [newline]
         else if kind = ''partial'' then head @ '' (v)'' @ ts @ '' WHERE v > 0;'' @ [newline]
         else if kind = ''unique''
         then ''CREATE UNIQUE INDEX '' @ name @ '' ON '' @ tb_name t @ '' (i, j)'' @ ts @ '';'' @ [newline]
         else ''-- UNKNOWN INDEX KIND '' @ quoted kind @ [newline])"

definition columns :: "tabl \<Rightarrow> string list" where
  "columns t =
     [''i bigint NOT NULL'', ''j bigint NOT NULL'', ''v bigint NOT NULL'']
     @ (if has_k t then [''k '' @ PKExtra t @ '' NOT NULL''] else [])
     @ map (\<lambda>(i, ty). x_col i @ '' '' @ ty) (number (ExtraTypes t))
     @ (if Wide t then [''payload text''] else [])
     @ (if Generated t then [''gen bigint GENERATED ALWAYS AS (i * 2) STORED''] else [])
     @ (if pkClause t \<noteq> [] then [pkClause t] else [])"

text \<open>The two partitions split at \<open>rows / 2 + 1\<close>.\<close>

definition bounds :: "tabl \<Rightarrow> (string \<times> string) list" where
  "bounds t = (let mid = itoa (quot (tb_rows t) 2 + 1) in [(''MINVALUE'', mid), (mid, ''MAXVALUE'')])"

definition renderTable :: "tabl \<Rightarrow> string" where
  "renderTable t =
     (let kw = (if Unlogged t then ''CREATE UNLOGGED TABLE'' else ''CREATE TABLE'')
      in kw @ '' '' @ tb_name t @ '' ('' @ join '', '' (columns t) @ '')''
         @ (if Partitioned t then '' PARTITION BY RANGE (i)'' else '' USING '' @ AM t @ withClause t)
         @ tsClause (Tablespace t) @ '';'' @ [newline]
         @ (if Partitioned t
            then concat (map (\<lambda>(i, lo, hi). kw @ '' '' @ tb_name t @ ''_p'' @ nat_dec i @ '' PARTITION OF '' @ tb_name t
                   @ '' FOR VALUES FROM ('' @ lo @ '') TO ('' @ hi @ '') USING '' @ AM t @ withClause t
                   @ tsClause (Tablespace t) @ '';'' @ [newline]) (number (bounds t)))
            else [])
         @ concat (map (renderIndex t) (Indexes t)) @ renderLoad t)"

definition RenderSetup :: "(jval \<Rightarrow> string) \<Rightarrow> scen \<Rightarrow> string" where
  "RenderSetup show_v s =
     (if WarmDefaultTablespace s
      then ''CREATE TABLE warmup (i int);'' @ [newline] @ ''INSERT INTO warmup VALUES (1);'' @ [newline] else [])
     @ (if usesTablespaces s
        then ''CREATE TABLESPACE ts_a LOCATION '' @ [sq, sq] @ '';'' @ [newline]
          @ ''CREATE TABLESPACE ts_b LOCATION '' @ [sq, sq] @ '';'' @ [newline] else [])
     @ (case DefaultTablespace s of None \<Rightarrow> []
        | Some d \<Rightarrow> if d = [] then []
            else ''ALTER DATABASE '' @ SetupDB @ '' SET default_tablespace = '' @ d @ '';'' @ [newline])
     @ concat (map (\<lambda>k. ''ALTER DATABASE '' @ SetupDB @ '' SET '' @ k @ '' = ''
          @ show_v (the (map_of (OrioleSettings s) k)) @ '';'' @ [newline]) (orderedKeys (OrioleSettings s)))
     @ concat (map renderTable (Tables s))"

subsection \<open>the plan of a step\<close>

datatype kind = SQL | Control | Concurrent

record plan =
  Kind :: kind
  Stmts :: "string list"
  Ctl :: string
  Note :: string
  ChangesRows :: bool
  RowDelta :: int
  Parallel :: bool

definition sql_plan :: "string list \<Rightarrow> plan" where
  "sql_plan ss = \<lparr>Kind = SQL, Stmts = ss, Ctl = [], Note = [], ChangesRows = False, RowDelta = 0, Parallel = False\<rparr>"

definition findTable :: "scen \<Rightarrow> string \<Rightarrow> tabl option" where
  "findTable sc name = List.find (\<lambda>t. tb_name t = name) (Tables sc)"

definition rowsOf :: "tabl option \<Rightarrow> int" where
  "rowsOf t = (case t of None \<Rightarrow> 1000 | Some tb \<Rightarrow> if tb_rows tb = 0 then 1000 else tb_rows tb)"

definition firstTablespace :: "tabl option \<Rightarrow> string" where
  "firstTablespace t =
     (case t of None \<Rightarrow> ''ts_a''
      | Some tb \<Rightarrow> (case Tablespace tb of None \<Rightarrow> ''ts_a'' | Some s \<Rightarrow> if s = [] then ''ts_a'' else s))"

definition otherTablespace :: "tabl option \<Rightarrow> string" where
  "otherTablespace t = (if firstTablespace t = ''ts_a'' then ''ts_b'' else ''ts_a'')"

definition loadStatement :: "tabl option \<Rightarrow> string" where
  "loadStatement t = (case t of None \<Rightarrow> ''-- no such table'' | Some tb \<Rightarrow> renderLoad tb)"

definition stepInsert :: "tabl option \<Rightarrow> string \<Rightarrow> int \<Rightarrow> int \<Rightarrow> string \<Rightarrow> string" where
  "stepInsert t name lo hi vexpr =
     (let k = (case t of None \<Rightarrow> False | Some tb \<Rightarrow> has_k tb);
          cols = ''i, j, v'' @ (if k then '', k'' else []);
          vals = ''g, g % 97, '' @ vexpr @ (if k then '', '' @ loadExpr (PKExtra (the t)) else [])
      in ''INSERT INTO '' @ name @ '' ('' @ cols @ '') SELECT '' @ vals @ '' FROM generate_series('' @ itoa lo @ '', ''
         @ itoa hi @ '') g;'')"

definition sql_step :: "string \<Rightarrow> tabl option \<Rightarrow> plan gomap" where
  "sql_step t tbl =
    [(''analyze'', (sql_plan [''ANALYZE '' @ t @ '';''])\<lparr>Note := ''refresh statistics''\<rparr>),
     (''vacuum'', sql_plan [''VACUUM '' @ t @ '';'']),
     (''vacuum_full'', sql_plan [''VACUUM FULL '' @ t @ '';'']),
     (''reindex'', sql_plan [''REINDEX TABLE '' @ t @ '';'']),
     (''truncate_refill'', (sql_plan [''TRUNCATE '' @ t @ '';'', loadStatement tbl])\<lparr>Note := ''empty and reload''\<rparr>),
     (''delete_half'', (sql_plan [''DELETE FROM '' @ t @ '' WHERE i % 2 = 0;''])\<lparr>ChangesRows := True\<rparr>),
     (''update_all'', sql_plan [''UPDATE '' @ t @ '' SET v = v + 1;'']),
     (''insert_more'', (sql_plan [stepInsert tbl t (rowsOf tbl + 1) (rowsOf tbl + 1000) ''g * 3''])\<lparr>ChangesRows := True\<rparr>),
     (''upsert'', (sql_plan [trim_suffix (stepInsert tbl t 1 100 ''g * 5'') '';'' @ '' ON CONFLICT DO NOTHING;''])\<lparr>ChangesRows := True\<rparr>),
     (''add_column'', sql_plan [''ALTER TABLE '' @ t @ '' ADD COLUMN added_col bigint;'']),
     (''drop_column'', sql_plan [''ALTER TABLE '' @ t @ '' DROP COLUMN IF EXISTS added_col;'']),
     (''alter_type'', sql_plan [''ALTER TABLE '' @ t @ '' ALTER COLUMN v TYPE numeric;'']),
     (''set_tablespace'', (sql_plan [''ALTER TABLE '' @ t @ '' SET TABLESPACE '' @ otherTablespace tbl @ '';''])
        \<lparr>Note := ''move the table; the indexes are the interesting part''\<rparr>),
     (''move_index'', sql_plan [''ALTER INDEX ALL IN TABLESPACE '' @ firstTablespace tbl
        @ '' OWNED BY CURRENT_USER SET TABLESPACE '' @ otherTablespace tbl @ '';'']),
     (''attach_partition'', sql_plan [''CREATE TABLE '' @ t @ ''_extra (LIKE '' @ t @ '' INCLUDING ALL);'',
        ''ALTER TABLE '' @ t @ '' ATTACH PARTITION '' @ t @ ''_extra FOR VALUES FROM (900000) TO (1000000);'']),
     (''detach_partition'', sql_plan [''ALTER TABLE '' @ t @ '' DETACH PARTITION '' @ t @ ''_p1;'']),
     (''move_across_partition'', (sql_plan [''UPDATE '' @ t @ '' SET i = i + '' @ itoa (rowsOf tbl) @ '' WHERE i % 1000 = 1;''])
        \<lparr>Note := ''force rows over the partition boundary''\<rparr>)]"

definition transactional_step :: "string \<Rightarrow> tabl option \<Rightarrow> plan gomap" where
  "transactional_step t tbl =
    [(''rollback_insert'', sql_plan [''BEGIN;'', stepInsert tbl t (rowsOf tbl + 2000) (rowsOf tbl + 2050) ''g'', ''ROLLBACK;'']),
     (''rollback_delete'', sql_plan [''BEGIN;'', ''DELETE FROM '' @ t @ '';'', ''ROLLBACK;'']),
     (''rollback_ddl'', sql_plan [''BEGIN;'', ''ALTER TABLE '' @ t @ '' ADD COLUMN rolled bigint;'', ''ROLLBACK;'']),
     (''savepoint_partial'', (sql_plan [''BEGIN;'', stepInsert tbl t (rowsOf tbl + 3000) (rowsOf tbl + 3020) ''g'',
        ''SAVEPOINT sp;'', ''DELETE FROM '' @ t @ '' WHERE i > '' @ itoa (rowsOf tbl + 3010) @ '';'',
        ''ROLLBACK TO SAVEPOINT sp;'', ''COMMIT;''])\<lparr>RowDelta := 21\<rparr>),
     (''prepare_2pc'', (sql_plan [''BEGIN;'', stepInsert tbl t (rowsOf tbl + 4000) (rowsOf tbl + 4010) ''g'',
        ''PREPARE TRANSACTION '' @ [sq] @ ''p_'' @ t @ [sq] @ '';'',
        ''COMMIT PREPARED '' @ [sq] @ ''p_'' @ t @ [sq] @ '';''])\<lparr>RowDelta := 11\<rparr>),
     (''serializable_write'', sql_plan [''BEGIN ISOLATION LEVEL SERIALIZABLE;'',
        ''UPDATE '' @ t @ '' SET v = v + 2 WHERE i < 100;'', ''COMMIT;'']),
     (''repeatable_read_write'', sql_plan [''BEGIN ISOLATION LEVEL REPEATABLE READ;'',
        ''UPDATE '' @ t @ '' SET v = v + 3 WHERE i < 100;'', ''COMMIT;'']),
     (''churn_evict'', (sql_plan [''UPDATE '' @ t @ '' SET v = v + 1 WHERE i % 3 = 0;'',
        ''DELETE FROM '' @ t @ '' WHERE i % 7 = 0;''])\<lparr>Note := ''dirty enough pages to force eviction''\<rparr>)]"

definition other_step :: "string \<Rightarrow> plan gomap" where
  "other_step t =
    [(''concurrent_write'', (sql_plan [''UPDATE '' @ t @ '' SET v = v + 1 WHERE i % 5 = 0;''])
        \<lparr>Kind := Concurrent, Parallel := True\<rparr>),
     (''concurrent_ddl'', (sql_plan [''ALTER TABLE '' @ t @ '' ADD COLUMN conc bigint;'',
        ''ALTER TABLE '' @ t @ '' DROP COLUMN conc;''])\<lparr>Kind := Concurrent\<rparr>),
     (''concurrent_checkpoint'', (sql_plan [''CHECKPOINT;''])\<lparr>Kind := Concurrent\<rparr>),
     (''checkpoint'', sql_plan [''CHECKPOINT;'']),
     (''restart_clean'', (sql_plan [])\<lparr>Kind := Control, Ctl := ''clean'',
        Note := ''stop and start; everything should survive''\<rparr>),
     (''restart_crash'', (sql_plan [])\<lparr>Kind := Control, Ctl := ''crash'',
        Note := ''kill -9 the postmaster: recovery replays WAL, and what it ''
          @ ''does NOT rebuild is where these findings live''\<rparr>)]"

text \<open>The switch, as the table of its cases.\<close>

definition PlanStep :: "stp \<Rightarrow> scen \<Rightarrow> plan option" where
  "PlanStep s sc =
     (let t = on_table s; tbl = findTable sc t
      in map_of (sql_step t tbl @ transactional_step t tbl @ other_step t) (Op s))"

subsection \<open>probes and refusals\<close>

record probe =
  pr_name :: string
  pr_sql :: string
  Want :: string

definition ProbesFor :: "tabl \<Rightarrow> probe list" where
  "ProbesFor t =
     (let q = ''SELECT count(*) FROM '' @ tb_name t @ '' WHERE v > 0''
      in [\<lparr>pr_name = ''count'', pr_sql = ''SELECT count(*) FROM '' @ tb_name t, Want = ''rows''\<rparr>,
          \<lparr>pr_name = ''predicate'', pr_sql = q, Want = []\<rparr>,
          \<lparr>pr_name = ''range'', pr_sql = ''SELECT count(*) FROM '' @ tb_name t @ '' WHERE i BETWEEN 1 AND 100'', Want = []\<rparr>,
          \<lparr>pr_name = ''access-paths'',
           pr_sql = ''SET enable_seqscan = on; SET enable_indexscan = off; SET enable_bitmapscan = off; '' @ q @ ''; ''
             @ ''SET enable_seqscan = off; SET enable_indexscan = on; SET enable_bitmapscan = on; '' @ q @ ''; ''
             @ ''RESET enable_seqscan; RESET enable_indexscan; RESET enable_bitmapscan;'', Want = []\<rparr>]
         @ (if AM t = ''orioledb'' \<and> \<not> Partitioned t
            then [\<lparr>pr_name = ''orioledb_tbl_check'',
                   pr_sql = ''SELECT orioledb_tbl_check('' @ [sq] @ tb_name t @ [sq] @ ''::regclass)'', Want = []\<rparr>] else []))"

definition to_lower :: "string \<Rightarrow> string" where
  "to_lower s = map (\<lambda>c. if (65::nat) \<le> of_char c \<and> (of_char c :: nat) \<le> 90 then char_of (of_char c + 32 :: nat) else c) s"

definition transient :: "string list" where
  "transient = [''could not serialize access'', ''deadlock detected'', ''canceling statement due to lock timeout'',
     ''canceling statement due to statement timeout'', ''terminating connection due to conflict'',
     ''tuple concurrently updated'', ''tuple concurrently deleted'']"

definition Transient :: "string \<Rightarrow> bool" where
  "Transient msg = list_ex (contains (to_lower msg)) transient"

definition unsupported :: "string list" where
  "unsupported = [''is not supported'', ''not supported on'', ''cannot be used on'', ''unrecognized parameter'',
     ''does not support'']"

definition Unsupported :: "string \<Rightarrow> bool" where
  "Unsupported msg = list_ex (contains (to_lower msg)) unsupported"

subsection \<open>every known step has a plan\<close>

definition planned :: "string list" where
  "planned =
    [''analyze'', ''vacuum'', ''vacuum_full'', ''reindex'', ''truncate_refill'', ''delete_half'',
     ''update_all'', ''insert_more'', ''upsert'', ''add_column'', ''drop_column'', ''alter_type'',
     ''set_tablespace'', ''move_index'', ''attach_partition'', ''detach_partition'',
     ''move_across_partition'', ''rollback_insert'', ''rollback_delete'', ''rollback_ddl'',
     ''savepoint_partial'', ''prepare_2pc'', ''serializable_write'', ''repeatable_read_write'',
     ''churn_evict'', ''concurrent_write'', ''concurrent_ddl'', ''concurrent_checkpoint'',
     ''checkpoint'', ''restart_clean'', ''restart_crash'']"

lemma plan_keys: "map fst (sql_step t tbl @ transactional_step t tbl @ other_step t) = planned"
  unfolding sql_step_def transactional_step_def other_step_def planned_def by (simp only: append.simps list.map fst_conv)

lemma planned_ops: "set planned = set Ops"
  by code_simp

lemma plan_known: "PlanStep st sc \<noteq> None \<longleftrightarrow> KnownOp (Op st)"
proof -
  have "PlanStep st sc \<noteq> None \<longleftrightarrow>
      Op st \<in> set (map fst (sql_step (on_table st) (findTable sc (on_table st))
        @ transactional_step (on_table st) (findTable sc (on_table st)) @ other_step (on_table st)))"
    unfolding PlanStep_def Let_def map_of_eq_None_iff set_map by simp
  also have "\<dots> \<longleftrightarrow> KnownOp (Op st)"
    unfolding plan_keys planned_ops KnownOp_def list_ex_iff by blast
  finally show ?thesis .
qed

subsection \<open>what a plan declares about the row count\<close>

text \<open>
  The statements that can leave a table with another number of rows: an insert, a delete, a truncation, a
  partition taken away; none of them inside a transaction that is rolled back.
\<close>

definition moves_stmt :: "string \<Rightarrow> bool" where
  "moves_stmt s \<longleftrightarrow> has_prefix s ''INSERT '' \<or> has_prefix s ''DELETE '' \<or> has_prefix s ''TRUNCATE ''
     \<or> has_prefix s ''ALTER TABLE '' \<and> has_prefix (dropWhile (\<lambda>c. c \<noteq> CHR '' '') (drop 12 s)) '' DETACH PARTITION ''"

definition rolled_back :: "string list \<Rightarrow> bool" where
  "rolled_back ss \<longleftrightarrow> ss \<noteq> [] \<and> hd ss = ''BEGIN;'' \<and> last ss = ''ROLLBACK;''"

definition moves_count :: "string list \<Rightarrow> bool" where
  "moves_count ss \<longleftrightarrow> \<not> rolled_back ss \<and> list_ex moves_stmt ss"

definition undeclared :: "plan \<Rightarrow> bool" where
  "undeclared p \<longleftrightarrow> moves_count (Stmts p) \<and> \<not> ChangesRows p \<and> RowDelta p = 0"

lemma insert_moves: "moves_stmt (stepInsert tbl t lo hi v)" "moves_stmt (trim_suffix (stepInsert tbl t lo hi v) '';'' @ w)"
proof -
  have i: "\<exists>r. stepInsert tbl t lo hi v = ''INSERT INTO '' @ r @ '';''"
    by (simp add: stepInsert_def Let_def)
  then show "moves_stmt (stepInsert tbl t lo hi v)" by (auto simp: moves_stmt_def)
  from i obtain r where r: "stepInsert tbl t lo hi v = (''INSERT INTO '' @ r) @ '';''" by auto
  have "trim_suffix (stepInsert tbl t lo hi v) '';'' = ''INSERT INTO '' @ r"
    unfolding trim_suffix_def r if_P [OF has_suffix_append] by simp
  then show "moves_stmt (trim_suffix (stepInsert tbl t lo hi v) '';'' @ w)" by (auto simp: moves_stmt_def)
qed

lemmas declared_simps = undeclared_def moves_count_def rolled_back_def sql_plan_def insert_moves

lemma undeclared_sql:
  assumes "CHR '' '' \<notin> set t"
  shows "list_all (\<lambda>(op, p). undeclared p = (op = ''truncate_refill'' \<or> op = ''detach_partition'')) (sql_step t tbl)"
proof -
  have d: "dropWhile (\<lambda>c. c \<noteq> CHR '' '') (t @ x) = dropWhile (\<lambda>c. c \<noteq> CHR '' '') x" for x
    using assms by (intro dropWhile_append2) auto
  show ?thesis unfolding sql_step_def by (simp add: declared_simps, simp add: moves_stmt_def d)
qed

lemma undeclared_transactional:
  "list_all (\<lambda>(op, p). undeclared p = (op = ''churn_evict'')) (transactional_step t tbl)"
  unfolding transactional_step_def by (simp add: declared_simps, simp add: moves_stmt_def)

lemma undeclared_other:
  assumes "CHR '' '' \<notin> set t"
  shows "list_all (\<lambda>(op, p). undeclared p = False) (other_step t)"
proof -
  have d: "dropWhile (\<lambda>c. c \<noteq> CHR '' '') (t @ x) = dropWhile (\<lambda>c. c \<noteq> CHR '' '') x" for x
    using assms by (intro dropWhile_append2) auto
  show ?thesis unfolding other_step_def by (simp add: declared_simps, simp add: moves_stmt_def d)
qed

text \<open>
  C17: A plan that can leave the table with another number of rows says so, in \<open>ChangesRows\<close> or
  \<open>RowDelta\<close>, except for three operations: \<open>truncate_refill\<close>, \<open>detach_partition\<close> and \<open>churn_evict\<close>.
  Those three move the count and declare nothing, so the count probe that follows reports a failure of
  the engine where the step did what it was told.
\<close>

theorem plan_declares_moved_counts:
  assumes "PlanStep st sc = Some p" and "CHR '' '' \<notin> set (on_table st)"
  shows "undeclared p \<longleftrightarrow> Op st \<in> {''truncate_refill'', ''detach_partition'', ''churn_evict''}"
proof -
  let ?t = "on_table st" and ?tbl = "findTable sc (on_table st)"
  have mem: "(Op st, p) \<in> set (sql_step ?t ?tbl @ transactional_step ?t ?tbl @ other_step ?t)"
    using assms(1) unfolding PlanStep_def Let_def by (rule map_of_SomeD)
  have d: "distinct planned" by code_simp
  let ?A = "map fst (sql_step ?t ?tbl)" and ?B = "map fst (transactional_step ?t ?tbl)" and ?C = "map fst (other_step ?t)"
  have "''truncate_refill'' \<in> set ?A" "''detach_partition'' \<in> set ?A" "''churn_evict'' \<in> set ?B"
    by (simp_all add: sql_step_def transactional_step_def)
  moreover have "set ?A \<inter> set ?B = {}" "set ?A \<inter> set ?C = {}" "set ?B \<inter> set ?C = {}"
    using d unfolding plan_keys [of ?t ?tbl, symmetric] map_append distinct_append set_append by blast+
  ultimately have sep: "x \<in> set ?A \<Longrightarrow> x \<noteq> ''churn_evict''"
    "x \<in> set ?B \<Longrightarrow> x \<noteq> ''truncate_refill'' \<and> x \<noteq> ''detach_partition''"
    "x \<in> set ?C \<Longrightarrow> x \<noteq> ''truncate_refill'' \<and> x \<noteq> ''detach_partition'' \<and> x \<noteq> ''churn_evict''" for x
    by blast+
  consider "(Op st, p) \<in> set (sql_step ?t ?tbl)" | "(Op st, p) \<in> set (transactional_step ?t ?tbl)"
    | "(Op st, p) \<in> set (other_step ?t)" using mem by auto
  then show ?thesis
  proof cases
    case 1
    then have "Op st \<in> set ?A" by force
    with 1 undeclared_sql [OF assms(2), of ?tbl] sep(1) [of "Op st"] show ?thesis
      unfolding list_all_iff by blast
  next
    case 2
    then have "Op st \<in> set ?B" by force
    with 2 undeclared_transactional [of ?t ?tbl] sep(2) [of "Op st"] show ?thesis
      unfolding list_all_iff by blast
  next
    case 3
    then have "Op st \<in> set ?C" by force
    with 3 undeclared_other [OF assms(2)] sep(3) [of "Op st"] show ?thesis
      unfolding list_all_iff by blast
  qed
qed

definition one_table :: "string \<Rightarrow> string \<Rightarrow> tabl" where
  "one_table pk ex = \<lparr>tb_name = ''t0'', AM = ''heap'', Partitioned = False, PK = pk, PKExtra = ex, Unlogged = False,
     Wide = False, Generated = False, ExtraTypes = [], Indexes = [], Tablespace = None, IndexTablespace = None,
     tb_rows = 500, Compress = None\<rparr>"

definition small_scen :: "tabl \<Rightarrow> string list \<Rightarrow> scen" where
  "small_scen t ops = \<lparr>Seed = 1, OrioleDB = False, OrioleSettings = [], OrioleConf = [], WarmDefaultTablespace = False,
     DefaultTablespace = None, Writers = 2, Tables = [t], Steps = map (\<lambda>p. \<lparr>Op = p, on_table = tb_name t\<rparr>) ops\<rparr>"

theorem plan_declares_moved_counts_witness:
  "undeclared (the (PlanStep \<lparr>Op = ''churn_evict'', on_table = ''t0''\<rparr> (small_scen (one_table ''single'' ''int'') [])))
   \<and> \<not> undeclared (the (PlanStep \<lparr>Op = ''rollback_delete'', on_table = ''t0''\<rparr> (small_scen (one_table ''single'' ''int'') [])))"
proof -
  let ?sc = "small_scen (one_table ''single'' ''int'') []"
  let ?a = "\<lparr>Op = ''churn_evict'', on_table = ''t0''\<rparr>" and ?b = "\<lparr>Op = ''rollback_delete'', on_table = ''t0''\<rparr>"
  have k: "PlanStep ?a ?sc \<noteq> None" "PlanStep ?b ?sc \<noteq> None"
    unfolding plan_known by code_simp+
  have s: "CHR '' '' \<notin> set (on_table ?a)" "CHR '' '' \<notin> set (on_table ?b)" by simp_all
  obtain p q where p: "PlanStep ?a ?sc = Some p" and q: "PlanStep ?b ?sc = Some q" using k by blast
  from plan_declares_moved_counts [OF p s(1)] plan_declares_moved_counts [OF q s(2)] show ?thesis
    unfolding p q option.sel by simp
qed

text \<open>
  The insert of a step doubles the percent sign of a typed key's expression, which the load halves: no
  statement of the load contains it, so only the steps ask the server for an operator \<open>%%\<close>.
\<close>

lemma step_insert_doubles:
  "contains (stepInsert (Some (one_table ''composite_typed'' ''date'')) ''t0'' 501 1500 ''g * 3'') ''%%''
   \<and> \<not> contains (renderLoad (one_table ''composite_typed'' ''date'')) ''%%''"
  by code_simp

text \<open>
  A step has a plan exactly when the model knows its operation, whatever table it names: no recorded
  step is passed over for want of a plan, and nothing unknown is run.
\<close>

theorem plan_exactly_known: "PlanStep st sc \<noteq> None \<longleftrightarrow> KnownOp (Op st)"
  by (rule plan_known)

end
