(* ===== verification/Scenario_Gen.thy ===== *)
theory Scenario_Gen
  imports Scenario "HOL-Library.State_Monad"
begin
















subsection \<open>what a generated scenario is\<close>




text \<open>
  What PostgreSQL and OrioleDB document about single statements, read off their text. A two-phase commit is
  refused in a transaction that touched a table of OrioleDB. A partition is attached to and detached from
  partitioned tables only, and rows can only be moved over a partition boundary where there is one. A move to
  a tablespace needs one the scenario creates, other than that the table is in. Which range an attached
  partition may have is not part of it.
\<close>

definition on_altered :: "string \<Rightarrow> string \<Rightarrow> bool" where
  "on_altered s what \<longleftrightarrow> has_prefix s ''ALTER TABLE '' \<and> has_prefix (dropWhile (\<lambda>c. c \<noteq> CHR '' '') (drop 12 s)) what"

definition moves_rows :: "string \<Rightarrow> bool" where
  "moves_rows s \<longleftrightarrow> has_prefix s ''UPDATE '' \<and> has_prefix (dropWhile (\<lambda>c. c \<noteq> CHR '' '') (drop 7 s)) '' SET i = ''"

definition server_takes :: "tabl \<Rightarrow> string \<Rightarrow> bool" where
  "server_takes t s \<longleftrightarrow>
     (has_prefix s ''PREPARE TRANSACTION '' \<longrightarrow> AM t \<noteq> ''orioledb'')
     \<and> (on_altered s '' ATTACH PARTITION '' \<or> on_altered s '' DETACH PARTITION '' \<or> moves_rows s \<longrightarrow> Partitioned t)
     \<and> (on_altered s '' SET TABLESPACE '' \<or> has_prefix s ''ALTER INDEX ALL IN TABLESPACE '' \<longrightarrow>
          Tablespace t = Some ''ts_a'' \<and> \<not> has_suffix s '' ts_a;'' \<or> Tablespace t = Some ''ts_b'' \<and> \<not> has_suffix s '' ts_b;'')"


















subsection \<open>what the server is asked for\<close>

lemma insert_text: "\<exists>r. stepInsert tbl t lo hi v = ''INSERT INTO '' @ r @ '';''" "\<exists>r. renderLoad tb = ''INSERT INTO '' @ r"
  by (simp_all add: stepInsert_def renderLoad_def Let_def)

lemma insert_taken:
  "server_takes t (''INSERT INTO '' @ r)"
  by (simp add: server_takes_def on_altered_def moves_rows_def)

lemma inserts_taken [simp]:
  "server_takes tb (stepInsert tbl t lo hi v)" "server_takes tb (trim_suffix (stepInsert tbl t lo hi v) '';'' @ w)"
  "server_takes tb (loadStatement (Some tb'))"
proof -
  obtain r where r: "stepInsert tbl t lo hi v = (''INSERT INTO '' @ r) @ '';''" using insert_text(1) [of tbl t lo hi v] by auto
  show "server_takes tb (stepInsert tbl t lo hi v)" unfolding r append_assoc by (rule insert_taken)
  have "trim_suffix (stepInsert tbl t lo hi v) '';'' = ''INSERT INTO '' @ r"
    unfolding trim_suffix_def r if_P [OF has_suffix_append] by simp
  then show "server_takes tb (trim_suffix (stepInsert tbl t lo hi v) '';'' @ w)" by (simp only: append_assoc insert_taken)
  obtain q where q: "renderLoad tb' = ''INSERT INTO '' @ q" using insert_text(2) [of tb'] by auto
  show "server_takes tb (loadStatement (Some tb'))" by (simp only: loadStatement_def option.case q insert_taken)
qed










end
