(* ===== verification/Scenario_Run.thy ===== *)
theory Scenario_Run
  imports Scenario
begin

text \<open>
  The run of a scenario: the driver inside the container (\<open>internal/incontainer/scenario.go\<close>), the line
  it reports its verdict in (\<open>internal/scenario/driver.go\<close>), and the command that reads it back
  (\<open>cmdScenario\<close> in \<open>cmd/pgfuzz/main.go\<close>). The server is a parameter: a state of any type, and what it
  answers to a statement, a file, a crash or a start. Next to what the driver prints, its events say which
  count each table's probe was answered, so that the answers can be spoken of.
\<close>

record 'w server =
  sv_init :: "'w \<Rightarrow> 'w \<times> string option"
  sv_start :: "string gomap \<Rightarrow> string \<Rightarrow> 'w \<Rightarrow> 'w \<times> string option"
  sv_sql :: "string \<Rightarrow> string list \<Rightarrow> 'w \<Rightarrow> 'w \<times> string \<times> bool"
  sv_file :: "string \<Rightarrow> string \<Rightarrow> 'w \<Rightarrow> 'w \<times> string \<times> bool"
  sv_writers :: "string \<Rightarrow> nat \<Rightarrow> string list \<Rightarrow> 'w \<Rightarrow> 'w \<times> (string \<times> bool) list"
  sv_stop :: "'w \<Rightarrow> 'w"
  sv_crash :: "'w \<Rightarrow> 'w"
  sv_tail :: "nat \<Rightarrow> 'w \<Rightarrow> string"

datatype event = Line string | Counted string string

definition firstLines :: "string \<Rightarrow> nat \<Rightarrow> string" where
  "firstLines s n = join '' | '' (take n (split_at newline (trim_space s)))"

definition lastLine :: "string \<Rightarrow> string" where
  "lastLine s = trim_space (last (split_at newline (rev (dropWhile (\<lambda>c. c = newline) (rev s)))))"

definition pickError :: "string \<Rightarrow> string" where
  "pickError out =
     (case filter (\<lambda>l. contains l ''ERROR:'' \<or> contains l ''FATAL:'' \<or> contains l ''server closed the connection'')
             (split_at newline out) of
        l # _ \<Rightarrow> trim_space l
      | [] \<Rightarrow> firstLines out 1)"

subsection \<open>the probes\<close>

text \<open>A sequence of checks that stops at the first failure.\<close>

fun first_failure :: "('a \<Rightarrow> 'w \<Rightarrow> 'w \<times> event list \<times> string option) \<Rightarrow> 'a list \<Rightarrow> 'w \<Rightarrow> 'w \<times> event list \<times> string option" where
  "first_failure f [] w = (w, [], None)"
| "first_failure f (x # xs) w =
     (case f x w of
        (w1, ev, Some e) \<Rightarrow> (w1, ev, Some e)
      | (w1, ev, None) \<Rightarrow> (case first_failure f xs w1 of (w2, ev2, r) \<Rightarrow> (w2, ev @ ev2, r)))"

definition probe_one :: "'w server \<Rightarrow> string \<Rightarrow> string gomap \<Rightarrow> string \<Rightarrow> tabl \<Rightarrow> probe \<Rightarrow> 'w \<Rightarrow> 'w \<times> event list \<times> string option" where
  "probe_one srv db expect label t p w =
     (if Want p = ''rows'' then
        (case sv_sql srv db [pr_sql p @ '';''] w of (w1, out, good) \<Rightarrow>
           if \<not> good then (w1, [], Some (label @ '': count failed''))
           else let got = trim_space out
                in (w1, [Counted (tb_name t) got],
                    case map_of expect (tb_name t) of
                      Some want \<Rightarrow> if got \<noteq> want
                        then Some (label @ '': expected '' @ want @ '' rows, got '' @ got) else None
                    | None \<Rightarrow> None))
      else if pr_name p = ''access-paths'' then
        (let q = ''SELECT count(*) FROM '' @ tb_name t @ '' WHERE v > 0;'' in
         case sv_sql srv db [''SET enable_indexscan=off;'', ''SET enable_bitmapscan=off;'', q] w of (w1, s, _) \<Rightarrow>
         case sv_sql srv db [''SET enable_seqscan=off;'', q] w1 of (w2, i, _) \<Rightarrow>
           (w2, [], if lastLine s \<noteq> lastLine i
             then Some (label @ '': access paths disagree -- seqscan='' @ [sq] @ lastLine s @ [sq] @ '' indexscan='' @ [sq]
               @ lastLine i @ [sq] @ '' for ['' @ trim_suffix q '';'' @ '']'')
             else None))
      else
        (case sv_sql srv db [pr_sql p @ '';''] w of (w1, out, good) \<Rightarrow>
           (w1, [], if good then None
             else if pr_name p = ''orioledb_tbl_check'' then Some (label @ '': orioledb_tbl_check: '' @ pickError out)
             else Some (label @ '': probe failed: '' @ trim_suffix (pr_sql p) '';''))))"

definition probe_table :: "'w server \<Rightarrow> string \<Rightarrow> string gomap \<Rightarrow> string \<Rightarrow> tabl \<Rightarrow> 'w \<Rightarrow> 'w \<times> event list \<times> string option" where
  "probe_table srv db expect tag t = first_failure (probe_one srv db expect (tag @ ''/'' @ tb_name t) t) (ProbesFor t)"

definition probe_all :: "'w server \<Rightarrow> string \<Rightarrow> scen \<Rightarrow> string gomap \<Rightarrow> string \<Rightarrow> string \<Rightarrow> 'w \<Rightarrow> 'w \<times> event list \<times> string option" where
  "probe_all srv db sc expect ph step_table =
     first_failure (probe_table srv db expect (if step_table = [] then ph else ph @ '':'' @ step_table)) (Tables sc)"

subsection \<open>one step\<close>

text \<open>The writers' results, in the order they arrive: a note, or the failure of the step.\<close>

definition writer_result :: "string \<Rightarrow> string \<times> bool \<Rightarrow> 'w \<Rightarrow> 'w \<times> event list \<times> string option" where
  "writer_result op r w =
     (let msg = (if snd r then [] else pickError (fst r))
      in if msg = [] then (w, [], None)
         else if Transient msg then (w, [Line (''SFZ-NOTE: transient during '' @ op @ '': '' @ msg)], None)
         else if Unsupported msg then (w, [Line (''SFZ-NOTE: unsupported during '' @ op @ '': '' @ msg)], None)
         else (w, [], Some (op @ '' (concurrent writer): '' @ msg)))"

definition carry_out :: "'w server \<Rightarrow> (f64 \<Rightarrow> string) \<Rightarrow> string \<Rightarrow> scen \<Rightarrow> stp \<Rightarrow> plan \<Rightarrow> 'w \<Rightarrow> 'w \<times> event list \<times> string option" where
  "carry_out srv fmt_num db sc st p w =
     (case Kind p of
        SQL \<Rightarrow> (case sv_sql srv db (Stmts p) w of (w1, out, good) \<Rightarrow>
          (w1, [], if good then None else Some (Op st @ '': '' @ pickError out)))
      | Concurrent \<Rightarrow>
          (let n = (if Parallel p \<and> Writers sc > 1 then nat (Writers sc) else 1)
           in case sv_writers srv db n (Stmts p) w of (w1, res) \<Rightarrow> first_failure (writer_result (Op st)) res w1)
      | Control \<Rightarrow>
          (case sv_start srv (PostmasterSettings fmt_num sc) (if OrioleDB sc then ''orioledb'' else [])
              (if Ctl p = ''crash'' then sv_crash srv w else sv_stop srv w) of
             (w1, Some e) \<Rightarrow> (w1, [], Some (Op st @ '': server did not come back: '' @ e))
           | (w1, None) \<Rightarrow> (w1, [], None)))"

text \<open>What the next count is held against: predicted for a known delta, adopted for a declared change.\<close>

definition next_expect :: "'w server \<Rightarrow> string \<Rightarrow> stp \<Rightarrow> plan \<Rightarrow> string gomap \<Rightarrow> 'w \<Rightarrow> 'w \<times> string gomap" where
  "next_expect srv db st p expect w =
     (if RowDelta p \<noteq> 0 \<and> on_table st \<noteq> [] then
        (case atoi (trim_space (sub expect (on_table st))) of (n, good) \<Rightarrow>
           (w, if good then AList.update (on_table st) (itoa (n + RowDelta p)) expect else expect))
      else if ChangesRows p \<and> on_table st \<noteq> [] then
        (case sv_sql srv db [''SELECT count(*) FROM '' @ on_table st @ '';''] w of (w1, out, good) \<Rightarrow>
           (w1, if good then AList.update (on_table st) (trim_space out) expect else expect))
      else (w, expect))"

fun run_steps :: "'w server \<Rightarrow> (f64 \<Rightarrow> string) \<Rightarrow> string \<Rightarrow> scen \<Rightarrow> stp list \<Rightarrow> string gomap \<Rightarrow> 'w
    \<Rightarrow> 'w \<times> event list \<times> string option" where
  "run_steps srv fmt_num db sc [] expect w = (w, [], None)"
| "run_steps srv fmt_num db sc (st # sts) expect w =
     (case PlanStep st sc of
        None \<Rightarrow> (case run_steps srv fmt_num db sc sts expect w of
          (w1, ev, r) \<Rightarrow> (w1, Line (''SFZ-SKIP: unplanned op '' @ Op st) # ev, r))
      | Some p \<Rightarrow>
          (let said = Line (''SFZ-STEP: '' @ Op st @ '':'' @ on_table st)
           in case carry_out srv fmt_num db sc st p w of
                (w1, ev1, Some e) \<Rightarrow> (w1, said # ev1, Some e)
              | (w1, ev1, None) \<Rightarrow>
                  (case next_expect srv db st p expect w1 of (w2, expect') \<Rightarrow>
                   case probe_all srv db sc expect' (''after_'' @ Op st) (on_table st) w2 of
                     (w3, ev3, Some e) \<Rightarrow> (w3, said # ev1 @ ev3, Some e)
                   | (w3, ev3, None) \<Rightarrow>
                       (case run_steps srv fmt_num db sc sts expect' w3 of
                          (w4, ev4, r) \<Rightarrow> (w4, said # ev1 @ ev3 @ ev4, r)))))"

text \<open>The counts after the load.\<close>

fun load_counts :: "'w server \<Rightarrow> string \<Rightarrow> tabl list \<Rightarrow> string gomap \<Rightarrow> 'w \<Rightarrow> 'w \<times> string gomap" where
  "load_counts srv db [] expect w = (w, expect)"
| "load_counts srv db (t # ts) expect w =
     (case sv_sql srv db [''SELECT count(*) FROM '' @ tb_name t @ '';''] w of (w1, out, good) \<Rightarrow>
        load_counts srv db ts (if good then AList.update (tb_name t) (trim_space out) expect else expect) w1)"

text \<open>\<open>strings.Replace(s, old, new, 1)\<close>, for a text to find that is not empty.\<close>

fun replace_first :: "string \<Rightarrow> string \<Rightarrow> string \<Rightarrow> string" where
  "replace_first old new [] = []"
| "replace_first old new (c # s) =
     (if has_prefix (c # s) old then new @ drop (length old) (c # s) else c # replace_first old new s)"

definition located :: "string \<Rightarrow> string \<Rightarrow> string \<Rightarrow> string" where
  "located work ts setup =
     replace_first (''CREATE TABLESPACE '' @ ts @ '' LOCATION '' @ [sq, sq])
       (''CREATE TABLESPACE '' @ ts @ '' LOCATION '' @ [sq] @ work @ ''/'' @ ts @ [sq]) setup"

definition fail_with :: "'w server \<Rightarrow> string \<Rightarrow> nat \<Rightarrow> 'w \<Rightarrow> event list" where
  "fail_with srv what n w = [Line (''SFZ-RESULT: '' @ what), Line ''SFZ-BEGIN-LOG'', Line (sv_tail srv n w)]"

text \<open>The run once the server is up: the setup, the load's counts, the steps, the verdict.\<close>

definition run_loaded :: "'w server \<Rightarrow> (jval \<Rightarrow> string) \<Rightarrow> (f64 \<Rightarrow> string) \<Rightarrow> string \<Rightarrow> string \<Rightarrow> scen \<Rightarrow> 'w \<Rightarrow> 'w \<times> event list \<times> int" where
  "run_loaded srv show_v fmt_num work db sc w =
     (let setup = located work ''ts_b'' (located work ''ts_a'' (RenderSetup show_v sc)); said = Line ''SFZ-PHASE: setup''
      in case sv_file srv db setup w of
           (w1, out, False) \<Rightarrow> (sv_stop srv w1, said # fail_with srv (''setup-failed: '' @ pickError out) 30 w1, 3)
         | (w1, out, True) \<Rightarrow>
             (case load_counts srv db (Tables sc) [] w1 of (w2, expect) \<Rightarrow>
              case probe_all srv db sc expect ''after_load'' [] w2 of
                (w3, ev, Some e) \<Rightarrow> (sv_stop srv w3, said # ev @ fail_with srv e 40 w3, 1)
              | (w3, ev, None) \<Rightarrow>
                  (case run_steps srv fmt_num db sc (Steps sc) expect w3 of
                     (w4, ev4, Some e) \<Rightarrow> (sv_stop srv w4, said # ev @ ev4 @ fail_with srv e 40 w4, 1)
                   | (w4, ev4, None) \<Rightarrow> (sv_stop srv w4, said # ev @ ev4 @ [Line ''SFZ-RESULT: clean''], 0))))"

text \<open>The whole driver; \<open>Inl\<close> is a scenario that could not be read or a directory that could not be made.\<close>

definition drive :: "'w server \<Rightarrow> (jval \<Rightarrow> string) \<Rightarrow> (f64 \<Rightarrow> string) \<Rightarrow> string \<Rightarrow> string + scen \<Rightarrow> 'w \<Rightarrow> 'w \<times> event list \<times> int" where
  "drive srv show_v fmt_num work inp w =
     (case inp of
        Inl e \<Rightarrow> (w, [Line (''SFZ-SETUP-FAILED: '' @ e)], 3)
      | Inr sc \<Rightarrow>
          (case sv_init srv w of
             (w1, Some e) \<Rightarrow> (w1, [Line (''SFZ-SETUP-FAILED: '' @ e)], 3)
           | (w1, None) \<Rightarrow>
               (case sv_start srv (PostmasterSettings fmt_num sc) (if OrioleDB sc then ''orioledb'' else []) w1 of
                  (w2, Some e) \<Rightarrow> (w2, [Line (''SFZ-SETUP-FAILED: '' @ e @ [newline] @ sv_tail srv 30 w2)], 3)
                | (w2, None) \<Rightarrow>
                    (case sv_sql srv ''postgres'' [''CREATE DATABASE dbfuzz;''] w2 of (w3, out, good) \<Rightarrow>
                     let db = (if \<not> good \<and> \<not> contains out ''already exists'' then ''postgres'' else ''dbfuzz'')
                     in if OrioleDB sc then
                          (case sv_sql srv db [''CREATE EXTENSION IF NOT EXISTS orioledb;''] w3 of
                             (w4, out4, False) \<Rightarrow> (w4, [Line (''SFZ-SETUP-FAILED: orioledb extension: '' @ firstLines out4 3)], 3)
                           | (w4, out4, True) \<Rightarrow> run_loaded srv show_v fmt_num work db sc w4)
                        else run_loaded srv show_v fmt_num work db sc w3))))"

subsection \<open>the host\<close>

definition printed :: "event list \<Rightarrow> string" where
  "printed evs = unlines (concat (map (\<lambda>e. case e of Line l \<Rightarrow> [l] | Counted _ _ \<Rightarrow> []) evs))"

text \<open>The first line that carries the mark, and every line that does.\<close>

definition marked :: "string \<Rightarrow> string \<Rightarrow> string list" where
  "marked mark out =
     List.map_filter (\<lambda>l. let u = trim_space l in if has_prefix u mark then Some (drop (length mark) u) else None)
       (split_at newline out)"

definition ResultLine :: "string \<Rightarrow> string" where
  "ResultLine out = (case marked ''SFZ-RESULT: '' out of [] \<Rightarrow> [] | v # _ \<Rightarrow> v)"

definition NoteLines :: "string \<Rightarrow> string list" where
  "NoteLines out = marked ''SFZ-NOTE: '' out"

definition verdictWord :: "string \<Rightarrow> string" where
  "verdictWord got =
     (if got = [] then ''COULD NOT RUN''
      else if has_prefix got ''setup-failed:'' then ''COULD NOT BUILD THE SCENARIO''
      else if got = ''clean'' then ''ran clean -- did NOT reproduce''
      else ''REPRODUCED'')"

definition scenario_exit :: "string \<Rightarrow> int" where
  "scenario_exit got =
     (if got = [] then 2 else if has_prefix got ''setup-failed:'' then 2 else if got = ''clean'' then 1 else 0)"

subsection \<open>what a clean run was answered\<close>

definition counted :: "string \<Rightarrow> event list \<Rightarrow> string list" where
  "counted n evs = concat (map (\<lambda>e. case e of Line _ \<Rightarrow> [] | Counted t a \<Rightarrow> if t = n then [a] else []) evs)"

lemma counted_simps [simp]:
  "counted n [] = []" "counted n (Line l # evs) = counted n evs" "counted n (xs @ ys) = counted n xs @ counted n ys"
  "counted n (Counted t a # evs) = (if t = n then a # counted n evs else counted n evs)"
  by (simp_all add: counted_def)

lemma ff_counted:
  assumes "\<And>x w w1 ev. x \<in> set xs \<Longrightarrow> f x w = (w1, ev, None) \<Longrightarrow> counted n ev = g x"
  shows "first_failure f xs w = (w', ev, None) \<Longrightarrow> counted n ev = concat (map g xs)"
  using assms
proof (induction xs arbitrary: w w' ev)
  case (Cons x xs)
  obtain w1 ev1 where 1: "f x w = (w1, ev1, None)"
    using Cons.prems(1) by (auto split: prod.splits option.splits)
  obtain w2 ev2 where 2: "first_failure f xs w1 = (w2, ev2, None)" "ev = ev1 @ ev2"
    using Cons.prems(1) 1 by (auto split: prod.splits)
  have "counted n ev1 = g x" using Cons.prems(2) [OF _ 1] by simp
  moreover have "counted n ev2 = concat (map g xs)" by (rule Cons.IH [OF 2(1)]) (use Cons.prems(2) in auto)
  ultimately show ?case using 2(2) by simp
qed simp

lemma probe_one_counted:
  assumes "probe_one srv db expect label t p w = (w1, ev, None)"
    and "n = tb_name t \<Longrightarrow> map_of expect n = Some want"
  shows "counted n ev = (if Want p = ''rows'' \<and> n = tb_name t then [want] else [])"
proof (cases "Want p = ''rows''")
  case True
  then show ?thesis
    using assms unfolding probe_one_def by (auto simp: Let_def split: prod.splits if_splits option.splits)
next
  case False
  then have "ev = []" using assms(1) unfolding probe_one_def by (auto simp: Let_def split: prod.splits if_splits)
  with False show ?thesis by simp
qed

lemma probe_table_counted:
  assumes "probe_table srv db expect tag t w = (w1, ev, None)"
    and "n = tb_name t \<Longrightarrow> map_of expect n = Some want"
  shows "counted n ev = (if n = tb_name t then [want] else [])"
proof -
  have "counted n ev = concat (map (\<lambda>p. if Want p = ''rows'' \<and> n = tb_name t then [want] else []) (ProbesFor t))"
    by (rule ff_counted [OF _ assms(1) [unfolded probe_table_def]]) (rule probe_one_counted [OF _ assms(2)])
  also have "\<dots> = (if n = tb_name t then [want] else [])" by (simp add: ProbesFor_def Let_def)
  finally show ?thesis .
qed

lemma concat_one:
  "distinct (map f xs) \<Longrightarrow> n \<in> f ` set xs \<Longrightarrow> concat (map (\<lambda>x. if n = f x then [want] else []) xs) = [want]"
proof (induction xs)
  case (Cons x xs)
  have none: "n \<notin> f ` set ys \<Longrightarrow> concat (map (\<lambda>x. if n = f x then [want] else []) ys) = []" for ys
    by (induction ys) auto
  show ?case using Cons none by (cases "n = f x") auto
qed simp

lemma probe_all_counted:
  assumes "probe_all srv db sc expect ph st w = (w1, ev, None)" and "map_of expect n = Some want"
    and "distinct (map tb_name (Tables sc))" and "n \<in> tb_name ` set (Tables sc)"
  shows "counted n ev = [want]"
proof -
  have "counted n ev = concat (map (\<lambda>t. if n = tb_name t then [want] else []) (Tables sc))"
    by (rule ff_counted [OF _ assms(1) [unfolded probe_all_def]]) (rule probe_table_counted [OF _ assms(2)])
  also have "\<dots> = [want]" by (rule concat_one [OF assms(3,4)])
  finally show ?thesis .
qed

lemma writer_result_counted: "writer_result op r w = (w1, ev, x) \<Longrightarrow> counted n ev = []"
  by (auto simp: writer_result_def Let_def split: if_splits)

lemma carry_out_counted:
  assumes "carry_out srv fmt_num db sc st p w = (w1, ev, None)"
  shows "counted n ev = []"
proof (cases "Kind p")
  case Concurrent
  then obtain k w2 res where "first_failure (writer_result (Op st)) res w2 = (w1, ev, None)"
    using assms unfolding carry_out_def by (auto simp: Let_def split: prod.splits)
  then have "counted n ev = concat (map (\<lambda>_. []) res)" by (rule ff_counted [rotated]) (rule writer_result_counted)
  then show ?thesis by simp
qed (use assms in \<open>auto simp: carry_out_def split: prod.splits option.splits if_splits\<close>)

definition delta :: "scen \<Rightarrow> string \<Rightarrow> stp \<Rightarrow> int" where
  "delta sc n st = (case PlanStep st sc of None \<Rightarrow> 0 | Some p \<Rightarrow> if on_table st = n then RowDelta p else 0)"

fun predicted :: "scen \<Rightarrow> string \<Rightarrow> int \<Rightarrow> stp list \<Rightarrow> int list" where
  "predicted sc n k [] = []"
| "predicted sc n k (st # sts) =
     (if PlanStep st sc = None then predicted sc n k sts
      else (k + delta sc n st) # predicted sc n (k + delta sc n st) sts)"

lemma plan_delta: "PlanStep st sc = Some p \<Longrightarrow> RowDelta p \<in> {0, 11, 21}"
proof -
  assume "PlanStep st sc = Some p"
  then have mem: "(Op st, p) \<in> set (sql_step (on_table st) (findTable sc (on_table st))
      @ transactional_step (on_table st) (findTable sc (on_table st)) @ other_step (on_table st))"
    unfolding PlanStep_def Let_def by (rule map_of_SomeD)
  have "list_all (\<lambda>e. RowDelta (snd e) \<in> {0, 11, 21}) (sql_step t tbl @ transactional_step t tbl @ other_step t)" for t tbl
    unfolding sql_step_def transactional_step_def other_step_def sql_plan_def by simp
  with mem show ?thesis unfolding list_all_iff by fastforce
qed

lemma next_expect_predicts:
  assumes "next_expect srv db st p expect w = (w1, expect')" and "map_of expect n = Some (itoa k)" and "n \<noteq> []"
    and "PlanStep st sc = Some p" and "on_table st = n \<Longrightarrow> \<not> ChangesRows p" and "0 \<le> k" and "k \<le> max_int64"
  shows "map_of expect' n = Some (itoa (k + delta sc n st))"
proof (cases "on_table st = n")
  case True
  have a: "atoi (itoa k) = (k, True)" by (rule atoi_itoa) (use assms(6,7) in \<open>simp_all add: max_int64_def\<close>)
  have "expect' = (if RowDelta p \<noteq> 0 then AList.update n (itoa (k + RowDelta p)) expect else expect)"
    using assms True a by (auto simp: next_expect_def sub_def split: if_splits)
  then show ?thesis using True assms(2,4) by (simp add: delta_def)
next
  case False
  then have "map_of expect' n = map_of expect n"
    using assms(1) by (auto simp: next_expect_def split: if_splits prod.splits)
  with False assms(2,4) show ?thesis by (simp add: delta_def)
qed

lemma delta_bounds: "0 \<le> delta sc n st" "delta sc n st \<le> 21"
  using plan_delta [of st sc] by (auto simp: delta_def split: option.splits)

text \<open>
  C14: A clean run answered every count as predicted. For a table no step declares to change, the counts
  its probe was given are, step by step, the loaded count plus the deltas of the plans so far: nothing the
  server answers ever enters the prediction, so a rollback that leaves rows behind cannot pass as clean.
\<close>

theorem clean_run_counts_as_predicted:
  assumes "run_steps srv fmt_num db sc steps expect w = (w', evs, None)"
    and "map_of expect n = Some (itoa k)" and "n \<noteq> []" and "0 \<le> k" and "k + 21 * int (length steps) \<le> max_int64"
    and "distinct (map tb_name (Tables sc))" and "n \<in> tb_name ` set (Tables sc)"
    and "\<forall>st \<in> set steps. on_table st = n \<longrightarrow> (\<forall>p. PlanStep st sc = Some p \<longrightarrow> \<not> ChangesRows p)"
  shows "counted n evs = map itoa (predicted sc n k steps)"
  using assms
proof (induction steps arbitrary: expect w w' evs k)
  case Nil
  then show ?case by simp
next
  case (Cons st sts)
  show ?case
  proof (cases "PlanStep st sc")
    case None
    obtain w1 ev1 where r: "run_steps srv fmt_num db sc sts expect w = (w1, ev1, None)"
      "evs = Line (''SFZ-SKIP: unplanned op '' @ Op st) # ev1"
      using Cons.prems(1) None by (auto split: prod.splits)
    have "counted n ev1 = map itoa (predicted sc n k sts)"
      by (rule Cons.IH [OF r(1)]) (use Cons.prems in auto)
    then show ?thesis using None r(2) by simp
  next
    case (Some p)
    obtain w1 ev1 where 1: "carry_out srv fmt_num db sc st p w = (w1, ev1, None)"
      using Cons.prems(1) Some by (auto simp: Let_def split: prod.splits option.splits)
    obtain w2 expect' where 2: "next_expect srv db st p expect w1 = (w2, expect')" by (cases "next_expect srv db st p expect w1")
    obtain w3 ev3 where 3: "probe_all srv db sc expect' (''after_'' @ Op st) (on_table st) w2 = (w3, ev3, None)"
      using Cons.prems(1) Some 1 2 by (auto simp: Let_def split: prod.splits option.splits)
    obtain w4 ev4 where 4: "run_steps srv fmt_num db sc sts expect' w3 = (w4, ev4, None)"
      and evs: "evs = Line (''SFZ-STEP: '' @ Op st @ '':'' @ on_table st) # ev1 @ ev3 @ ev4"
      using Cons.prems(1) Some 1 2 3 by (auto simp: Let_def split: prod.splits)
    let ?k = "k + delta sc n st"
    have "k \<le> max_int64" using Cons.prems(5) by simp
    have e: "map_of expect' n = Some (itoa ?k)"
      by (rule next_expect_predicts [OF 2 Cons.prems(2,3) Some _ Cons.prems(4) \<open>k \<le> max_int64\<close>])
        (use Cons.prems(8) Some in simp)
    have "counted n ev4 = map itoa (predicted sc n ?k sts)"
      by (rule Cons.IH [OF 4 e]) (use Cons.prems delta_bounds [of sc n st] in auto)
    moreover have "counted n ev3 = [itoa ?k]" by (rule probe_all_counted [OF 3 e Cons.prems(6,7)])
    moreover have "counted n ev1 = []" by (rule carry_out_counted [OF 1])
    ultimately show ?thesis using evs Some by simp
  qed
qed

text \<open>A server that holds one table and counts its rows.\<close>

definition counting :: "int server" where
  "counting = \<lparr>sv_init = (\<lambda>w. (w, None)), sv_start = (\<lambda>c p w. (w, None)),
     sv_sql = (\<lambda>db ss w. if last ss = ''COMMIT;'' then (w + 21, [], True)
                 else (w, if ss = [''SELECT count(*) FROM t0;''] then itoa w else [], True)),
     sv_file = (\<lambda>db f w. (w, [], True)), sv_writers = (\<lambda>db n ss w. (w, replicate n ([], True))),
     sv_stop = (\<lambda>w. w), sv_crash = (\<lambda>w. w), sv_tail = (\<lambda>n w. [])\<rparr>"

definition undo_scen :: scen where
  "undo_scen = small_scen (one_table ''single'' ''int'') [''rollback_insert'', ''savepoint_partial'']"

lemma undo_plans:
  "PlanStep \<lparr>Op = ''rollback_insert'', on_table = ''t0''\<rparr> sc
     = Some (sql_plan [''BEGIN;'', stepInsert (findTable sc ''t0'') ''t0'' (rowsOf (findTable sc ''t0'') + 2000)
         (rowsOf (findTable sc ''t0'') + 2050) ''g'', ''ROLLBACK;''])"
  "\<exists>ss. PlanStep \<lparr>Op = ''savepoint_partial'', on_table = ''t0''\<rparr> sc
     = Some ((sql_plan (ss @ [''COMMIT;'']))\<lparr>RowDelta := 21\<rparr>)"
  by (simp_all add: PlanStep_def Let_def sql_step_def transactional_step_def sql_plan_def)

lemma undo_steps: "Tables undo_scen = [one_table ''single'' ''int'']"
  "Steps undo_scen = [\<lparr>Op = ''rollback_insert'', on_table = ''t0''\<rparr>, \<lparr>Op = ''savepoint_partial'', on_table = ''t0''\<rparr>]"
  by (simp_all add: undo_scen_def small_scen_def one_table_def)

lemma counting_probes:
  "probe_all counting db undo_scen [(''t0'', itoa w)] tg st w = (w, [Counted ''t0'' (itoa w)], None)"
  by (simp add: probe_all_def undo_steps probe_table_def ProbesFor_def Let_def probe_one_def counting_def one_table_def)

lemma counting_runs: "snd (snd (run_steps counting fmt db undo_scen (Steps undo_scen) [(''t0'', itoa 500)] 500)) = None"
proof -
  obtain ss where ss: "PlanStep \<lparr>Op = ''savepoint_partial'', on_table = ''t0''\<rparr> undo_scen
     = Some ((sql_plan (ss @ [''COMMIT;'']))\<lparr>RowDelta := 21\<rparr>)" using undo_plans(2) by blast
  have "atoi (itoa 500) = (500, True)" by (rule atoi_itoa) (simp_all add: max_int64_def)
  then show ?thesis unfolding undo_steps
    by (simp add: undo_plans(1) ss carry_out_def next_expect_def sql_plan_def counting_probes sub_def del: itoa_def)
      (simp add: counting_def counting_probes [unfolded counting_def])
qed

theorem clean_run_counts_as_predicted_witness:
  "counted ''t0'' (fst (snd (run_steps counting (\<lambda>_. []) ''dbfuzz'' undo_scen (Steps undo_scen) [(''t0'', itoa 500)] 500)))
     = [itoa 500, itoa 521]"
proof -
  let ?r = "run_steps counting (\<lambda>_. []) ''dbfuzz'' undo_scen (Steps undo_scen) [(''t0'', itoa 500)] 500"
  obtain w' evs where r: "?r = (w', evs, None)"
    using counting_runs [of "\<lambda>_. []" "''dbfuzz''"] by (cases ?r) simp
  have e: "map_of [(''t0'', itoa 500)] ''t0'' = Some (itoa 500)" by simp
  have q: "\<forall>st \<in> set (Steps undo_scen). on_table st = ''t0'' \<longrightarrow> (\<forall>p. PlanStep st undo_scen = Some p \<longrightarrow> \<not> ChangesRows p)"
    using undo_plans [of undo_scen] by (auto simp: undo_steps sql_plan_def)
  have "counted ''t0'' evs = map itoa (predicted undo_scen ''t0'' 500 (Steps undo_scen))"
    by (rule clean_run_counts_as_predicted [OF r e _ _ _ _ _ q])
      (simp_all add: max_int64_def undo_steps one_table_def)
  also have "\<dots> = [itoa 500, itoa 521]"
    using undo_plans [of undo_scen] by (auto simp: undo_steps delta_def sql_plan_def)
  finally show ?thesis using r by simp
qed

subsection \<open>what the host reads\<close>

lemma newline_free: "newline \<notin> set (trim_space l)" if "newline \<notin> set l"
  using set_trim_by that by blast

lemma split_newline_free: "l \<in> set (split_at newline s) \<Longrightarrow> newline \<notin> set l"
  using split_at_no_sep by blast

lemma firstLines_free: "newline \<notin> set (firstLines s 1)"
proof -
  have "take 1 (split_at newline (trim_space s)) = [hd (split_at newline (trim_space s))]"
    by (cases "split_at newline (trim_space s)") (use split_at_ne in auto)
  then show ?thesis unfolding firstLines_def using split_newline_free [of _ "trim_space s"]
    by (simp add: list.set_sel(1))
qed

lemma pickError_free: "newline \<notin> set (pickError out)"
proof (cases "filter (\<lambda>l. contains l ''ERROR:'' \<or> contains l ''FATAL:'' \<or> contains l ''server closed the connection'')
    (split_at newline out)")
  case Nil
  show ?thesis unfolding pickError_def Nil list.case by (rule firstLines_free)
next
  case (Cons l ls)
  have "l \<in> set (l # ls)" by simp
  then have "l \<in> set (split_at newline out)" unfolding Cons [symmetric] set_filter mem_Collect_eq
    by (rule conjunct1)
  then show ?thesis unfolding pickError_def Cons list.case by (rule newline_free [OF split_newline_free])
qed

lemma split_unlines: "\<forall>l \<in> set ls. newline \<notin> set l \<Longrightarrow> split_at newline (unlines ls @ s) = ls @ split_at newline s"
  by (induction ls) (simp_all add: unlines_def split_at_append)

lemma hd_split: "newline \<notin> set u \<Longrightarrow> hd (split_at newline (u @ s)) = u @ hd (split_at newline s)"
  by (induction u) (auto split: list.splits)

text \<open>Trimming keeps a beginning that neither starts nor ends in a space.\<close>

lemma trim_keeps:
  assumes "u \<noteq> []" and "\<not> P (hd u)" and "\<not> P (last u)"
  shows "\<exists>r. trim_by P (u @ s) = u @ r"
proof -
  have "dropWhile P (u @ s) = u @ s" using assms(1,2) by (cases u) auto
  moreover have "\<exists>r. rev (dropWhile P (rev (u @ s))) = u @ r"
  proof (cases "\<forall>c \<in> set (rev s). P c")
    case True
    then have "dropWhile P (rev (u @ s)) = dropWhile P (rev u)" using dropWhile_append2 [of "rev s" P "rev u"] by simp
    moreover have "dropWhile P (rev u) = rev u" using assms(1,3) by (cases u rule: rev_cases) auto
    ultimately show ?thesis by simp
  next
    case False
    then have "dropWhile P (rev s @ rev u) = dropWhile P (rev s) @ rev u" by (auto simp: dropWhile_append1)
    then show ?thesis by simp
  qed
  ultimately show ?thesis by (simp add: trim_by_def)
qed

lemma trim_prefix_back: "\<not> P c \<Longrightarrow> has_prefix (trim_by P (c # s)) p \<Longrightarrow> has_prefix (c # s) p"
proof -
  assume c: "\<not> P c" and p: "has_prefix (trim_by P (c # s)) p"
  have "trim_by P (c # s) = rev (dropWhile P (rev (c # s)))" using c by (simp add: trim_by_def)
  moreover have "\<exists>v. c # s = rev (dropWhile P (rev (c # s))) @ v"
    by (rule exI [of _ "rev (takeWhile P (rev (c # s)))"])
      (metis rev_append rev_rev_ident takeWhile_dropWhile_id)
  ultimately show ?thesis using p unfolding has_prefix_iff by (metis append.assoc)
qed

text \<open>Lines the driver prints before its verdict: on one line each, and not a verdict.\<close>

definition silent :: "string \<Rightarrow> bool" where
  "silent l \<longleftrightarrow> newline \<notin> set l \<and> (\<exists>r. l = ''SFZ-S'' @ r \<or> l = ''SFZ-N'' @ r \<or> l = ''SFZ-P'' @ r)"

definition mute :: "event list \<Rightarrow> bool" where
  "mute evs \<longleftrightarrow> (\<forall>l. Line l \<in> set evs \<longrightarrow> silent l)"

lemma mute_simps [simp]: "mute []" "mute (xs @ ys) \<longleftrightarrow> mute xs \<and> mute ys" "mute (Counted t a # xs) \<longleftrightarrow> mute xs"
  by (auto simp: mute_def)

lemma mute_line: "mute (Line l # xs) \<longleftrightarrow> mute [Line l] \<and> mute xs"
  by (auto simp: mute_def)

definition mark :: string where "mark = ''SFZ-RESULT: ''"

lemma no_mark: "l = ''SFZ-S'' @ r \<or> l = ''SFZ-N'' @ r \<or> l = ''SFZ-P'' @ r \<Longrightarrow> \<not> has_prefix (trim_space l) mark"
proof
  assume l: "l = ''SFZ-S'' @ r \<or> l = ''SFZ-N'' @ r \<or> l = ''SFZ-P'' @ r" and p: "has_prefix (trim_space l) mark"
  then obtain t where t: "l = CHR ''S'' # t" by auto
  have "has_prefix l mark" using p unfolding t by (rule trim_prefix_back [rotated]) (simp add: is_space_def)
  with l show False by (auto simp: mark_def)
qed

lemma silent_no_mark: "silent l \<Longrightarrow> newline \<notin> set l \<and> \<not> has_prefix (trim_space l) mark"
  unfolding silent_def using no_mark by blast

definition lines_of :: "event list \<Rightarrow> string list" where
  "lines_of evs = concat (map (\<lambda>e. case e of Line l \<Rightarrow> [l] | Counted _ _ \<Rightarrow> []) evs)"

lemma lines_of_in: "l \<in> set (lines_of evs) \<longleftrightarrow> Line l \<in> set evs"
  by (induction evs) (auto simp: lines_of_def split: event.splits)

lemma hd_split_snoc: "hd (split_at newline (s @ newline # t)) = hd (split_at newline s)"
  by (induction s) (auto split: list.splits)

lemma marked_none: "\<forall>l \<in> set ls. \<not> has_prefix (trim_space l) m \<Longrightarrow>
    List.map_filter (\<lambda>l. let u = trim_space l in if has_prefix u m then Some (drop (length m) u) else None) ls = []"
  by (induction ls) (simp_all add: Let_def)

lemma result_line:
  assumes "mute pre" and v: "trim_space (mark @ hd (split_at newline what)) = mark @ v"
  shows "ResultLine (printed (pre @ Line (mark @ what) # post)) = v"
proof -
  have l: "\<forall>l \<in> set (lines_of pre). newline \<notin> set l" "\<forall>l \<in> set (lines_of pre). \<not> has_prefix (trim_space l) mark"
    using assms(1) silent_no_mark by (auto simp: mute_def lines_of_in)
  have m: "newline \<notin> set mark" by (simp add: mark_def)
  let ?rest = "unlines (lines_of post)"
  have "printed (pre @ Line (mark @ what) # post) = unlines (lines_of pre) @ mark @ what @ newline # ?rest"
    by (simp add: printed_def lines_of_def unlines_def)
  then have "split_at newline (printed (pre @ Line (mark @ what) # post))
      = lines_of pre @ split_at newline (mark @ what @ newline # ?rest)"
    by (simp only: split_unlines [OF l(1)])
  moreover have "hd (split_at newline (mark @ what @ newline # ?rest)) = mark @ hd (split_at newline what)"
    unfolding hd_split [OF m] hd_split_snoc ..
  then obtain ls where "split_at newline (mark @ what @ newline # ?rest) = (mark @ hd (split_at newline what)) # ls"
    using split_at_ne by (metis list.collapse)
  ultimately have "marked mark (printed (pre @ Line (mark @ what) # post)) = v
      # List.map_filter (\<lambda>l. let u = trim_space l in if has_prefix u mark then Some (drop (length mark) u) else None) ls"
    unfolding marked_def by (simp add: map_filter_append marked_none [OF l(2), unfolded Let_def] v Let_def)
  then show ?thesis unfolding ResultLine_def mark_def [symmetric] by simp
qed

lemma ff_mute:
  assumes "\<And>x w w1 ev r. x \<in> set xs \<Longrightarrow> f x w = (w1, ev, r) \<Longrightarrow> mute ev \<and> (\<forall>e. r = Some e \<longrightarrow> R e)"
  shows "first_failure f xs w = (w', ev, r) \<Longrightarrow> mute ev \<and> (\<forall>e. r = Some e \<longrightarrow> R e)"
  using assms
proof (induction xs arbitrary: w w' ev)
  case (Cons x xs)
  obtain w1 ev1 r1 where 1: "f x w = (w1, ev1, r1)" by (cases "f x w")
  have m: "mute ev1 \<and> (\<forall>e. r1 = Some e \<longrightarrow> R e)" using Cons.prems(2) [OF _ 1] by simp
  show ?case
  proof (cases r1)
    case None
    obtain w2 ev2 where 2: "first_failure f xs w1 = (w2, ev2, r)" "ev = ev1 @ ev2"
      using Cons.prems(1) 1 None by (auto split: prod.splits)
    have "mute ev2 \<and> (\<forall>e. r = Some e \<longrightarrow> R e)" by (rule Cons.IH [OF 2(1)], rule Cons.prems(2)) auto
    with m 2 show ?thesis by simp
  next
    case (Some e)
    then show ?thesis using Cons.prems(1) 1 m by simp
  qed
qed simp

text \<open>What a failed step or probe reports.\<close>

definition step_report :: "string \<Rightarrow> bool" where
  "step_report e \<longleftrightarrow> (\<exists>op \<in> set Ops. \<exists>r. e = (op @ '':'') @ r \<or> e = (op @ '' (concurrent'') @ r)"

definition probe_report :: "string \<Rightarrow> bool" where
  "probe_report e \<longleftrightarrow> (\<exists>r. e = ''after_'' @ r)"

lemma probe_one_mute:
  "probe_one srv db expect (''after_'' @ l) t p w = (w1, ev, r) \<Longrightarrow> mute ev \<and> (\<forall>e. r = Some e \<longrightarrow> probe_report e)"
  unfolding probe_one_def probe_report_def
  by (auto simp: Let_def split: prod.splits if_splits option.splits)

lemma probe_all_mute:
  "probe_all srv db sc expect (''after_'' @ ph) st w = (w1, ev, r) \<Longrightarrow> mute ev \<and> (\<forall>e. r = Some e \<longrightarrow> probe_report e)"
proof -
  obtain tg where tg: "(if st = [] then ''after_'' @ ph else (''after_'' @ ph) @ '':'' @ st) = ''after_'' @ tg"
    by (cases "st = []") auto
  assume "probe_all srv db sc expect (''after_'' @ ph) st w = (w1, ev, r)"
  then have f: "first_failure (probe_table srv db expect (''after_'' @ tg)) (Tables sc) w = (w1, ev, r)"
    unfolding probe_all_def tg .
  show ?thesis
  proof (rule ff_mute [OF _ f])
    fix t w w1 ev r
    assume "probe_table srv db expect (''after_'' @ tg) t w = (w1, ev, r)"
    then have g: "first_failure (probe_one srv db expect (''after_'' @ tg @ ''/'' @ tb_name t) t) (ProbesFor t) w = (w1, ev, r)"
      unfolding probe_table_def append_assoc .
    show "mute ev \<and> (\<forall>e. r = Some e \<longrightarrow> probe_report e)" by (rule ff_mute [OF probe_one_mute g])
  qed
qed

lemma note_silent: "newline \<notin> set x \<Longrightarrow> silent (''SFZ-NOTE: '' @ x)" "newline \<notin> set x \<Longrightarrow> silent (''SFZ-SKIP: '' @ x)"
  "newline \<notin> set x \<Longrightarrow> silent (''SFZ-STEP: '' @ x)" "silent ''SFZ-PHASE: setup''"
  by (simp_all add: silent_def)

lemma mute_one: "mute [Line l] = silent l"
  by (simp add: mute_def)

lemma writer_result_mute:
  assumes "writer_result op x w = (w1, ev, r)" and "newline \<notin> set op" and "op \<in> set Ops"
  shows "mute ev \<and> (\<forall>e. r = Some e \<longrightarrow> step_report e)"
proof -
  let ?m = "pickError (fst x)"
  have f: "newline \<notin> set ?m" by (rule pickError_free)
  have s: "silent (''SFZ-NOTE: '' @ ''transient during '' @ op @ '': '' @ ?m)"
    "silent (''SFZ-NOTE: '' @ ''unsupported during '' @ op @ '': '' @ ?m)"
    by (rule note_silent(1), use f assms(2) in simp)+
  have e: "step_report (op @ '' (concurrent writer): '' @ ?m)"
    unfolding step_report_def using assms(3) by (intro bexI [of _ op]) auto
  show ?thesis
    using assms(1) s e by (auto simp: writer_result_def Let_def mute_one split: if_splits)
qed

lemma carry_out_mute:
  assumes "carry_out srv fmt_num db sc st p w = (w1, ev, r)" and "newline \<notin> set (Op st)" and "Op st \<in> set Ops"
  shows "mute ev \<and> (\<forall>e. r = Some e \<longrightarrow> step_report e)"
proof (cases "Kind p")
  case Concurrent
  then obtain n w2 res where f: "first_failure (writer_result (Op st)) res w2 = (w1, ev, r)"
    using assms(1) unfolding carry_out_def by (auto simp: Let_def split: prod.splits)
  show ?thesis by (rule ff_mute [OF _ f]) (rule writer_result_mute [OF _ assms(2,3)])
next
  case SQL
  then have "ev = [] \<and> (\<forall>e. r = Some e \<longrightarrow> (\<exists>m. e = Op st @ '': '' @ m))"
    using assms(1) by (auto simp: carry_out_def split: prod.splits if_splits)
  then show ?thesis using assms(3) unfolding step_report_def by fastforce
next
  case Control
  then have "ev = [] \<and> (\<forall>e. r = Some e \<longrightarrow> (\<exists>m. e = Op st @ '': '' @ m))"
    using assms(1) by (auto simp: carry_out_def split: prod.splits option.splits)
  then show ?thesis using assms(3) unfolding step_report_def by fastforce
qed

lemma run_steps_mute:
  assumes "\<forall>st \<in> set steps. newline \<notin> set (Op st) \<and> newline \<notin> set (on_table st)"
  shows "run_steps srv fmt_num db sc steps expect w = (w', evs, r) \<Longrightarrow>
     mute evs \<and> (\<forall>e. r = Some e \<longrightarrow> step_report e \<or> probe_report e)"
  using assms
proof (induction steps arbitrary: expect w w' evs)
  case (Cons st sts)
  have n: "newline \<notin> set (Op st)" "newline \<notin> set (Op st @ '':'' @ on_table st)"
    "\<forall>st \<in> set sts. newline \<notin> set (Op st) \<and> newline \<notin> set (on_table st)" using Cons.prems(2) by auto
  have q: "silent (''SFZ-SKIP: '' @ ''unplanned op '' @ Op st)" "silent (''SFZ-STEP: '' @ Op st @ '':'' @ on_table st)"
    by (rule note_silent(2), use n in simp) (rule note_silent(3) [OF n(2)])
  show ?case
  proof (cases "PlanStep st sc")
    case None
    obtain w1 ev1 where 1: "run_steps srv fmt_num db sc sts expect w = (w1, ev1, r)"
      "evs = Line (''SFZ-SKIP: unplanned op '' @ Op st) # ev1"
      using Cons.prems(1) None by (auto split: prod.splits)
    show ?thesis using Cons.IH [OF 1(1) n(3)] q(1) 1(2) by (simp add: mute_line [of _ ev1] mute_one)
  next
    case (Some p)
    then have op: "Op st \<in> set Ops" using plan_known [of st sc] by (simp add: KnownOp_def list_ex_iff)
    obtain w1 ev1 r1 where 1: "carry_out srv fmt_num db sc st p w = (w1, ev1, r1)" by (cases "carry_out srv fmt_num db sc st p w")
    note m1 = carry_out_mute [OF 1 n(1) op]
    let ?said = "Line (''SFZ-STEP: '' @ Op st @ '':'' @ on_table st)"
    have said: "mute (?said # x) = mute x" for x using q(2) by (simp only: mute_line [of _ x] mute_one simp_thms)
    show ?thesis
    proof (cases r1)
      case None1: None
      obtain w2 expect' where 2: "next_expect srv db st p expect w1 = (w2, expect')" by (cases "next_expect srv db st p expect w1")
      obtain w3 ev3 r3 where 3: "probe_all srv db sc expect' (''after_'' @ Op st) (on_table st) w2 = (w3, ev3, r3)"
        by (cases "probe_all srv db sc expect' (''after_'' @ Op st) (on_table st) w2")
      note m3 = probe_all_mute [OF 3]
      show ?thesis
      proof (cases r3)
        case None
        obtain w4 ev4 where 4: "run_steps srv fmt_num db sc sts expect' w3 = (w4, ev4, r)" "evs = ?said # ev1 @ ev3 @ ev4"
          using Cons.prems(1) Some 1 None1 2 3 None by (auto simp: Let_def split: prod.splits)
        show ?thesis using Cons.IH [OF 4(1) n(3)] m1 m3 unfolding 4(2) said by simp
      next
        case r3: (Some e)
        then have "evs = ?said # ev1 @ ev3" "r = Some e"
          using Cons.prems(1) Some 1 None1 2 3 by (auto simp: Let_def)
        then show ?thesis using m1 m3 r3 unfolding \<open>evs = _\<close> said by simp
      qed
    next
      case r1: (Some e)
      then have "evs = ?said # ev1" "r = Some e" using Cons.prems(1) Some 1 by (auto simp: Let_def)
      then show ?thesis using m1 r1 unfolding \<open>evs = _\<close> said by simp
    qed
  qed
qed simp

lemma exit_step:
  "op \<in> set Ops \<Longrightarrow> scenario_exit ((op @ '':'') @ r) = 0 \<and> scenario_exit ((op @ '' (concurrent'') @ r) = 0
     \<and> op \<noteq> [] \<and> newline \<notin> set op"
proof -
  have "list_all (\<lambda>op. scenario_exit ((op @ '':'') @ r) = 0 \<and> scenario_exit ((op @ '' (concurrent'') @ r) = 0
     \<and> op \<noteq> [] \<and> newline \<notin> set op) Ops"
    by (simp add: Ops_def scenario_exit_def)
  then show "op \<in> set Ops \<Longrightarrow> ?thesis" unfolding list_all_iff by blast
qed

text \<open>A report with a beginning on one line that ends in no space is read with that beginning.\<close>

lemma read_report:
  assumes "mute pre" and "u \<noteq> []" and "\<not> is_space (last u)" and "newline \<notin> set u"
  shows "\<exists>r'. ResultLine (printed (pre @ Line (''SFZ-RESULT: '' @ u @ r) # post)) = u @ r'"
proof -
  have "\<exists>r'. trim_space ((mark @ u) @ hd (split_at newline r)) = (mark @ u) @ r'"
    by (rule trim_keeps) (use assms(2,3) in \<open>simp_all add: mark_def is_space_def\<close>)
  then obtain r' where "trim_space (mark @ hd (split_at newline (u @ r))) = mark @ (u @ r')"
    unfolding hd_split [OF assms(4)] by auto
  from result_line [OF assms(1) this, of post] show ?thesis unfolding mark_def by blast
qed

lemma read_failure:
  assumes "mute pre" and "step_report e \<or> probe_report e"
  shows "scenario_exit (ResultLine (printed (pre @ Line (''SFZ-RESULT: '' @ e) # post))) = 0"
proof -
  consider op r where "op \<in> set Ops" "e = (op @ '':'') @ r" | op r where "op \<in> set Ops" "e = (op @ '' (concurrent'') @ r"
    | r where "e = ''after_'' @ r"
    using assms(2) unfolding step_report_def probe_report_def by blast
  then show ?thesis
  proof cases
    case 1
    obtain r' where "ResultLine (printed (pre @ Line (''SFZ-RESULT: '' @ (op @ '':'') @ r) # post)) = (op @ '':'') @ r'"
      using read_report [OF assms(1), of "op @ '':''" r post] exit_step [OF 1(1)] by (auto simp: is_space_def)
    with 1 exit_step [OF 1(1), of r'] show ?thesis by (simp only: simp_thms)
  next
    case 2
    obtain r' where "ResultLine (printed (pre @ Line (''SFZ-RESULT: '' @ (op @ '' (concurrent'') @ r) # post))
        = (op @ '' (concurrent'') @ r'"
      using read_report [OF assms(1), of "op @ '' (concurrent''" r post] exit_step [OF 2(1)] by (auto simp: is_space_def)
    with 2 exit_step [OF 2(1), of r'] show ?thesis by (simp only: simp_thms)
  next
    case 3
    obtain r' where "ResultLine (printed (pre @ Line (''SFZ-RESULT: '' @ ''after_'' @ r) # post)) = ''after_'' @ r'"
      using read_report [OF assms(1), of "''after_''" r post] by (auto simp: is_space_def)
    moreover have "scenario_exit (''after_'' @ r') = 0" by (simp add: scenario_exit_def)
    ultimately show ?thesis using 3 by (simp only:)
  qed
qed

abbreviation first_said :: event where
  "first_said \<equiv> Line ''SFZ-PHASE: setup''"

lemma first_said_mute: "mute (first_said # x) = mute x"
  by (simp only: mute_line [of _ x] mute_one note_silent(4) simp_thms)

lemma failure_read:
  assumes "mute ev" and "step_report e \<or> probe_report e"
  shows "scenario_exit (ResultLine (printed (first_said # ev @ Line (''SFZ-RESULT: '' @ e) # rest))) = 0"
  using read_failure [of "first_said # ev" e rest] assms by (simp add: first_said_mute)

text \<open>What the driver prints: silent lines, then the result with the code it exits with.\<close>

lemma loaded_prints:
  assumes "run_loaded srv show_v fmt_num work db sc w = (w', evs, code)"
    and "\<forall>st \<in> set (Steps sc). newline \<notin> set (Op st) \<and> newline \<notin> set (on_table st)"
  obtains (built) e rest where "evs = [first_said] @ Line (''SFZ-RESULT: '' @ ''setup-failed:'' @ ('' '' @ pickError e)) # rest" "code = 3"
  | (failed) ev e rest where "evs = first_said # ev @ Line (''SFZ-RESULT: '' @ e) # rest" "mute ev" "step_report e \<or> probe_report e" "code = 1"
  | (clean) ev where "evs = first_said # ev @ [Line (mark @ ''clean'')]" "mute ev" "code = 0"
proof -
  let ?prog = "located work ''ts_b'' (located work ''ts_a'' (RenderSetup show_v sc))"
  obtain w1 out good where f: "sv_file srv db ?prog w = (w1, out, good)" by (cases "sv_file srv db ?prog w")
  obtain w2 expect where 2: "load_counts srv db (Tables sc) [] w1 = (w2, expect)"
    by (cases "load_counts srv db (Tables sc) [] w1")
  obtain w3 ev r where 3: "probe_all srv db sc expect (''after_'' @ ''load'') [] w2 = (w3, ev, r)"
    by (cases "probe_all srv db sc expect (''after_'' @ ''load'') [] w2")
  note m3 = probe_all_mute [OF 3]
  have p3: "probe_all srv db sc expect ''after_load'' [] w2 = (w3, ev, r)" using 3 by simp
  obtain w4 ev4 r4 where 4: "run_steps srv fmt_num db sc (Steps sc) expect w3 = (w4, ev4, r4)"
    by (cases "run_steps srv fmt_num db sc (Steps sc) expect w3")
  note m4 = run_steps_mute [OF assms(2) 4]
  show thesis
  proof (cases good)
    case False
    with assms(1) f show thesis by (intro built [of out "[Line ''SFZ-BEGIN-LOG'', Line (sv_tail srv 30 w1)]"]) (auto simp: run_loaded_def fail_with_def Let_def)
  next
    case good: True
    show thesis
    proof (cases "r = None \<and> r4 = None")
      case True
      with assms(1) f good 2 p3 4 m3 m4 show thesis
        by (intro clean [of "ev @ ev4"]) (auto simp: run_loaded_def Let_def mark_def)
    next
      case False
      with assms(1) f good 2 p3 4 m3 m4 show thesis
        by (intro failed [of "if r = None then ev @ ev4 else ev" "if r = None then the r4 else the r"
              "[Line ''SFZ-BEGIN-LOG'', Line (sv_tail srv 40 (if r = None then w4 else w3))]"])
          (auto simp: run_loaded_def fail_with_def Let_def split: option.splits)
    qed
  qed
qed

text \<open>
  C15: The host reads the outcome the driver reached. Whatever the server answers and whatever its log
  holds, the exit code of the scenario command is 1 exactly for a clean run, 0 for a failed probe or step,
  and 2 for a scenario that could not be built, so a setup that failed is never taken for a reproduction.
\<close>

theorem host_reads_outcome:
  assumes "run_loaded srv show_v fmt_num work db sc w = (w', evs, code)"
    and "\<forall>st \<in> set (Steps sc). newline \<notin> set (Op st) \<and> newline \<notin> set (on_table st)"
  shows "scenario_exit (ResultLine (printed evs)) = (if code = 0 then 1 else if code = 1 then 0 else 2)"
proof (rule loaded_prints [OF assms])
  fix e rest assume evs: "evs = [first_said] @ Line (''SFZ-RESULT: '' @ ''setup-failed:'' @ ('' '' @ pickError e)) # rest"
    and c: "code = 3"
  have "\<exists>r'. ResultLine (printed evs) = ''setup-failed:'' @ r'"
    unfolding evs by (rule read_report) (use first_said_mute [of "[]"] in \<open>simp_all add: is_space_def\<close>)
  then show ?thesis using c by (auto simp: scenario_exit_def)
next
  fix ev e rest assume "evs = first_said # ev @ Line (''SFZ-RESULT: '' @ e) # rest" "mute ev" "step_report e \<or> probe_report e" "code = 1"
  then show ?thesis using failure_read [of ev e rest] by simp
next
  fix ev assume evs: "evs = first_said # ev @ [Line (mark @ ''clean'')]" and m: "mute ev" and c: "code = 0"
  have "trim_space (mark @ hd (split_at newline ''clean'')) = mark @ ''clean''" by code_simp
  from result_line [of "first_said # ev", OF _ this, of "[]"] m show ?thesis
    unfolding evs c by (simp add: scenario_exit_def first_said_mute)
qed

definition refusing :: "int server" where
  "refusing = counting\<lparr>sv_file := (\<lambda>db f w. (w, ''psql: ERROR: no such tablespace'', False))\<rparr>"

theorem host_reads_outcome_witness:
  "scenario_exit (ResultLine (printed (fst (snd (run_loaded refusing (\<lambda>_. []) (\<lambda>_. []) ''/tmp/w'' ''dbfuzz'' undo_scen 500))))) = 2"
proof -
  let ?r = "run_loaded refusing (\<lambda>_. []) (\<lambda>_. []) ''/tmp/w'' ''dbfuzz'' undo_scen 500"
  have "snd (snd ?r) = 3" by (simp add: run_loaded_def refusing_def Let_def)
  then obtain w' evs where r: "?r = (w', evs, 3)" by (cases ?r) simp
  have "\<forall>st \<in> set (Steps undo_scen). newline \<notin> set (Op st) \<and> newline \<notin> set (on_table st)" by (simp add: undo_steps)
  from host_reads_outcome [OF r this] show ?thesis unfolding r by simp
qed

end
