(* ===== verification/Workspace.thy ===== *)
theory Workspace
  imports Go_Map
begin

text \<open>
  A workspace's configuration (\<open>internal/workspace/workspace.go\<close>): reading \<open>workspace.conf\<close>, writing one
  key of it, the build key, the base image; and the comparison of editions of one tree
  (\<open>internal/inventory/drift.go\<close>). A file is its text, or \<open>None\<close> when it cannot be opened; the rename
  that puts the new text in place is atomic, so a reader sees the old text or the new one.
\<close>

subsection \<open>reading and writing\<close>

record conf =
  cf_path :: string
  cf_name :: string
  Project :: string
  Ref :: string
  cf_sanitizer :: string
  Raw :: "string gomap"

definition Get :: "conf \<Rightarrow> string \<Rightarrow> string" where
  "Get c k = sub (Raw c) k"

definition conf_line :: "string \<Rightarrow> (string \<times> string) option" where
  "conf_line l =
     (let line = trim_space l
      in if line = [] \<or> has_prefix line ''#'' then None
         else map_option (\<lambda>(k, v). (trim_space k, trim_space v)) (cut_at CHR ''='' line))"

definition conf_raw :: "string \<Rightarrow> string gomap" where
  "conf_raw s = fold (\<lambda>l m. case conf_line l of None \<Rightarrow> m | Some (k, v) \<Rightarrow> AList.update k v m) (scan_lines s) []"

definition LoadConf :: "(string \<Rightarrow> string) \<Rightarrow> string \<Rightarrow> string option \<Rightarrow> string + conf" where
  "LoadConf base dir content =
     (case content of
        None \<Rightarrow> Inl (''no workspace at '' @ dir)
      | Some s \<Rightarrow>
          (let raw = conf_raw s; p = sub raw ''project''
           in Inr \<lparr>cf_path = dir, cf_name = base dir,
                   Project = (if p = [] then ''pgfuzz-'' @ base dir else p),
                   Ref = sub raw ''ref'', cf_sanitizer = sub raw ''sanitizer'', Raw = raw\<rparr>))"

definition holds_key :: "string \<Rightarrow> string \<Rightarrow> bool" where
  "holds_key key l = (case cut_at CHR ''='' l of Some (k, _) \<Rightarrow> trim_space k = key | None \<Rightarrow> False)"

definition drop_blank_end :: "string list \<Rightarrow> string list" where
  "drop_blank_end ls = rev (dropWhile (\<lambda>l. trim_space l = []) (rev ls))"

definition SetConf :: "string \<Rightarrow> string \<Rightarrow> string option \<Rightarrow> string" where
  "SetConf key v content =
     (let keep = (case content of None \<Rightarrow> []
                  | Some s \<Rightarrow> filter (\<lambda>l. \<not> holds_key key l) (split_at newline s))
      in join [newline] (drop_blank_end keep @ [key @ ''='' @ v]) @ [newline])"

definition Key :: "string \<Rightarrow> string \<Rightarrow> string \<Rightarrow> string" where
  "Key ref san engine = map (\<lambda>c. if c = CHR ''/'' then CHR ''-'' else c) ref @ ''__'' @ san @ ''__'' @ engine"

definition base_os :: "string \<Rightarrow> string option" where
  "base_os l =
     (let line = trim_space l
      in if has_prefix line ''base_os_version:''
         then (let v = trim_cutset (trim_space (drop 16 line)) [CHR 0x22, CHR 0x27]
               in if v \<noteq> [] \<and> v \<noteq> ''legacy'' then Some v else None)
         else None)"

definition BaseOSVersion :: "string option \<Rightarrow> string" where
  "BaseOSVersion content =
     (case content of None \<Rightarrow> ''ubuntu-24-04''
      | Some s \<Rightarrow> (case List.map_filter base_os (scan_lines s) of [] \<Rightarrow> ''ubuntu-24-04'' | v # _ \<Rightarrow> v))"

subsection \<open>what is written is read back\<close>

abbreviation entries :: "string list \<Rightarrow> (string \<times> string) list" where
  "entries ls \<equiv> List.map_filter conf_line ls"

lemma fold_conf: "fold (\<lambda>l m. case conf_line l of None \<Rightarrow> m | Some (k, v) \<Rightarrow> AList.update k v m) ls m
    = fold (\<lambda>(k, v). AList.update k v) (entries ls) m"
  by (induction ls arbitrary: m) (auto split: option.splits)

lemma map_of_fold_update: "map_of (fold (\<lambda>(k, v). AList.update k v) es m) = map_of m ++ map_of (rev es)"
  by (induction es arbitrary: m) (auto simp: map_add_def fun_eq_iff split: option.splits)

lemma trim_drop_cr: "trim_space (drop_cr l) = trim_space l"
proof (cases "l \<noteq> [] \<and> last l = CHR 0x0D")
  case True
  then obtain t where t: "l = t @ [CHR 0x0D]" by (metis append_butlast_last_id)
  have sp: "is_space CHR 0x0D" by (simp add: is_space_def)
  have "trim_space (t @ [CHR 0x0D]) = trim_space t"
  proof (cases "dropWhile is_space t")
    case Nil
    then have "\<forall>c \<in> set (t @ [CHR 0x0D]). is_space c" using sp by (simp add: dropWhile_eq_Nil_conv)
    then have "dropWhile is_space (t @ [CHR 0x0D]) = []" by (simp only: dropWhile_eq_Nil_conv)
    then show ?thesis using Nil by (simp only: trim_by_def)
  next
    case (Cons a r)
    then have "dropWhile is_space (t @ [CHR 0x0D]) = dropWhile is_space t @ [CHR 0x0D]"
      by (metis dropWhile_append1 dropWhile_eq_Nil_conv list.distinct(1))
    then show ?thesis using sp by (simp add: trim_by_def)
  qed
  then show ?thesis using True t by (simp add: drop_cr_def)
qed (auto simp: drop_cr_def)

lemma conf_line_cr: "conf_line (drop_cr l) = conf_line l"
  by (simp add: conf_line_def trim_drop_cr)

lemma entries_scan: "entries (scan_lines s) = entries (split_at newline s)"
proof -
  let ?ls = "split_at newline s"
  have cr: "entries (map drop_cr ls) = entries ls" for ls
    by (induction ls) (simp_all add: conf_line_cr split: option.splits)
  have blank: "conf_line [] = None" by (simp add: conf_line_def trim_by_def)
  have "?ls = butlast ?ls @ [last ?ls]" by simp
  then have "last ?ls = [] \<Longrightarrow> entries ?ls = entries (butlast ?ls)"
    using map_filter_append [of conf_line "butlast ?ls" "[last ?ls]"] blank by simp
  then show ?thesis unfolding scan_lines_def Let_def cr by simp
qed

text \<open>A line is cut at the same place before and after trimming.\<close>

lemma trim_cut:
  assumes "cut_at CHR ''='' l = Some (k, v)"
  shows "\<exists>k1 v1. cut_at CHR ''='' (trim_space l) = Some (k1, v1) \<and> trim_space k1 = trim_space k
    \<and> k1 = dropWhile is_space k"
proof -
  from assms have l: "l = k @ CHR ''='' # v" and k: "CHR ''='' \<notin> set k" by (simp_all add: cut_at_Some)
  have eq: "\<not> is_space CHR ''=''" by (simp add: is_space_def)
  let ?k = "dropWhile is_space k"
  have d: "dropWhile is_space l = ?k @ CHR ''='' # v"
  proof (cases "?k")
    case Nil
    then have "\<forall>c \<in> set k. is_space c" by (simp add: dropWhile_eq_Nil_conv)
    then show ?thesis using l eq Nil by (simp add: dropWhile_append2)
  next
    case (Cons a r)
    then show ?thesis using l by (metis dropWhile_append1 dropWhile_eq_Nil_conv list.distinct(1))
  qed
  have "trim_space l = ?k @ CHR ''='' # rev (dropWhile is_space (rev v))"
  proof (cases "dropWhile is_space (rev v)")
    case Nil
    then have "\<forall>c \<in> set (rev v). is_space c" by (simp add: dropWhile_eq_Nil_conv)
    then show ?thesis using eq Nil by (simp add: trim_by_def d dropWhile_append2 del: set_rev)
  next
    case (Cons a r)
    then obtain c where "c \<in> set (rev v)" "\<not> is_space c" by (metis dropWhile_eq_Nil_conv list.distinct(1))
    then have "dropWhile is_space (rev v @ rev (?k @ [CHR ''='']))
        = dropWhile is_space (rev v) @ rev (?k @ [CHR ''=''])" by (rule dropWhile_append1)
    then show ?thesis by (simp add: trim_by_def d)
  qed
  moreover have "CHR ''='' \<notin> set ?k" using k by (meson set_dropWhileD)
  ultimately have "cut_at CHR ''='' (trim_space l) = Some (?k, rev (dropWhile is_space (rev v)))"
    by (simp add: cut_at_Some)
  moreover have "trim_space ?k = trim_space k" by (simp add: trim_by_def dropWhile_idem)
  ultimately show ?thesis by blast
qed

lemma conf_line_of_cut:
  assumes "cut_at CHR ''='' l = Some (k, v)" and "trim_space k = key" and "key \<noteq> []" and "hd key \<noteq> CHR ''#''"
  shows "\<exists>w. conf_line l = Some (key, w)"
proof -
  obtain k1 v1 where c: "cut_at CHR ''='' (trim_space l) = Some (k1, v1)" "trim_space k1 = key" "k1 = dropWhile is_space k"
    using trim_cut [OF assms(1)] assms(2) by auto
  have l: "trim_space l = k1 @ CHR ''='' # v1" using c(1) by (simp add: cut_at_Some)
  have "k1 \<noteq> []" using c(2) assms(3) by (auto simp: trim_by_def)
  have t: "trim_space k1 = rev (dropWhile is_space (rev k1))" using c(3) by (simp add: trim_by_def dropWhile_idem)
  have "hd (trim_space k1) = hd k1"
    unfolding t by (rule dropWhile_rev_keeps_hd) (use t c(2) assms(3) in simp)
  then have "\<not> has_prefix (trim_space l) ''#''"
    using \<open>k1 \<noteq> []\<close> assms(4) c(2) by (cases k1) (auto simp: l)
  moreover have "trim_space l \<noteq> []" using l by simp
  ultimately show ?thesis using c(1,2) by (simp add: conf_line_def)
qed

lemma conf_line_cut: "conf_line l = Some (key, w) \<Longrightarrow> \<exists>k v. cut_at CHR ''='' l = Some (k, v) \<and> trim_space k = key"
proof -
  assume "conf_line l = Some (key, w)"
  then obtain k1 v1 where c: "cut_at CHR ''='' (trim_space l) = Some (k1, v1)" "trim_space k1 = key"
    by (auto simp: conf_line_def Let_def split: if_splits)
  then have "CHR ''='' \<in> set (trim_space l)" by (auto simp: cut_at_Some)
  then have "CHR ''='' \<in> set l" using set_trim_by by blast
  then obtain k v where k: "cut_at CHR ''='' l = Some (k, v)"
    using cut_at_None [of "CHR ''=''" l] by (cases "cut_at CHR ''='' l") auto
  with trim_cut [OF k] c show ?thesis by auto
qed

lemma entries_keep:
  assumes "key \<noteq> []" and "hd key \<noteq> CHR ''#''"
  shows "entries (filter (\<lambda>l. \<not> holds_key key l) ls) = filter (\<lambda>(k, v). k \<noteq> key) (entries ls)"
proof (induction ls)
  case (Cons l ls)
  show ?case
  proof (cases "holds_key key l")
    case True
    then obtain k v where "cut_at CHR ''='' l = Some (k, v)" "trim_space k = key"
      by (auto simp: holds_key_def split: option.splits)
    from conf_line_of_cut [OF this assms] Cons True show ?thesis by auto
  next
    case False
    then have "conf_line l = Some (k, v) \<Longrightarrow> k \<noteq> key" for k v
      using conf_line_cut [of l key v] by (auto simp: holds_key_def)
    with Cons False show ?thesis by (auto split: option.splits)
  qed
qed simp

lemma entries_blank_end: "entries (drop_blank_end ls) = entries ls"
proof -
  have none: "\<forall>l \<in> set ls. trim_space l = [] \<Longrightarrow> entries ls = []" for ls
    by (induction ls) (simp_all add: conf_line_def)
  have "ls = drop_blank_end ls @ rev (takeWhile (\<lambda>l. trim_space l = []) (rev ls))"
    unfolding drop_blank_end_def by (metis rev_append rev_rev_ident takeWhile_dropWhile_id)
  moreover have "entries (rev (takeWhile (\<lambda>l. trim_space l = []) (rev ls))) = []"
    by (rule none) (auto dest: set_takeWhileD)
  ultimately show ?thesis by (metis map_filter_append append_Nil2)
qed

lemma join_unlines: "ls \<noteq> [] \<Longrightarrow> join [newline] ls @ [newline] = unlines ls"
  by (induction "[newline]" ls rule: join.induct) (auto simp: unlines_def)

definition settable :: "string \<Rightarrow> string \<Rightarrow> bool" where
  "settable key v \<longleftrightarrow> key \<noteq> [] \<and> trim_space key = key \<and> hd key \<noteq> CHR ''#'' \<and> CHR ''='' \<notin> set key \<and> newline \<notin> set key
     \<and> trim_space v = v \<and> newline \<notin> set v"

text \<open>
  C24: Setting a key and reading the file again gives exactly that key the new value: every other key keeps
  the value it had, whatever the file held before, comments, repeated keys, values with \<open>=\<close> and lines
  without one included.
\<close>

theorem set_then_load:
  assumes "settable key v"
  shows "map_of (conf_raw (SetConf key v content))
    = (map_of (conf_raw (case content of None \<Rightarrow> [] | Some s \<Rightarrow> s)))(key \<mapsto> v)"
proof -
  let ?s = "case content of None \<Rightarrow> [] | Some s \<Rightarrow> s"
  let ?keep = "case content of None \<Rightarrow> [] | Some s \<Rightarrow> filter (\<lambda>l. \<not> holds_key key l) (split_at newline s)"
  let ?new = "key @ ''='' @ v"
  let ?ls = "drop_blank_end ?keep @ [?new]"
  have k: "key \<noteq> []" "hd key \<noteq> CHR ''#''" using assms by (simp_all add: settable_def)
  have keep: "entries ?keep = filter (\<lambda>(k, v). k \<noteq> key) (entries (split_at newline ?s))"
    by (cases content) (simp_all add: entries_keep [OF k] conf_line_def trim_by_def)
  have free: "\<forall>l \<in> set ?ls. newline \<notin> set l"
  proof -
    have "\<forall>l \<in> set ?keep. newline \<notin> set l" using split_at_no_sep by (auto split: option.splits)
    moreover have "set (drop_blank_end ?keep) \<subseteq> set ?keep"
      unfolding drop_blank_end_def by (metis set_dropWhileD set_rev subsetI)
    ultimately show ?thesis using assms by (auto simp: settable_def)
  qed
  have c: "cut_at CHR ''='' ?new = Some (key, v)" using assms by (simp add: cut_at_Some settable_def)
  have new: "conf_line ?new = Some (key, v)"
  proof -
    have t: "trim_space key = key" "trim_space v = v" using assms by (simp_all add: settable_def)
    have "\<not> is_space (hd key)" using trim_by_trimmed [of is_space key] t(1) k(1) by simp
    moreover have "\<not> is_space (last ?new)"
      using trim_by_trimmed [of is_space v] t(2) by (cases "v = []") (auto simp: is_space_def)
    ultimately have "trim_space ?new = ?new" using k(1) by (intro trim_by_id) simp
    moreover have "\<not> has_prefix ?new ''#''" using k by (cases key) auto
    ultimately show ?thesis using c assms k(1) by (simp add: conf_line_def settable_def)
  qed
  have "conf_raw (SetConf key v content) = fold (\<lambda>(k, v). AList.update k v) (entries (scan_lines (unlines ?ls))) []"
    unfolding conf_raw_def fold_conf SetConf_def Let_def by (subst join_unlines) simp_all
  also have "entries (scan_lines (unlines ?ls)) = entries (split_at newline (unlines ?ls))" by (rule entries_scan)
  also have "\<dots> = entries ?keep @ [(key, v)]"
    unfolding split_at_unlines [OF free] map_filter_append entries_blank_end
    using new by (simp add: conf_line_def trim_by_def)
  finally have set: "map_of (conf_raw (SetConf key v content)) = map_of (rev (entries ?keep @ [(key, v)]))"
    by (simp only: map_of_fold_update) simp
  have "map_of (conf_raw ?s) = map_of (rev (entries (split_at newline ?s)))"
    unfolding conf_raw_def fold_conf map_of_fold_update entries_scan by simp
  moreover have "map_of (rev (entries ?keep)) k' = (if k' = key then None else map_of (rev (entries (split_at newline ?s))) k')" for k'
    unfolding keep rev_filter map_of_filter_key by simp
  ultimately show ?thesis unfolding set by (auto simp: fun_eq_iff)
qed

definition old_conf :: string where
  "old_conf = unlines [''# the tree'', ''ref = origin/master'', ''sanitizer=address'', ''gucs=a=b'', []]"

theorem set_then_load_witness:
  "Get (case LoadConf (\<lambda>d. d) ''w'' (Some (SetConf ''ref'' ''REL_17'' (Some old_conf))) of Inr c \<Rightarrow> c) ''gucs'' = ''a=b''
   \<and> map_of (conf_raw (SetConf ''ref'' ''REL_17'' (Some old_conf))) ''ref'' = Some ''REL_17''"
proof -
  have "settable ''ref'' ''REL_17''" by code_simp
  note t = set_then_load [OF this, of "Some old_conf"]
  have "map_of (conf_raw old_conf) ''gucs'' = Some ''a=b''" by code_simp
  then have "map_of (conf_raw (SetConf ''ref'' ''REL_17'' (Some old_conf))) ''gucs'' = Some ''a=b''"
    unfolding t by simp
  then show ?thesis using t by (simp add: Get_def LoadConf_def Let_def sub_def)
qed

subsection \<open>drift between editions of one tree\<close>

record edition =
  ed_workspace :: string
  PGSHA :: string
  ed_patches :: string
  Plugins :: "string gomap"

record drift =
  What :: string
  Values :: "string gomap"

definition built :: "(edition \<Rightarrow> string) \<Rightarrow> edition list \<Rightarrow> string gomap" where
  "built f eds = fold (\<lambda>e m. if PGSHA e \<noteq> [] then AList.update (ed_workspace e) (f e) m else m) eds []"

definition put_plugins :: "edition \<Rightarrow> (string \<times> string gomap) list \<Rightarrow> (string \<times> string gomap) list" where
  "put_plugins e pm =
     fold (\<lambda>(n, sha) m. AList.update n (AList.update (ed_workspace e) sha (sub m n)) m) (Plugins e) pm"

definition plugin_map :: "edition list \<Rightarrow> (string \<times> string gomap) list" where
  "plugin_map eds = fold put_plugins eds []"

definition distinct_values :: "string gomap \<Rightarrow> string list" where
  "distinct_values m = remdups (map snd m)"

definition DriftIn :: "edition list \<Rightarrow> drift list" where
  "DriftIn eds =
     (let pg = built PGSHA eds; pat = built ed_patches eds; pm = plugin_map eds
      in (if length (distinct_values pg) > 1 then [\<lparr>What = ''pg_ref_sha'', Values = pg\<rparr>] else [])
         @ (if length (distinct_values pat) > 1 then [\<lparr>What = ''patches'', Values = pat\<rparr>] else [])
         @ concat (map (\<lambda>n.
             if length (sub pm n) < 2 then []
             else if length (distinct_values (sub pm n)) > 1 then [\<lparr>What = ''plugin:'' @ n, Values = sub pm n\<rparr>] else [])
             (sorted_keys pm)))"

definition pad28 :: "string \<Rightarrow> string" where
  "pad28 w = w @ replicate (28 - length w) CHR '' ''"

definition drift_string :: "drift \<Rightarrow> string" where
  "drift_string d =
     What d @ '' differs across editions:''
     @ concat (map (\<lambda>w. let v = sub (Values d) w
         in [newline] @ ''  '' @ pad28 w @ '' '' @ (if v = [] then ''(none)'' else v)) (sorted_keys (Values d)))"

lemma if_nil:
  fixes m :: "'a list" and d :: "'b list"
  assumes "length d \<le> length m"
  shows "((if length d > 1 then [x] else []) = []) = (length d \<le> 1)"
    and "((if length m < 2 then [] else if length d > 1 then [x] else []) = []) = (length d \<le> 1)"
  using assms by auto

lemma one_value: "length (remdups xs) \<le> 1 \<longleftrightarrow> (\<forall>x \<in> set xs. \<forall>y \<in> set xs. x = y)"
proof -
  have "length (remdups xs) = card (set xs)" by (simp add: length_remdups_card_conv)
  then show ?thesis using card_le_Suc0_iff_eq [of "set xs"] by simp
qed

lemma agree_iff: "wf_map m \<Longrightarrow> length (distinct_values m) \<le> 1 \<longleftrightarrow>
    (\<forall>a b x y. map_of m a = Some x \<longrightarrow> map_of m b = Some y \<longrightarrow> x = y)"
  unfolding distinct_values_def one_value by (auto simp: map_of_in_set)

lemma built_spec:
  "distinct (map ed_workspace eds) \<Longrightarrow> wf_map (built f eds) \<and>
     (map_of (built f eds) w = Some s \<longleftrightarrow> (\<exists>e \<in> set eds. ed_workspace e = w \<and> PGSHA e \<noteq> [] \<and> f e = s))"
proof (induction eds arbitrary: s rule: rev_induct)
  case (snoc e eds)
  then have ih: "wf_map (built f eds)" "map_of (built f eds) w = Some s \<longleftrightarrow>
      (\<exists>e \<in> set eds. ed_workspace e = w \<and> PGSHA e \<noteq> [] \<and> f e = s)" for s by simp_all
  show ?case
  proof (cases "PGSHA e = []")
    case True
    then show ?thesis using ih by (auto simp: built_def)
  next
    case False
    then have "built f (eds @ [e]) = AList.update (ed_workspace e) (f e) (built f eds)" by (simp add: built_def)
    then show ?thesis using ih False snoc.prems by (auto simp: image_iff)
  qed
qed (simp add: built_def)

lemma put_list:
  "wf_map ps \<Longrightarrow> sub (fold (\<lambda>(n, sha) m. AList.update n (AList.update w sha (sub m n)) m) ps pm) n =
     (case map_of ps n of None \<Rightarrow> sub pm n | Some s \<Rightarrow> AList.update w s (sub pm n))"
proof (induction ps arbitrary: pm)
  case (Cons a ps)
  obtain k sha where a: "a = (k, sha)" by (cases a)
  have ps: "wf_map ps" "map_of ps k = None" using Cons.prems a by (simp_all add: map_of_eq_None_iff)
  show ?case using Cons.IH [OF ps(1)] ps(2) by (cases "k = n") (simp_all add: a split: option.splits)
qed simp

lemma put_plugins_look:
  assumes "wf_map (Plugins e)"
  shows "map_of (sub (put_plugins e pm) n) w =
     (if w = ed_workspace e \<and> map_of (Plugins e) n \<noteq> None then map_of (Plugins e) n else map_of (sub pm n) w)"
  unfolding put_plugins_def put_list [OF assms] by (cases "map_of (Plugins e) n") auto

lemma plugin_spec_wf:
  "\<forall>e \<in> set eds. wf_map (Plugins e) \<Longrightarrow> wf_map (sub (plugin_map eds) n)"
proof (induction eds rule: rev_induct)
  case (snoc e eds)
  then have "wf_map (sub (plugin_map eds) n)" "wf_map (Plugins e)" by simp_all
  then show ?case unfolding plugin_map_def fold_append fold_simps o_def id_def put_plugins_def
    by (simp only: put_list) (simp add: wf_update split: option.splits)
qed (simp add: plugin_map_def)

lemma plugin_spec:
  "distinct (map ed_workspace eds) \<Longrightarrow> \<forall>e \<in> set eds. wf_map (Plugins e) \<Longrightarrow>
     (map_of (sub (plugin_map eds) n) w = Some s \<longleftrightarrow> (\<exists>e \<in> set eds. ed_workspace e = w \<and> map_of (Plugins e) n = Some s))"
proof (induction eds rule: rev_induct)
  case (snoc e eds)
  have d: "\<forall>x \<in> set eds. ed_workspace x \<noteq> ed_workspace e" using snoc.prems(1) by (auto simp: image_iff)
  have w: "wf_map (Plugins e)" using snoc.prems by simp
  have ih: "map_of (sub (plugin_map eds) n) w = Some s \<longleftrightarrow> (\<exists>e \<in> set eds. ed_workspace e = w \<and> map_of (Plugins e) n = Some s)"
    by (rule snoc.IH) (use snoc.prems in auto)
  have "plugin_map (eds @ [e]) = put_plugins e (plugin_map eds)" by (simp add: plugin_map_def)
  then have "map_of (sub (plugin_map (eds @ [e])) n) w =
     (if w = ed_workspace e \<and> map_of (Plugins e) n \<noteq> None then map_of (Plugins e) n else map_of (sub (plugin_map eds) n) w)"
    by (simp only: put_plugins_look [OF w])
  then show ?case unfolding set_append list.set using ih d by (cases "map_of (Plugins e) n") (auto simp del: map_of_eq_Some_iff)
qed (simp add: plugin_map_def)

text \<open>
  Nothing drifts exactly when the editions agree: every two that were built have one commit and one set
  of patches, and every two that have a plugin have it at one commit. An edition not built yet, and a
  plugin only one of them has, are no drift.
\<close>

theorem drift_iff_disagreement:
  assumes "distinct (map ed_workspace eds)" and "\<forall>e \<in> set eds. wf_map (Plugins e)"
  shows "DriftIn eds = [] \<longleftrightarrow>
    (\<forall>a \<in> set eds. \<forall>b \<in> set eds.
       (PGSHA a \<noteq> [] \<and> PGSHA b \<noteq> [] \<longrightarrow> PGSHA a = PGSHA b \<and> ed_patches a = ed_patches b)
       \<and> (\<forall>n x y. map_of (Plugins a) n = Some x \<and> map_of (Plugins b) n = Some y \<longrightarrow> x = y))"
proof -
  have b: "length (distinct_values (built f eds)) \<le> 1 \<longleftrightarrow>
      (\<forall>a \<in> set eds. \<forall>b \<in> set eds. PGSHA a \<noteq> [] \<and> PGSHA b \<noteq> [] \<longrightarrow> f a = f b)" for f
    unfolding agree_iff [OF built_spec [OF assms(1), THEN conjunct1]] built_spec [OF assms(1), THEN conjunct2] by blast
  have p: "length (distinct_values (sub (plugin_map eds) n)) \<le> 1 \<longleftrightarrow>
      (\<forall>a \<in> set eds. \<forall>b \<in> set eds. \<forall>x y. map_of (Plugins a) n = Some x \<and> map_of (Plugins b) n = Some y \<longrightarrow> x = y)" for n
    unfolding agree_iff [OF plugin_spec_wf [OF assms(2)]] plugin_spec [OF assms] by blast
  have none: "n \<notin> dom (map_of (plugin_map eds)) \<Longrightarrow> length (distinct_values (sub (plugin_map eds) n)) \<le> 1" for n
    by (auto simp: sub_def distinct_values_def split: option.splits)
  have few: "length (distinct_values m) \<le> length m" for m :: "string gomap"
    unfolding distinct_values_def by (metis length_map length_remdups_leq)
  have "DriftIn eds = [] \<longleftrightarrow> length (distinct_values (built PGSHA eds)) \<le> 1
      \<and> length (distinct_values (built ed_patches eds)) \<le> 1
      \<and> (\<forall>n \<in> dom (map_of (plugin_map eds)). length (distinct_values (sub (plugin_map eds) n)) \<le> 1)"
    unfolding DriftIn_def Let_def append_is_Nil_conv concat_eq_Nil_conv set_map ball_simps
    by (simp only: if_nil [OF few] set_sorted_keys)
  also have "\<dots> \<longleftrightarrow> length (distinct_values (built PGSHA eds)) \<le> 1
      \<and> length (distinct_values (built ed_patches eds)) \<le> 1
      \<and> (\<forall>n. length (distinct_values (sub (plugin_map eds) n)) \<le> 1)"
    using none by blast
  finally show ?thesis unfolding b p by blast
qed

definition two_editions :: "edition list" where
  "two_editions = [\<lparr>ed_workspace = ''pg17-add'', PGSHA = ''abc'', ed_patches = ''p1'', Plugins = [(''orafce'', ''1'')]\<rparr>,
     \<lparr>ed_workspace = ''pg17-cov'', PGSHA = ''abc'', ed_patches = ''p1'', Plugins = [(''orafce'', ''2'')]\<rparr>]"

theorem drift_iff_disagreement_witness: "DriftIn two_editions \<noteq> []"
proof -
  have "distinct (map ed_workspace two_editions)" "\<forall>e \<in> set two_editions. wf_map (Plugins e)" by code_simp+
  note t = drift_iff_disagreement [OF this]
  let ?a = "two_editions ! 0" and ?b = "two_editions ! 1"
  have ab: "?a \<in> set two_editions" "?b \<in> set two_editions" by (simp_all add: two_editions_def)
  have p: "map_of (Plugins ?a) ''orafce'' = Some ''1''" "map_of (Plugins ?b) ''orafce'' = Some ''2''"
    by (simp_all add: two_editions_def)
  show ?thesis
  proof
    assume "DriftIn two_editions = []"
    then have "\<forall>n x y. map_of (Plugins ?a) n = Some x \<and> map_of (Plugins ?b) n = Some y \<longrightarrow> x = y"
      using t ab by blast
    with p have "''1'' = ''2''" by blast
    then show False by simp
  qed
qed

end
