(* ===== verification/Wslock.thy ===== *)
theory Wslock
  imports Go_Float
begin

text \<open>
  The workspace lock (\<open>internal/wslock/wslock.go\<close>), its one child that runs under a parent's lock
  (\<open>buildIntoCampaign\<close> in \<open>cmd/pgfuzz/main.go\<close>), and the disk preflight (\<open>disk.go\<close>).

  The kernel's part is what \<open>flock\<close> documents: a lock belongs to an open file description; every
  descriptor of that description, in whatever process, keeps it; it goes when it is unlocked or when the
  last of them is closed, and a process that dies closes its own. The file is opened with
  \<open>syscall.Open\<close>, so without close-on-exec, and the children of a holder inherit the descriptor.
  A workspace is the absolute path of its directory.
\<close>

subsection \<open>the state and the operations\<close>

record holder =
  PID :: nat
  What :: string

record lstate =
  alive :: "nat \<Rightarrow> bool"
  env_held :: "nat \<Rightarrow> string option"
  fds :: "nat \<Rightarrow> nat set"
  owner :: "string \<Rightarrow> nat option"
  noted :: "string \<Rightarrow> holder option"
  locks :: "nat \<Rightarrow> string \<Rightarrow> nat option"
  at_work :: "(nat \<times> string) set"
  next_desc :: nat

datatype acquired = Locked nat | AlreadyHeld | Busy holder | NoOpen

definition no_holder :: holder where "no_holder = \<lparr>PID = 0, What = []\<rparr>"

text \<open>\<open>read\<close>: the record, or the zero one when there is none.\<close>

definition read_holder :: "string \<Rightarrow> lstate \<Rightarrow> holder" where
  "read_holder ws s = (case noted s ws of None \<Rightarrow> no_holder | Some h \<Rightarrow> h)"

definition busy_holder :: "string \<Rightarrow> lstate \<Rightarrow> holder" where
  "busy_holder ws s =
     (let h = read_holder ws s
      in if \<not> alive s (PID h) \<and> PID h \<noteq> 0
         then h\<lparr>What := What h @ '' (recorded holder is gone; the lock is still held)''\<rparr> else h)"

definition Acquire :: "bool \<Rightarrow> nat \<Rightarrow> string \<Rightarrow> string \<Rightarrow> lstate \<Rightarrow> lstate \<times> acquired" where
  "Acquire can_open p ws what s =
     (if env_held s p = Some ws then (s, AlreadyHeld)
      else if \<not> can_open then (s, NoOpen)
      else if owner s ws \<noteq> None then (s, Busy (busy_holder ws s))
      else let d = next_desc s
           in (s\<lparr>owner := (owner s)(ws := Some d), noted := (noted s)(ws := Some \<lparr>PID = p, What = what\<rparr>),
                fds := (fds s)(p := insert d (fds s p)), next_desc := Suc d\<rparr>, Locked d))"

definition Release :: "nat \<Rightarrow> string \<Rightarrow> nat option \<Rightarrow> lstate \<Rightarrow> lstate" where
  "Release p ws lk s =
     (case lk of None \<Rightarrow> s
      | Some d \<Rightarrow> s\<lparr>owner := (if owner s ws = Some d then (owner s)(ws := None) else owner s),
                   fds := (fds s)(p := fds s p - {d})\<rparr>)"

text \<open>A process takes up work on a workspace if it may, and leaves it.\<close>

definition take_up :: "bool \<Rightarrow> nat \<Rightarrow> string \<Rightarrow> string \<Rightarrow> lstate \<Rightarrow> lstate" where
  "take_up can_open p ws what s =
     (case Acquire can_open p ws what s of
        (s', Locked d) \<Rightarrow> s'\<lparr>locks := (locks s')(p := (locks s' p)(ws := Some d)), at_work := insert (p, ws) (at_work s')\<rparr>
      | (s', AlreadyHeld) \<Rightarrow> s'\<lparr>at_work := insert (p, ws) (at_work s')\<rparr>
      | (s', _) \<Rightarrow> s')"

definition leave :: "nat \<Rightarrow> string \<Rightarrow> lstate \<Rightarrow> lstate" where
  "leave p ws s =
     (let s' = Release p ws (locks s p ws) s
      in s'\<lparr>locks := (locks s')(p := (locks s' p)(ws := None)), at_work := at_work s' - {(p, ws)}\<rparr>)"

text \<open>\<open>buildIntoCampaign\<close> starts a build under the lock it holds; any other program is started as a foreign
  process, which keeps the descriptors and never asks for a lock.\<close>

definition spawn :: "nat \<Rightarrow> nat \<Rightarrow> string option \<Rightarrow> lstate \<Rightarrow> lstate" where
  "spawn p c held s =
     s\<lparr>alive := (alive s)(c := True), env_held := (env_held s)(c := held), fds := (fds s)(c := fds s p),
       locks := (locks s)(c := \<lambda>_. None)\<rparr>"

text \<open>Death closes every descriptor, and a lock nobody holds open any more is gone.\<close>

definition die :: "nat \<Rightarrow> lstate \<Rightarrow> lstate" where
  "die p s =
     (let f = (fds s)(p := {})
      in s\<lparr>alive := (alive s)(p := False), fds := f, env_held := (env_held s)(p := None), locks := (locks s)(p := \<lambda>_. None),
           owner := (\<lambda>ws. case owner s ws of None \<Rightarrow> None
                     | Some d \<Rightarrow> if \<exists>q. q \<noteq> p \<and> alive s q \<and> d \<in> f q then Some d else None),
           at_work := {(q, ws) \<in> at_work s. q \<noteq> p}\<rparr>)"

text \<open>
  The steps of a system of processes. A process leaves a workspace it holds the lock of only when its
  build has ended (\<open>cmd.Run\<close> waits), and a build is only started for a workspace whose lock the parent
  itself holds.
\<close>

inductive lock_step :: "lstate \<Rightarrow> lstate \<Rightarrow> bool" where
  start: "alive s p \<Longrightarrow> lock_step s (take_up can_open p ws what s)"
| finish: "alive s p \<Longrightarrow> (p, ws) \<in> at_work s \<Longrightarrow>
    (locks s p ws \<noteq> None \<Longrightarrow> \<forall>c. alive s c \<longrightarrow> env_held s c \<noteq> Some ws) \<Longrightarrow> lock_step s (leave p ws s)"
| build: "alive s p \<Longrightarrow> locks s p ws \<noteq> None \<Longrightarrow> \<not> alive s c \<Longrightarrow> lock_step s (spawn p c (Some ws) s)"
| foreign: "alive s p \<Longrightarrow> \<not> alive s c \<Longrightarrow> lock_step s (spawn p c None s)"
| killed: "alive s p \<Longrightarrow> lock_step s (die p s)"

definition lock_start :: "nat set \<Rightarrow> lstate \<Rightarrow> bool" where
  "lock_start P s \<longleftrightarrow> (\<forall>p. alive s p = (p \<in> P)) \<and> (\<forall>p. env_held s p = None \<and> fds s p = {} \<and> locks s p = (\<lambda>_. None))
     \<and> (\<forall>ws. owner s ws = None) \<and> at_work s = {}"

inductive lock_reachable :: "nat set \<Rightarrow> lstate \<Rightarrow> bool" for P where
  init: "lock_start P s \<Longrightarrow> lock_reachable P s"
| step: "lock_reachable P s \<Longrightarrow> lock_step s s' \<Longrightarrow> lock_reachable P s'"

subsection \<open>the disk preflight\<close>

datatype disk_error = Unreadable | TooLittle f64

definition FreeGB :: "(nat \<times> nat) option \<Rightarrow> f64 option" where
  "FreeGB st = map_option (\<lambda>(avail, bsize).
     f64_div (f64_mul (f64_of_int (int avail)) (f64_of_int (int bsize))) (f64_of_int (2 ^ 30))) st"

definition NeedDisk :: "(nat \<times> nat) option \<Rightarrow> f64 \<Rightarrow> disk_error option" where
  "NeedDisk st wantGB =
     (case FreeGB st of
        None \<Rightarrow> Some Unreadable
      | Some free \<Rightarrow> if free < wantGB then Some (TooLittle free) else None)"

lemma need_disk_fails_closed: "NeedDisk st w = None \<longleftrightarrow> (\<exists>free. FreeGB st = Some free \<and> w \<le> free)"
  by (auto simp: NeedDisk_def split: option.splits)

subsection \<open>one family at a time\<close>

text \<open>
  The invariant: a lock is held by a description some live process has open; descriptions are used once;
  whoever holds a lock, works under a parent's, or is at work has the locking description open; and the
  record names a process that took the lock.
\<close>

definition lock_inv :: "lstate \<Rightarrow> bool" where
  "lock_inv s \<longleftrightarrow>
     (\<forall>p d. d \<in> fds s p \<longrightarrow> d < next_desc s)
     \<and> (\<forall>ws d. owner s ws = Some d \<longrightarrow> d < next_desc s)
     \<and> (\<forall>ws ws' d. owner s ws = Some d \<and> owner s ws' = Some d \<longrightarrow> ws = ws')
     \<and> (\<forall>p ws d. locks s p ws = Some d \<longrightarrow> alive s p \<and> owner s ws = Some d \<and> d \<in> fds s p)
     \<and> (\<forall>p ws. env_held s p = Some ws \<longrightarrow> alive s p \<and> (\<exists>d. owner s ws = Some d \<and> d \<in> fds s p))
     \<and> (\<forall>p ws. (p, ws) \<in> at_work s \<longrightarrow> alive s p \<and> (locks s p ws \<noteq> None \<or> env_held s p = Some ws))
     \<and> (\<forall>p q ws. locks s p ws \<noteq> None \<and> locks s q ws \<noteq> None \<longrightarrow> p = q)"

lemma lock_invI:
  assumes "\<And>p d. d \<in> fds s p \<Longrightarrow> d < next_desc s" "\<And>ws d. owner s ws = Some d \<Longrightarrow> d < next_desc s"
    "\<And>ws ws' d. owner s ws = Some d \<Longrightarrow> owner s ws' = Some d \<Longrightarrow> ws = ws'"
    "\<And>p ws d. locks s p ws = Some d \<Longrightarrow> alive s p \<and> owner s ws = Some d \<and> d \<in> fds s p"
    "\<And>p ws. env_held s p = Some ws \<Longrightarrow> alive s p \<and> (\<exists>d. owner s ws = Some d \<and> d \<in> fds s p)"
    "\<And>p ws. (p, ws) \<in> at_work s \<Longrightarrow> alive s p \<and> (locks s p ws \<noteq> None \<or> env_held s p = Some ws)"
    "\<And>p q ws. locks s p ws \<noteq> None \<Longrightarrow> locks s q ws \<noteq> None \<Longrightarrow> p = q"
  shows "lock_inv s"
  unfolding lock_inv_def using assms by blast

lemma lock_invD:
  assumes "lock_inv s"
  shows "d \<in> fds s p \<Longrightarrow> d < next_desc s" "owner s ws = Some d \<Longrightarrow> d < next_desc s"
    "owner s ws = Some d \<Longrightarrow> owner s ws' = Some d \<Longrightarrow> ws = ws'"
    "locks s p ws = Some d \<Longrightarrow> alive s p \<and> owner s ws = Some d \<and> d \<in> fds s p"
    "env_held s p = Some ws \<Longrightarrow> alive s p \<and> (\<exists>d. owner s ws = Some d \<and> d \<in> fds s p)"
    "(p, ws) \<in> at_work s \<Longrightarrow> alive s p \<and> (locks s p ws \<noteq> None \<or> env_held s p = Some ws)"
    "locks s p ws \<noteq> None \<Longrightarrow> locks s q ws \<noteq> None \<Longrightarrow> p = q"
  using assms unfolding lock_inv_def by blast+

lemma inv_at_work:
  assumes "lock_inv s" and "\<And>p ws. (p, ws) \<in> W \<Longrightarrow> alive s p \<and> (locks s p ws \<noteq> None \<or> env_held s p = Some ws)"
  shows "lock_inv (s\<lparr>at_work := W\<rparr>)"
proof (rule lock_invI)
  let ?t = "s\<lparr>at_work := W\<rparr>"
  show "d \<in> fds ?t q \<Longrightarrow> d < next_desc ?t" for d q using lock_invD(1) [OF assms(1)] by simp
  show "owner ?t w = Some d \<Longrightarrow> d < next_desc ?t" for d w using lock_invD(2) [OF assms(1)] by simp
  show "owner ?t w = Some d \<Longrightarrow> owner ?t w' = Some d \<Longrightarrow> w = w'" for d w w' using lock_invD(3) [OF assms(1)] by simp
  show "locks ?t q w = Some d \<Longrightarrow> alive ?t q \<and> owner ?t w = Some d \<and> d \<in> fds ?t q" for q w d
    using lock_invD(4) [OF assms(1)] by simp
  show "env_held ?t q = Some w \<Longrightarrow> alive ?t q \<and> (\<exists>d. owner ?t w = Some d \<and> d \<in> fds ?t q)" for q w
    using lock_invD(5) [OF assms(1)] by simp
  show "(q, w) \<in> at_work ?t \<Longrightarrow> alive ?t q \<and> (locks ?t q w \<noteq> None \<or> env_held ?t q = Some w)" for q w
    using assms(2) [of q w] by simp
  show "locks ?t q w \<noteq> None \<Longrightarrow> locks ?t q' w \<noteq> None \<Longrightarrow> q = q'" for q q' w
    using lock_invD(7) [OF assms(1), of q w q'] by simp
qed

lemma inv_take_up:
  assumes i: "lock_inv s" and p: "alive s p"
  shows "lock_inv (take_up c p ws what s)"
proof -
  consider "env_held s p = Some ws" | "env_held s p \<noteq> Some ws" "c \<and> owner s ws = None"
    | "env_held s p \<noteq> Some ws" "\<not> (c \<and> owner s ws = None)" by blast
  then show ?thesis
  proof cases
    case 1
    then have "take_up c p ws what s = s\<lparr>at_work := insert (p, ws) (at_work s)\<rparr>"
      by (simp add: take_up_def Acquire_def)
    then show ?thesis using inv_at_work [OF i, of "insert (p, ws) (at_work s)"] lock_invD(6) [OF i] 1 p by auto
  next
    case 2
    let ?d = "next_desc s"
    let ?t = "s\<lparr>owner := (owner s)(ws := Some ?d), noted := (noted s)(ws := Some \<lparr>PID = p, What = what\<rparr>),
        fds := (fds s)(p := insert ?d (fds s p)), next_desc := Suc ?d,
        locks := (locks s)(p := (locks s p)(ws := Some ?d)), at_work := insert (p, ws) (at_work s)\<rparr>"
    have t: "take_up c p ws what s = ?t" using 2 by (simp add: take_up_def Acquire_def Let_def)
    have o: "owner s w = Some d \<Longrightarrow> w \<noteq> ws" for w d using 2 by auto
    have lk: "locks s q ws = None" for q using lock_invD(4) [OF i, of q ws] 2 by (cases "locks s q ws") auto
    have lt: "d \<in> fds s q \<Longrightarrow> d < Suc ?d" "owner s w = Some d \<Longrightarrow> d < Suc ?d" "owner s w \<noteq> Some ?d" for q d w
      using lock_invD(1) [OF i, of d q] lock_invD(2) [OF i, of w] by fastforce+
    show ?thesis unfolding t
    proof (rule lock_invI)
      show "d \<in> fds ?t q \<Longrightarrow> d < next_desc ?t" for d q using lt(1) by (auto split: if_splits)
      show "owner ?t w = Some d \<Longrightarrow> d < next_desc ?t" for d w using lt(2) by (auto split: if_splits)
      show "owner ?t w = Some d \<Longrightarrow> owner ?t w' = Some d \<Longrightarrow> w = w'" for d w w'
        using lt(3) lock_invD(3) [OF i] by (auto split: if_splits)
      show "locks ?t q w = Some d \<Longrightarrow> alive ?t q \<and> owner ?t w = Some d \<and> d \<in> fds ?t q" for q w d
        using lock_invD(4) [OF i, of q w d] lk p by (auto split: if_splits)
      show "env_held ?t q = Some w \<Longrightarrow> alive ?t q \<and> (\<exists>d. owner ?t w = Some d \<and> d \<in> fds ?t q)" for q w
        using lock_invD(5) [OF i, of q w] o by (auto split: if_splits)
      show "(q, w) \<in> at_work ?t \<Longrightarrow> alive ?t q \<and> (locks ?t q w \<noteq> None \<or> env_held ?t q = Some w)" for q w
        using lock_invD(6) [OF i, of q w] p by (auto split: if_splits)
      show "locks ?t q w \<noteq> None \<Longrightarrow> locks ?t q' w \<noteq> None \<Longrightarrow> q = q'" for q q' w
        using lock_invD(7) [OF i, of q w q'] lk by (auto split: if_splits)
    qed
  next
    case 3
    then have "take_up c p ws what s = s"
      by (cases c) (auto simp: take_up_def Acquire_def)
    then show ?thesis using i by simp
  qed
qed

lemma inv_leave:
  assumes i: "lock_inv s" and g: "locks s p ws \<noteq> None \<Longrightarrow> \<forall>c. alive s c \<longrightarrow> env_held s c \<noteq> Some ws"
    and w: "(p, ws) \<in> at_work s"
  shows "lock_inv (leave p ws s)"
proof (cases "locks s p ws")
  case None
  then have "leave p ws s = s\<lparr>locks := (locks s)(p := (locks s p)(ws := None)), at_work := at_work s - {(p, ws)}\<rparr>"
    by (simp add: leave_def Release_def)
  moreover have "(locks s)(p := (locks s p)(ws := None)) = locks s" using None by (metis fun_upd_triv)
  ultimately have "leave p ws s = s\<lparr>at_work := at_work s - {(p, ws)}\<rparr>" by simp
  then show ?thesis using inv_at_work [OF i, of "at_work s - {(p, ws)}"] lock_invD(6) [OF i] by auto
next
  case (Some d)
  then have o: "owner s ws = Some d" using lock_invD(4) [OF i] by blast
  let ?t = "s\<lparr>owner := (owner s)(ws := None), fds := (fds s)(p := fds s p - {d}),
     locks := (locks s)(p := (locks s p)(ws := None)), at_work := at_work s - {(p, ws)}\<rparr>"
  have t: "leave p ws s = ?t" using Some o by (simp add: leave_def Release_def Let_def)
  have ne: "owner s w = Some e \<Longrightarrow> w \<noteq> ws \<Longrightarrow> e \<noteq> d" for w e using lock_invD(3) [OF i o] by blast
  have lk: "locks s q ws = None" if "q \<noteq> p" for q using lock_invD(7) [OF i, of p ws q] Some that by fastforce
  have en: "env_held s q \<noteq> Some ws" for q using g Some lock_invD(5) [OF i, of q ws] by auto
  show ?thesis unfolding t
  proof (rule lock_invI)
    show "e \<in> fds ?t q \<Longrightarrow> e < next_desc ?t" for e q using lock_invD(1) [OF i] by (auto split: if_splits)
    show "owner ?t w = Some e \<Longrightarrow> e < next_desc ?t" for e w using lock_invD(2) [OF i] by (auto split: if_splits)
    show "owner ?t w = Some e \<Longrightarrow> owner ?t w' = Some e \<Longrightarrow> w = w'" for e w w'
      using lock_invD(3) [OF i] by (auto split: if_splits)
    show "locks ?t q w = Some e \<Longrightarrow> alive ?t q \<and> owner ?t w = Some e \<and> e \<in> fds ?t q" for q w e
      using lock_invD(4) [OF i, of q w e] lk ne by (auto split: if_splits)
    show "env_held ?t q = Some w \<Longrightarrow> alive ?t q \<and> (\<exists>e. owner ?t w = Some e \<and> e \<in> fds ?t q)" for q w
      using lock_invD(5) [OF i, of q w] en ne by (auto split: if_splits)
    show "(q, w) \<in> at_work ?t \<Longrightarrow> alive ?t q \<and> (locks ?t q w \<noteq> None \<or> env_held ?t q = Some w)" for q w
      using lock_invD(6) [OF i, of q w] by (auto split: if_splits)
    show "locks ?t q w \<noteq> None \<Longrightarrow> locks ?t q' w \<noteq> None \<Longrightarrow> q = q'" for q q' w
      using lock_invD(7) [OF i, of q w q'] by (auto split: if_splits)
  qed
qed

lemma inv_spawn:
  assumes i: "lock_inv s" and c: "\<not> alive s c" and p: "alive s p"
    and h: "\<And>ws. held = Some ws \<Longrightarrow> locks s p ws \<noteq> None"
  shows "lock_inv (spawn p c held s)"
proof -
  let ?t = "spawn p c held s"
  have f: "fds ?t = (fds s)(c := fds s p)" "owner ?t = owner s" "next_desc ?t = next_desc s" "at_work ?t = at_work s"
    "alive ?t = (alive s)(c := True)" "env_held ?t = (env_held s)(c := held)" "locks ?t = (locks s)(c := \<lambda>_. None)"
    by (simp_all add: spawn_def)
  have no: "(c, ws) \<notin> at_work s" for ws using lock_invD(6) [OF i, of c ws] c by blast
  show ?thesis
  proof (rule lock_invI, unfold f)
    show "d \<in> ((fds s)(c := fds s p)) q \<Longrightarrow> d < next_desc s" for d q
      using lock_invD(1) [OF i] by (auto split: if_splits)
    show "owner s w = Some d \<Longrightarrow> d < next_desc s" for d w by (rule lock_invD(2) [OF i])
    show "owner s w = Some d \<Longrightarrow> owner s w' = Some d \<Longrightarrow> w = w'" for d w w' by (rule lock_invD(3) [OF i])
    show "((locks s)(c := \<lambda>_. None)) q w = Some d \<Longrightarrow>
        ((alive s)(c := True)) q \<and> owner s w = Some d \<and> d \<in> ((fds s)(c := fds s p)) q" for q w d
      using lock_invD(4) [OF i, of q w d] by (auto split: if_splits)
    show "((env_held s)(c := held)) q = Some w \<Longrightarrow>
        ((alive s)(c := True)) q \<and> (\<exists>d. owner s w = Some d \<and> d \<in> ((fds s)(c := fds s p)) q)" for q w
      using lock_invD(5) [OF i, of q w] lock_invD(4) [OF i, of p w] h [of w] by (auto split: if_splits)
    show "(q, w) \<in> at_work s \<Longrightarrow> ((alive s)(c := True)) q \<and>
        (((locks s)(c := \<lambda>_. None)) q w \<noteq> None \<or> ((env_held s)(c := held)) q = Some w)" for q w
      using lock_invD(6) [OF i, of q w] no [of w] by (cases "q = c") auto
    show "((locks s)(c := \<lambda>_. None)) q w \<noteq> None \<Longrightarrow> ((locks s)(c := \<lambda>_. None)) q' w \<noteq> None \<Longrightarrow> q = q'" for q q' w
      using lock_invD(7) [OF i, of q w q'] by (auto split: if_splits)
  qed
qed

lemma inv_die:
  assumes i: "lock_inv s"
  shows "lock_inv (die p s)"
proof -
  let ?t = "die p s"
  have f: "fds ?t = (fds s)(p := {})" "next_desc ?t = next_desc s" "alive ?t = (alive s)(p := False)"
    "env_held ?t = (env_held s)(p := None)" "locks ?t = (locks s)(p := \<lambda>_. None)" "at_work ?t = {(q, ws) \<in> at_work s. q \<noteq> p}"
    by (simp_all add: die_def Let_def)
  have o: "owner ?t w = Some d \<Longrightarrow> owner s w = Some d" for w d
    by (auto simp: die_def Let_def split: option.splits if_splits)
  have k: "owner s w = Some d \<Longrightarrow> q \<noteq> p \<Longrightarrow> alive s q \<Longrightarrow> d \<in> fds s q \<Longrightarrow> owner ?t w = Some d" for w d q
    by (auto simp: die_def Let_def)
  show ?thesis
  proof (rule lock_invI, unfold f)
    show "d \<in> ((fds s)(p := {})) q \<Longrightarrow> d < next_desc s" for d q
      using lock_invD(1) [OF i] by (auto split: if_splits)
    show "owner ?t w = Some d \<Longrightarrow> d < next_desc s" for d w using o lock_invD(2) [OF i] by blast
    show "owner ?t w = Some d \<Longrightarrow> owner ?t w' = Some d \<Longrightarrow> w = w'" for d w w' using o lock_invD(3) [OF i] by blast
    show "((locks s)(p := \<lambda>_. None)) q w = Some d \<Longrightarrow>
        ((alive s)(p := False)) q \<and> owner ?t w = Some d \<and> d \<in> ((fds s)(p := {})) q" for q w d
      using lock_invD(4) [OF i, of q w d] k [of w d q] by (auto split: if_splits)
    show "((env_held s)(p := None)) q = Some w \<Longrightarrow>
        ((alive s)(p := False)) q \<and> (\<exists>d. owner ?t w = Some d \<and> d \<in> ((fds s)(p := {})) q)" for q w
      using lock_invD(5) [OF i, of q w] k [of w _ q] by (auto split: if_splits)
    show "(q, w) \<in> {(q, ws) \<in> at_work s. q \<noteq> p} \<Longrightarrow> ((alive s)(p := False)) q \<and>
        (((locks s)(p := \<lambda>_. None)) q w \<noteq> None \<or> ((env_held s)(p := None)) q = Some w)" for q w
      using lock_invD(6) [OF i, of q w] by auto
    show "((locks s)(p := \<lambda>_. None)) q w \<noteq> None \<Longrightarrow> ((locks s)(p := \<lambda>_. None)) q' w \<noteq> None \<Longrightarrow> q = q'" for q q' w
      using lock_invD(7) [OF i, of q w q'] by (auto split: if_splits)
  qed
qed

lemma reachable_inv: "lock_reachable P s \<Longrightarrow> lock_inv s"
proof (induction rule: lock_reachable.induct)
  case (init s)
  then show ?case by (simp add: lock_start_def lock_inv_def)
next
  case (step s s')
  from step.hyps(2) step.IH show ?case
    by (cases rule: lock_step.cases) (auto intro: inv_take_up inv_leave inv_spawn inv_die)
qed

text \<open>
  C10: Only one family works on a workspace. In every reachable state of any processes, whatever the order
  of their steps and whoever is killed, all those at work on a workspace have open one and the same
  description, the one that holds its lock; at most one of them took it and the others run under it, and
  anybody else who asks is refused.
\<close>

theorem one_family_works:
  assumes "lock_reachable P s" and "(p, ws) \<in> at_work s"
  shows "(\<exists>d. owner s ws = Some d \<and> (\<forall>q. (q, ws) \<in> at_work s \<longrightarrow> alive s q \<and> d \<in> fds s q))
    \<and> (\<forall>q q'. locks s q ws \<noteq> None \<and> locks s q' ws \<noteq> None \<longrightarrow> q = q')
    \<and> (\<forall>r can_open what. env_held s r \<noteq> Some ws \<longrightarrow> can_open \<longrightarrow> (\<exists>h. Acquire can_open r ws what s = (s, Busy h)))"
proof -
  have i: "lock_inv s" by (rule reachable_inv [OF assms(1)])
  have each: "\<exists>d. owner s ws = Some d \<and> alive s q \<and> d \<in> fds s q" if "(q, ws) \<in> at_work s" for q
    using lock_invD(6) [OF i that] lock_invD(4) [OF i, of q ws] lock_invD(5) [OF i, of q ws] by auto
  obtain d where d: "owner s ws = Some d" using each [OF assms(2)] by blast
  have "\<forall>q. (q, ws) \<in> at_work s \<longrightarrow> alive s q \<and> d \<in> fds s q" using each d by fastforce
  moreover have "\<forall>q q'. locks s q ws \<noteq> None \<and> locks s q' ws \<noteq> None \<longrightarrow> q = q'" using lock_invD(7) [OF i] by blast
  ultimately show ?thesis using d by (simp add: Acquire_def)
qed

definition two_procs :: lstate where
  "two_procs = \<lparr>alive = (\<lambda>p. p \<in> {1, 2}), env_held = (\<lambda>_. None), fds = (\<lambda>_. {}), owner = (\<lambda>_. None),
     noted = (\<lambda>_. None), locks = (\<lambda>_ _. None), at_work = {}, next_desc = 0\<rparr>"

definition held_state :: lstate where
  "held_state = take_up True 1 ''/w'' ''campaign'' two_procs"

definition building :: lstate where
  "building = take_up True 3 ''/w'' ''build'' (spawn 1 3 (Some ''/w'') held_state)"

lemma held_state_parts: "alive held_state = (\<lambda>p. p \<in> {1, 2})" "env_held held_state = (\<lambda>_. None)"
  "locks held_state (Suc 0) ''/w'' = Some 0" "at_work held_state = {(1, ''/w'')}"
  unfolding held_state_def take_up_def Acquire_def two_procs_def Let_def by simp_all

lemma building_is: "building = (spawn 1 3 (Some ''/w'') held_state)\<lparr>at_work := insert (3, ''/w'') (at_work (spawn 1 3 (Some ''/w'') held_state))\<rparr>"
proof -
  have "env_held (spawn 1 3 (Some ''/w'') held_state) 3 = Some ''/w''" by (simp add: spawn_def)
  then show ?thesis unfolding building_def take_up_def Acquire_def by simp
qed

lemma building_parts: "alive building 1" "env_held building 2 = None" "(3, ''/w'') \<in> at_work building"
  unfolding building_is by (simp_all add: spawn_def held_state_parts)

lemma die_parts: "at_work (die p s) = {(q, ws) \<in> at_work s. q \<noteq> p}" "env_held (die p s) = (env_held s)(p := None)"
  by (simp_all add: die_def Let_def)

text \<open>The campaign is killed while its build runs: the build still has the lock, and the next to ask is refused.\<close>

theorem one_family_works_witness:
  "\<exists>h. Acquire True 2 ''/w'' ''sweep'' (die 1 building) = (die 1 building, Busy h)"
proof -
  have "lock_reachable {1, 2} two_procs" by (rule lock_reachable.init) (simp add: lock_start_def two_procs_def)
  then have "lock_reachable {1, 2} held_state"
    unfolding held_state_def by (rule lock_reachable.step) (rule lock_step.start, simp add: two_procs_def)
  then have "lock_reachable {1, 2} (spawn 1 3 (Some ''/w'') held_state)"
    by (rule lock_reachable.step) (rule lock_step.build, simp_all add: held_state_parts)
  then have "lock_reachable {1, 2} building"
    unfolding building_def by (rule lock_reachable.step) (rule lock_step.start, simp add: spawn_def)
  then have r: "lock_reachable {1, 2} (die 1 building)"
    by (rule lock_reachable.step) (rule lock_step.killed, rule building_parts(1))
  have w: "(3, ''/w'') \<in> at_work (die 1 building)" "env_held (die 1 building) 2 \<noteq> Some ''/w''"
    by (simp_all only: die_parts) (use building_parts in simp_all)
  show ?thesis
    by (rule one_family_works [OF r w(1), THEN conjunct2, THEN conjunct2, THEN spec, THEN spec, THEN spec, THEN mp, THEN mp,
          OF w(2) TrueI])
qed

end
