(* ===== verification/Ratchet_Analysis.thy ===== *)
theory Ratchet_Analysis
  imports Ratchet Go_Regexp "HOL-Library.Product_Lexorder"
begin

text \<open>
  The analyses over the ratchet's series and history, and the one command that lowers a floor
  (\<open>internal/ratchet/analysis.go\<close>), and the choice of the log a round is judged from (\<open>logs.go\<close>).

  A report is its figures, in the order they are printed. The natural logarithm is a parameter \<open>lnf\<close>: the
  code relies on nothing of it but that it is a function of the number. Where the code sorts by a figure
  without breaking ties, the model keeps the order of appearance.
\<close>

subsection \<open>reading the series\<close>

record series_row =
  s_ws :: string
  s_round :: "int option"
  s_log_mtime :: string
  s_execs :: "int gomap"

record history_change =
  hc_kind :: string
  hc_target :: string
  hc_from :: int
  hc_to :: int

record history_row =
  h_ws :: string
  h_round :: "int option"
  h_log_mtime :: string
  h_changes :: "history_change list"

text \<open>
  What \<open>json.Decoder\<close> meets in the file: a value that decodes, a value of another shape, or text that is no
  value. A syntax error stays with the decoder, so every later call returns it again.
\<close>

datatype 'v item = Good 'v | Mistyped | Broken

fun ReadJSONL :: "'v item list \<Rightarrow> 'v list" where
  "ReadJSONL [] = []"
| "ReadJSONL (Good v # is) = v # ReadJSONL is"
| "ReadJSONL (Broken # is) = []"
| "ReadJSONL (Mistyped # is) = (case is of [] \<Rightarrow> [] | i # is' \<Rightarrow> if i = Broken then [] else ReadJSONL is')"

definition sinceOK :: "string \<Rightarrow> string \<Rightarrow> bool" where
  "sinceOK mtime since \<longleftrightarrow> since = [] \<or> since \<le> mtime"

definition cut16 :: "string \<Rightarrow> string" where "cut16 s = (if length s > 16 then take 16 s else s)"

definition span :: "string list \<Rightarrow> string \<times> string" where
  "span ts = (let got = sort (filter (\<lambda>t. t \<noteq> []) ts)
     in if got = [] then (''?'', ''?'') else (cut16 (hd got), cut16 (last got)))"

fun comma_groups :: "string \<Rightarrow> string" where
  "comma_groups s = (if length s \<le> 3 then s else comma_groups (take (length s - 3) s) @ CHR '','' # drop (length s - 3) s)"

declare comma_groups.simps [simp del]

definition commaInt :: "int \<Rightarrow> string" where
  "commaInt n = (if n < 0 then CHR ''-'' # comma_groups (nat_dec (nat (- n))) else comma_groups (nat_dec (nat n)))"

definition byCountDesc :: "(string \<times> int) list \<Rightarrow> string list" where
  "byCountDesc m = sort_key (\<lambda>k. (- num m k, k)) (map fst m)"

text \<open>\<open>Show\<close>: the workspaces in order, each with its floors, the highest first.\<close>

definition show_floors :: "baseline \<Rightarrow> string \<Rightarrow> (string \<times> (string \<times> int) list) list" where
  "show_floors b which =
     (let wss = filter (\<lambda>ws. which = [] \<or> ws = which) (map fst (floors b));
          wss' = (if which \<noteq> [] \<and> wss = [] then [which] else wss)
      in map (\<lambda>ws. (ws, sort_key (\<lambda>(t, v). (- v, t)) (sub (floors b) ws))) (sort wss'))"

definition percent :: "f64 \<Rightarrow> int" where "percent x = f64_to_int (f64_mul x 100)"

definition LoadAcks :: "string option \<Rightarrow> string gomap" where
  "LoadAcks b =
     (case b of
        None \<Rightarrow> []
      | Some s \<Rightarrow> fold (\<lambda>line m. if trim_space line = [] \<or> has_prefix line ''#'' then m
                  else AList.update (hd (split_at tab line)) line m) (split_at newline s) [])"

subsection \<open>a shift of the level\<close>

record cusum_options =
  K :: f64
  H :: f64
  Clip :: f64
  MinRounds :: nat

definition DefaultCusum :: cusum_options where
  "DefaultCusum = \<lparr>K = 1 / 2, H = 4, Clip = 3, MinRounds = 8\<rparr>"

definition median :: "f64 list \<Rightarrow> f64" where
  "median xs =
     (let s = sort xs; m = length s div 2
      in if xs = [] then 0 else if length s mod 2 = 1 then s ! m else f64_div (f64_add (s ! (m - 1)) (s ! m)) 2)"

definition mad :: "f64 list \<Rightarrow> f64 \<Rightarrow> f64" where
  "mad xs med = f64_mul (f64 (14826 / 10000)) (median (map (\<lambda>x. \<bar>f64_sub x med\<bar>) xs))"

definition log_of_execs :: "(f64 \<Rightarrow> f64) \<Rightarrow> int \<Rightarrow> f64" where
  "log_of_execs lnf x = lnf (max (f64_of_int x) 1)"

definition scale_of :: "f64 list \<Rightarrow> f64 \<times> f64" where
  "scale_of train = (let med = median train; sd = mad train med in (med, if sd \<le> 0 then f64 (1 / 10) else sd))"

text \<open>One judged round: the sum \<open>S\<close> and the next one.\<close>

definition cusum_step :: "cusum_options \<Rightarrow> f64 \<Rightarrow> f64 \<Rightarrow> f64" where
  "cusum_step op z S = max 0 (f64_sub (f64_sub S (max z (- Clip op))) (K op))"

fun cusum_trip :: "cusum_options \<Rightarrow> nat \<Rightarrow> f64 \<Rightarrow> f64 list \<Rightarrow> nat option" where
  "cusum_trip op i S [] = None"
| "cusum_trip op i S (z # zs) =
     (let S' = cusum_step op z S in if S' > H op then Some i else cusum_trip op (Suc i) S' zs)"

definition deviations :: "(f64 \<Rightarrow> f64) \<Rightarrow> cusum_options \<Rightarrow> int list \<Rightarrow> f64 list" where
  "deviations lnf op xs =
     (let lg = map (log_of_execs lnf) xs; (med, sd) = scale_of (take (MinRounds op) lg)
      in map (\<lambda>l. f64_div (f64_sub l med) sd) (drop (MinRounds op) lg))"

definition cusum_target :: "(f64 \<Rightarrow> f64) \<Rightarrow> cusum_options \<Rightarrow> int list \<Rightarrow> nat option" where
  "cusum_target lnf op xs = cusum_trip op (MinRounds op) 0 (deviations lnf op xs)"

definition execs_of :: "series_row list \<Rightarrow> string \<Rightarrow> int list" where
  "execs_of rounds t = List.map_filter (\<lambda>r. map_of (s_execs r) t) rounds"

datatype cusum_verdict = Insufficient nat | Shifts "(string \<times> nat) list"

definition cusum_ws :: "(f64 \<Rightarrow> f64) \<Rightarrow> cusum_options \<Rightarrow> series_row list \<Rightarrow> string \<Rightarrow> cusum_verdict" where
  "cusum_ws lnf op rows ws =
     (let rounds = filter (\<lambda>r. s_ws r = ws) rows
      in if length rounds < MinRounds op + 1 then Insufficient (length rounds)
         else Shifts (List.map_filter (\<lambda>t. let xs = execs_of rounds t
                in if length xs < MinRounds op + 1 then None else map_option (Pair t) (cusum_target lnf op xs))
              (sort (remdups (concat (map (\<lambda>r. map fst (s_execs r)) rounds))))))"

definition shifts_in :: "cusum_verdict \<Rightarrow> nat" where
  "shifts_in v = (case v of Insufficient _ \<Rightarrow> 0 | Shifts ts \<Rightarrow> length ts)"

definition Cusum ::
  "(f64 \<Rightarrow> f64) \<Rightarrow> series_row list \<Rightarrow> string list \<Rightarrow> cusum_options \<Rightarrow> (string \<times> cusum_verdict) list \<times> int"
where
  "Cusum lnf rows workspaces op =
     (let wss = (if workspaces = [] then sort (remdups (map s_ws rows)) else workspaces);
          out = map (\<lambda>ws. (ws, cusum_ws lnf op rows ws)) wss
      in if wss = [] then ([], 2) else (out, if sum_list (map (shifts_in \<circ> snd) out) > 0 then 1 else 0))"

subsection \<open>what the floors did\<close>

record activity =
  ac_span :: "string \<times> string"
  ac_moved :: nat
  ac_kinds :: "(string \<times> int) list"
  ac_rounds :: "(int \<times> nat) list"
  ac_no_round :: nat
  ac_raises :: "(f64 \<times> string \<times> string \<times> int \<times> int) list"

definition Activity :: "history_row list \<Rightarrow> string \<Rightarrow> nat \<Rightarrow> activity option" where
  "Activity all since n =
     (let recs = filter (\<lambda>r. sinceOK (h_log_mtime r) since) all;
          changes = concat (map (\<lambda>r. map (Pair (h_ws r)) (h_changes r)) recs);
          kinds = fold (\<lambda>(ws, c). bump (hc_kind c) 1) changes [];
          ws_of = (\<lambda>k. length (remdups (map h_ws (filter (\<lambda>r. h_round r = k) recs))));
          rs = sort (remdups (List.map_filter h_round recs));
          raises = List.map_filter (\<lambda>(ws, c). if hc_kind c = ''raise'' \<and> hc_from c \<noteq> 0
             then Some (f64_div (f64_of_int (hc_to c)) (max (f64_of_int (hc_from c)) 1), ws, hc_target c, hc_from c, hc_to c)
             else None) changes
      in if recs = [] then None
         else Some \<lparr>ac_span = span (map h_log_mtime recs), ac_moved = length recs,
            ac_kinds = map (\<lambda>k. (k, num kinds k)) (byCountDesc kinds),
            ac_rounds = map (\<lambda>k. (k, ws_of (Some k))) rs, ac_no_round = ws_of None,
            ac_raises = take n (sort_key (\<lambda>x. - fst x) raises)\<rparr>)"

subsection \<open>where the observations sit\<close>

text \<open>The edges of the histogram; the last bucket has no upper edge.\<close>

definition distEdges :: "f64 list" where
  "distEdges = map f64 [0, 1 / 100, 5 / 100, 1 / 10, 25 / 100, 1 / 2, 75 / 100, 9 / 10, 1]"

definition distLabels :: "string list" where
  "distLabels = [''<1%'', ''1-5%'', ''5-10%'', ''10-25%'', ''25-50%'', ''50-75%'', ''75-90%'', ''90-100%'', ''>=100%'']"

record rat_row =
  ra_r :: f64
  ra_ws :: string
  ra_target :: string
  ra_v :: int
  ra_f :: int

definition in_bucket :: "nat \<Rightarrow> f64 \<Rightarrow> bool" where
  "in_bucket i r \<longleftrightarrow> distEdges ! i \<le> r \<and> (Suc i < length distEdges \<longrightarrow> r < distEdges ! Suc i)"

definition bucket_fails :: "f64 \<Rightarrow> nat \<Rightarrow> bool" where
  "bucket_fails t i \<longleftrightarrow> Suc i < length distEdges \<and> distEdges ! Suc i \<le> t"

definition ratios_of :: "baseline \<Rightarrow> series_row list \<Rightarrow> rat_row list" where
  "ratios_of b recs = concat (map (\<lambda>ob. List.map_filter (\<lambda>(t, v).
       case map_of (sub (floors b) (s_ws ob)) t of
         Some f \<Rightarrow> if f > 0 then Some \<lparr>ra_r = f64_div (f64_of_int v) (f64_of_int f), ra_ws = s_ws ob, ra_target = t, ra_v = v, ra_f = f\<rparr>
                   else None
       | None \<Rightarrow> None) (s_execs ob)) recs)"

definition counts_of :: "rat_row list \<Rightarrow> nat list" where
  "counts_of rats = map (\<lambda>i. length (filter (\<lambda>r. in_bucket i (ra_r r)) rats)) [0..<9]"

definition above_line :: "f64 \<Rightarrow> nat" where
  "above_line t = (case filter (\<lambda>i. t \<le> distEdges ! i) [0..<9] of [] \<Rightarrow> 0 | i # _ \<Rightarrow> i)"

record distribution =
  di_span :: "string \<times> string"
  di_rounds :: nat
  di_counts :: "nat list"
  di_fires_below :: int
  di_below :: nat
  di_above :: nat
  di_empty :: "string list"
  di_continuum :: bool
  di_known :: "rat_row list"
  di_real :: "rat_row list"
  di_targets :: "(string \<times> int) list"

datatype dist_report = No_observations | No_floor | Dist distribution

definition Distribution :: "baseline \<Rightarrow> series_row list \<Rightarrow> string gomap \<Rightarrow> string \<Rightarrow> dist_report" where
  "Distribution b all acks since =
     (let recs = filter (\<lambda>r. sinceOK (s_log_mtime r) since) all; rats = ratios_of b recs; t = tol b;
          counts = counts_of rats; below = sum_list (map ((!) counts) (filter (bucket_fails t) [0..<9])); ai = above_line t;
          fails = sort_key ra_r (filter (\<lambda>r. ra_r r < t) rats);
          known = filter (\<lambda>r. map_of acks (ra_target r) \<noteq> None) fails;
          unknown = filter (\<lambda>r. map_of acks (ra_target r) = None) fails;
          tgts = fold (\<lambda>r. bump (ra_target r) 1) unknown []
      in if recs = [] then No_observations
         else if rats = [] then No_floor
         else Dist \<lparr>di_span = span (map s_log_mtime recs), di_rounds = length recs, di_counts = counts,
            di_fires_below = percent t, di_below = below, di_above = counts ! ai,
            di_empty = map ((!) distLabels) (filter (\<lambda>i. counts ! i = 0) [0..<ai]),
            di_continuum = (counts ! ai > 0 \<and> below > 0), di_known = known, di_real = unknown,
            di_targets = map (\<lambda>k. (k, num tgts k)) (byCountDesc tgts)\<rparr>)"

subsection \<open>how much a healthy target moves\<close>

record swing =
  sg_r :: f64
  sg_ws :: string
  sg_target :: string
  sg_lo :: int
  sg_hi :: int

definition execs_at :: "series_row \<Rightarrow> string \<Rightarrow> int" where "execs_at r t = num (s_execs r) t"

definition common_targets :: "series_row list \<Rightarrow> string list" where
  "common_targets rs = filter (\<lambda>t. list_all (\<lambda>r. map_of (s_execs r) t \<noteq> None) (tl rs)) (map fst (s_execs (hd rs)))"

definition swing_of :: "string \<Rightarrow> series_row list \<Rightarrow> string \<Rightarrow> swing option" where
  "swing_of ws rs t =
     (let vs = map (\<lambda>r. execs_at r t) rs; lo = fold min vs max_int64; hi = fold max vs 0
      in if hi > 0 then Some \<lparr>sg_r = f64_div (f64_of_int lo) (f64_of_int hi), sg_ws = ws, sg_target = t, sg_lo = lo, sg_hi = hi\<rparr>
         else None)"

record variance =
  va_workspaces :: "(string \<times> nat \<times> nat) list"
  va_pairs :: nat
  va_pct :: "(int \<times> f64) list"
  va_widest :: "swing list"

definition pct_of :: "swing list \<Rightarrow> f64 \<Rightarrow> f64" where
  "pct_of sorted_ratios p =
     (let n = length sorted_ratios; i = nat (f64_to_int (f64_mul (f64_of_int (int n)) p))
      in sg_r (sorted_ratios ! (if i > n - 1 then n - 1 else i)))"

definition Variance :: "series_row list \<Rightarrow> string \<Rightarrow> variance option" where
  "Variance rows which =
     (let mine = (\<lambda>ws. filter (\<lambda>r. s_ws r = ws) rows);
          wss = filter (\<lambda>ws. (which = [] \<or> ws = which) \<and> length (mine ws) \<ge> 2) (sort (remdups (map s_ws rows)));
          ratios = concat (map (\<lambda>ws. List.map_filter (swing_of ws (mine ws)) (common_targets (mine ws))) wss);
          sorted_ratios = sort_key sg_r ratios
      in if wss = [] \<or> ratios = [] then None
         else Some \<lparr>va_workspaces = map (\<lambda>ws. (ws, length (common_targets (mine ws)), length (mine ws))) wss,
            va_pairs = length ratios,
            va_pct = map (\<lambda>p. (percent p, pct_of sorted_ratios p)) (map f64 [1 / 100, 5 / 100, 1 / 10, 25 / 100, 1 / 2]),
            va_widest = take 10 sorted_ratios\<rparr>)"

subsection \<open>lowering a floor on purpose\<close>

record reseed_change =
  rc_ws :: string
  rc_from :: int
  rc_to :: int

record reseed_record =
  rr_target :: string
  rr_since :: string
  rr_reason :: string
  rr_changed :: "reseed_change list"

definition reseed_ws ::
  "string \<Rightarrow> string gomap \<Rightarrow> (string \<Rightarrow> int) \<Rightarrow> string \<Rightarrow> baseline \<times> reseed_change list \<Rightarrow> baseline \<times> reseed_change list"
where
  "reseed_ws target wsDirs best ws s =
     (let (b, changed) = s in
      case (map_of (sub (floors b) ws) target, map_of wsDirs ws) of
        (Some old, Some dir) \<Rightarrow>
          if best dir \<le> 0 then s
          else if best dir = old then s
          else (b\<lparr>floors := AList.update ws (AList.update target (best dir) (sub (floors b) ws)) (floors b)\<rparr>,
                changed @ [\<lparr>rc_ws = ws, rc_from = old, rc_to = best dir\<rparr>])
      | _ \<Rightarrow> s)"

text \<open>\<open>Reseed\<close>: \<open>None\<close> is the refusal for want of a reason. The record of reseeds is a list beside the baseline.\<close>

definition Reseed ::
  "string \<Rightarrow> string \<Rightarrow> string \<Rightarrow> string gomap \<Rightarrow> (string \<Rightarrow> string \<Rightarrow> string \<Rightarrow> int) \<Rightarrow>
   baseline \<times> reseed_record list \<Rightarrow> (baseline \<times> reseed_record list) \<times> reseed_change list option"
where
  "Reseed target since reason wsDirs best s =
     (if reason = [] then (s, None)
      else
        (let (b, rs) = s;
             (b', changed) = fold (reseed_ws target wsDirs (\<lambda>dir. best dir target since)) (sort (map fst (floors b))) (b, [])
         in if changed = [] then ((b', rs), Some [])
            else ((b', rs @ [\<lparr>rr_target = target, rr_since = since, rr_reason = reason, rr_changed = changed\<rparr>]), Some changed)))"

subsection \<open>the log of a round\<close>

definition roundLogRe :: re where
  "roundLogRe = seqs [Bol, lit ''sweep-round'', Group 1 digits, lit ''.log'', opt (lit ''.gz''), Eol]"

text \<open>A workspace directory: names, each with its modification time if it can be read.\<close>

definition newer :: "(string \<times> int) option \<Rightarrow> string \<times> int option \<Rightarrow> (string \<times> int) option" where
  "newer best e =
     (if \<not> match_re roundLogRe (fst e) then best
      else (case snd e of
              None \<Rightarrow> best
            | Some t \<Rightarrow> (case best of None \<Rightarrow> Some (fst e, t) | Some (n, bt) \<Rightarrow> if bt < t then Some (fst e, t) else best)))"

definition round_log_name :: "int \<Rightarrow> string" where "round_log_name n = ''sweep-round'' @ itoa n @ ''.log''"

definition SweepLog :: "(string \<times> int option) list option \<Rightarrow> int \<Rightarrow> string" where
  "SweepLog ents n =
     (let names = (case ents of None \<Rightarrow> [] | Some es \<Rightarrow> map fst es)
      in if n \<ge> 0
         then (if round_log_name n \<in> set names then round_log_name n
               else if round_log_name n @ ''.gz'' \<in> set names then round_log_name n @ ''.gz'' else [])
         else (case ents of
                 None \<Rightarrow> []
               | Some es \<Rightarrow> (case fold (\<lambda>e best. newer best e) es None of None \<Rightarrow> [] | Some (name, t) \<Rightarrow> name)))"

definition AllRounds :: "(string \<times> int option) list option \<Rightarrow> int list" where
  "AllRounds ents =
     (case ents of
        None \<Rightarrow> []
      | Some es \<Rightarrow> sort (remdups (List.map_filter (\<lambda>(name, t). case find_re roundLogRe name of
            Some m \<Rightarrow> if snd (atoi (grp m 1)) then Some (fst (atoi (grp m 1))) else None
          | None \<Rightarrow> None) es)))"

subsection \<open>one bad round is not a shift, five are\<close>

lemma halves: "f64 (1 / 2) = 1 / 2" "f64 (3 / 2) = 3 / 2" "f64 (5 / 2) = 5 / 2" "f64 (7 / 2) = 7 / 2" "f64 (9 / 2) = 9 / 2"
  "f64 (11 / 2) = 11 / 2" "f64 1 = 1" "f64 2 = 2" "f64 3 = 3" "f64 4 = 4" "f64 5 = 5"
  by (code_simp, code_simp, code_simp, code_simp, code_simp, code_simp, code_simp, code_simp, code_simp, code_simp, code_simp)

lemma default_step: "cusum_step DefaultCusum z S = max 0 (f64 (f64 (S - max z (- 3)) - 1 / 2))"
  by (simp add: cusum_step_def DefaultCusum_def f64_sub_def)

lemma step_nonneg: "0 \<le> cusum_step op z S"
  by (simp add: cusum_step_def)

lemma step_le:
  assumes "S - max z (- 3) \<le> u" and "f64 (f64 u - 1 / 2) \<le> v" and "0 \<le> v"
  shows "cusum_step DefaultCusum z S \<le> v"
  using f64_mono [of "f64 (S - max z (- 3)) - 1 / 2" "f64 u - 1 / 2"] f64_mono [OF assms(1)] assms(2,3)
  by (simp add: default_step)

lemma step_ge:
  assumes "u \<le> S - max z (- 3)" and "v \<le> f64 (f64 u - 1 / 2)"
  shows "v \<le> cusum_step DefaultCusum z S"
  using f64_mono [of "f64 u - 1 / 2" "f64 (S - max z (- 3)) - 1 / 2"] f64_mono [OF assms(1)] assms(2)
  by (simp add: default_step le_max_iff_disj)

lemma good_steps_quiet:
  "S \<le> 5 / 2 \<Longrightarrow> list_all (\<lambda>z. - 1 / 2 \<le> z) zs \<Longrightarrow> cusum_trip DefaultCusum i S zs = None"
proof (induction zs arbitrary: i S)
  case (Cons z zs)
  have "cusum_step DefaultCusum z S \<le> 5 / 2"
    by (rule step_le [of _ _ 3]) (use Cons.prems in \<open>auto simp: halves\<close>)
  with Cons show ?case by (simp add: Let_def DefaultCusum_def)
qed simp

lemma one_bad_quiet:
  "length (filter (\<lambda>z. z < - 1 / 2) zs) \<le> 1 \<Longrightarrow> cusum_trip DefaultCusum i 0 zs = None"
proof (induction zs arbitrary: i)
  case (Cons z zs)
  show ?case
  proof (cases "z < - 1 / 2")
    case True
    then have "list_all (\<lambda>z. - 1 / 2 \<le> z) zs" using Cons.prems by (auto simp: filter_empty_conv list_all_iff)
    moreover have "cusum_step DefaultCusum z 0 \<le> 5 / 2" by (rule step_le [of _ _ 3]) (auto simp: halves)
    ultimately show ?thesis using good_steps_quiet by (simp add: Let_def) (simp add: DefaultCusum_def)
  next
    case False
    then have "cusum_step DefaultCusum z 0 \<le> 0" by (intro step_le [of _ _ "1 / 2"]) (auto simp: halves)
    then have "cusum_step DefaultCusum z 0 = 0" using step_nonneg by (metis order_antisym)
    with Cons False show ?thesis by (simp add: Let_def DefaultCusum_def)
  qed
qed simp

lemma bad_step: "of_nat j \<le> S \<Longrightarrow> j < 5 \<Longrightarrow> z \<le> - 3 / 2 \<Longrightarrow> of_nat (Suc j) \<le> cusum_step DefaultCusum z S"
proof (rule step_ge [of "of_nat j + 3 / 2"])
  assume "of_nat j \<le> S" "z \<le> - 3 / 2"
  then show "of_nat j + 3 / 2 \<le> S - max z (- 3)" by (auto simp: max_def)
next
  assume "j < 5"
  then have "j = 0 \<or> j = 1 \<or> j = 2 \<or> j = 3 \<or> j = 4" by auto
  then show "of_nat (Suc j) \<le> f64 (f64 (of_nat j + 3 / 2) - 1 / 2)" by (elim disjE) (simp_all add: halves)
qed

lemma bad_run_trips:
  assumes "of_nat j \<le> S" "j + length run = 5" "list_all (\<lambda>z. z \<le> - 3 / 2) run" "run \<noteq> []"
  shows "\<exists>k < i + length run. cusum_trip DefaultCusum i S (run @ post) = Some k"
  using assms
proof (induction run arbitrary: i j S)
  case (Cons z run)
  let ?S = "cusum_step DefaultCusum z S"
  have s: "of_nat (Suc j) \<le> ?S" using bad_step Cons.prems by simp
  show ?case
  proof (cases "?S > 4")
    case True
    then show ?thesis by (simp add: Let_def) (simp add: DefaultCusum_def)
  next
    case False
    then have ne: "run \<noteq> []" using s Cons.prems(2) by auto
    obtain k where "k < Suc i + length run" "cusum_trip DefaultCusum (Suc i) ?S (run @ post) = Some k"
      using Cons.IH [OF s, of "Suc i"] Cons.prems ne by auto
    with False show ?thesis by (simp add: Let_def DefaultCusum_def)
  qed
qed simp

lemma later_run_trips:
  assumes "0 \<le> S" "length run = 5" "list_all (\<lambda>z. z \<le> - 3 / 2) run"
  shows "\<exists>k < i + length pre + 5. cusum_trip DefaultCusum i S (pre @ run @ post) = Some k"
  using assms(1)
proof (induction pre arbitrary: i S)
  case Nil
  then show ?case using bad_run_trips [of 0 S run i post] assms(2,3) by (cases run) auto
next
  case (Cons z pre)
  from Cons.IH [OF step_nonneg, of "Suc i" DefaultCusum z S] show ?case by (auto simp: Let_def)
qed

text \<open>
  C29: With its standing parameters the detector reports a shift that stays and not a bad round. In
  binary64 arithmetic, whatever the training rounds were, a target is reported only if at least two judged
  rounds lie below its median by more than half its scale; and a run of five rounds below by one and a half
  times the scale or more is reported by its fifth round at the latest, whatever came before it.
\<close>

theorem cusum_reports_persistent_drops:
  "(cusum_target lnf DefaultCusum xs \<noteq> None \<longrightarrow>
      2 \<le> length (filter (\<lambda>z. z < - 1 / 2) (deviations lnf DefaultCusum xs))) \<and>
   (\<forall>pre run post. deviations lnf DefaultCusum xs = pre @ run @ post \<and> length run = 5 \<and> list_all (\<lambda>z. z \<le> - 3 / 2) run \<longrightarrow>
      (\<exists>k < 8 + length pre + 5. cusum_target lnf DefaultCusum xs = Some k))"
proof (intro conjI allI impI)
  assume "cusum_target lnf DefaultCusum xs \<noteq> None"
  then show "2 \<le> length (filter (\<lambda>z. z < - 1 / 2) (deviations lnf DefaultCusum xs))"
    using one_bad_quiet [of "deviations lnf DefaultCusum xs"] unfolding cusum_target_def by force
next
  fix pre run post
  assume "deviations lnf DefaultCusum xs = pre @ run @ post \<and> length run = 5 \<and> list_all (\<lambda>z. z \<le> - 3 / 2) run"
  then show "\<exists>k < 8 + length pre + 5. cusum_target lnf DefaultCusum xs = Some k"
    using later_run_trips [of 0 run 8 pre post] by (simp add: cusum_target_def) (simp add: DefaultCusum_def)
qed

definition dropped :: "int list" where "dropped = replicate 8 100 @ replicate 5 1"

lemma median_flat: "median (replicate 8 x) = f64_div (f64_add x x) 2"
proof -
  have "sort (replicate 8 x) = replicate 8 x" by (rule sorted_sort_id) simp
  then show ?thesis by (simp add: median_def Let_def)
qed

lemma dropped_arith: "f64_of_int 100 = 100" "f64_of_int 1 = 1" "f64_div (f64_add 100 100) 2 = 100" "f64_div (f64_add 0 0) 2 = 0"
  "\<bar>f64_sub 100 100\<bar> = 0" "f64_mul x 0 = 0" "f64_div (f64_sub 1 100) (f64 (1 / 10)) \<le> - 3 / 2"
  by (code_simp, code_simp, code_simp, code_simp, code_simp, simp add: f64_mul_def, code_simp)

lemma dropped_deviations: "list_all (\<lambda>z. z \<le> - 3 / 2) (deviations (\<lambda>x. x) DefaultCusum dropped) \<and>
    length (deviations (\<lambda>x. x) DefaultCusum dropped) = 5"
proof -
  have lg: "map (log_of_execs (\<lambda>x. x)) dropped = replicate 8 100 @ replicate 5 1"
    by (simp add: dropped_def log_of_execs_def map_replicate dropped_arith)
  have "scale_of (replicate 8 100) = (100, f64 (1 / 10))"
    by (simp add: scale_of_def Let_def mad_def map_replicate median_flat dropped_arith)
  then have "deviations (\<lambda>x. x) DefaultCusum dropped = replicate 5 (f64_div (f64_sub 1 100) (f64 (1 / 10)))"
    unfolding deviations_def Let_def lg by (simp add: DefaultCusum_def map_replicate)
  then show ?thesis using dropped_arith(7) by (simp add: list_all_iff)
qed

theorem cusum_reports_persistent_drops_witness:
  "\<exists>k < 13. cusum_target (\<lambda>x. x) DefaultCusum dropped = Some k"
proof -
  let ?d = "deviations (\<lambda>x. x) DefaultCusum dropped"
  have "?d = [] @ ?d @ [] \<and> length ?d = 5 \<and> list_all (\<lambda>z. z \<le> - 3 / 2) ?d"
    unfolding append_Nil append_Nil2 using dropped_deviations by blast
  from cusum_reports_persistent_drops [THEN conjunct2, THEN spec, THEN spec, THEN spec, THEN mp, OF this]
  obtain k where "k < 8 + length ([] :: rat list) + 5" "cusum_target (\<lambda>x. x) DefaultCusum dropped = Some k" by blast
  moreover from this(1) have "k < 13" unfolding list.size by linarith
  ultimately show ?thesis by blast
qed

text \<open>With too little history nothing is checked, the report says that this is no pass, and the exit code is 0.\<close>

lemma unchecked_exits_zero:
  "Cusum lnf [\<lparr>s_ws = ''a'', s_round = None, s_log_mtime = [], s_execs = []\<rparr>] [] DefaultCusum = ([(''a'', Insufficient 1)], 0)"
  by (simp add: Cusum_def cusum_ws_def shifts_in_def DefaultCusum_def Let_def)

text \<open>Broken text ends the series, and a value of another shape takes the one after it along.\<close>

lemma broken_line_ends_series: "ReadJSONL (map Good xs @ Broken # is) = xs"
  by (induction xs) simp_all

lemma mistyped_takes_next: "ReadJSONL (Mistyped # Good v # is) = ReadJSONL is"
  by simp

text \<open>Percentages are cut, not rounded: a tolerance of 0.29 is printed as 28.\<close>

lemma percent_cut: "percent (f64 (29 / 100)) = 28"
  by code_simp

subsection \<open>a reseed changes what it says\<close>

text \<open>The floor a reseed gives a workspace, if it gives one.\<close>

definition reseeds_to :: "baseline \<Rightarrow> string \<Rightarrow> string gomap \<Rightarrow> (string \<Rightarrow> int) \<Rightarrow> string \<Rightarrow> int option" where
  "reseeds_to b target wsDirs best ws =
     (case (map_of (sub (floors b) ws) target, map_of wsDirs ws) of
        (Some old, Some dir) \<Rightarrow> if 0 < best dir \<and> best dir \<noteq> old then Some (best dir) else None
      | _ \<Rightarrow> None)"

definition change_of :: "baseline \<Rightarrow> string \<Rightarrow> string gomap \<Rightarrow> (string \<Rightarrow> int) \<Rightarrow> string \<Rightarrow> reseed_change option" where
  "change_of b target wsDirs best ws = map_option (\<lambda>n. \<lparr>rc_ws = ws, rc_from = num (sub (floors b) ws) target, rc_to = n\<rparr>)
     (reseeds_to b target wsDirs best ws)"

definition same_but_floors :: "baseline \<Rightarrow> baseline \<Rightarrow> bool" where
  "same_but_floors b b' \<longleftrightarrow> version b' = version b \<and> tolerance b' = tolerance b \<and> regimes b' = regimes b
     \<and> rate_floors b' = rate_floors b \<and> floors_archive b' = floors_archive b"

lemma reseed_fold:
  assumes "distinct wss"
  shows "fold (reseed_ws target wsDirs best) wss (b, []) = (b', changed) \<Longrightarrow>
    (\<forall>ws t. map_of (sub (floors b') ws) t =
       (if ws \<in> set wss \<and> t = target \<and> reseeds_to b target wsDirs best ws \<noteq> None
        then reseeds_to b target wsDirs best ws else map_of (sub (floors b) ws) t)) \<and>
    same_but_floors b b' \<and> changed = List.map_filter (change_of b target wsDirs best) wss"
  using assms
proof (induction wss arbitrary: b' changed rule: rev_induct)
  case Nil
  then show ?case by (simp add: same_but_floors_def)
next
  case (snoc w wss)
  obtain b1 ch1 where f: "fold (reseed_ws target wsDirs best) wss (b, []) = (b1, ch1)"
    by (cases "fold (reseed_ws target wsDirs best) wss (b, [])")
  have w: "w \<notin> set wss" "distinct wss" using snoc.prems(2) by simp_all
  note ih = snoc.IH [OF f w(2)]
  have last: "reseed_ws target wsDirs best w (b1, ch1) = (b', changed)" using snoc.prems(1) f by simp
  have old: "map_of (sub (floors b1) w) target = map_of (sub (floors b) w) target" using ih w by simp
  show ?case
  proof (cases "reseeds_to b target wsDirs best w")
    case None
    then have "(b', changed) = (b1, ch1)"
      using last old by (auto simp: reseed_ws_def reseeds_to_def split: option.splits if_splits)
    moreover have "(ws \<in> set (wss @ [w]) \<and> t = target \<and> reseeds_to b target wsDirs best ws \<noteq> None) =
        (ws \<in> set wss \<and> t = target \<and> reseeds_to b target wsDirs best ws \<noteq> None)" for ws t
      using None by auto
    moreover have "List.map_filter (change_of b target wsDirs best) [w] = []"
      using None by (simp add: change_of_def List.map_filter_def)
    ultimately show ?thesis using ih by (simp only: map_filter_append prod.inject append_Nil2 simp_thms)
  next
    case (Some n)
    then obtain o' where o': "map_of (sub (floors b) w) target = Some o'"
      by (auto simp: reseeds_to_def split: option.splits)
    then have "b' = b1\<lparr>floors := AList.update w (AList.update target n (sub (floors b1) w)) (floors b1)\<rparr>"
      "changed = ch1 @ [\<lparr>rc_ws = w, rc_from = o', rc_to = n\<rparr>]"
      using last old Some by (auto simp: reseed_ws_def reseeds_to_def split: option.splits if_splits)
    then show ?thesis using ih w Some o'
      by (auto simp: map_filter_append change_of_def num_def same_but_floors_def List.map_filter_def)
  qed
qed

lemma rated_judgement:
  assumes "same_but_floors b b'" and "map_of (sub (rate_floors b) ws) (o_target ob) \<noteq> None" and "0 < o_rate ob"
  shows "j_outcome (judge_obs b' ws acks ob) = j_outcome (judge_obs b ws acks ob)"
proof -
  obtain r where r: "map_of (sub (rate_floors b) ws) (o_target ob) = Some r" using assms(2) by blast
  have "rate_floors b' = rate_floors b" "tol b' = tol b" using assms(1) by (simp_all add: same_but_floors_def tol_def)
  then show ?thesis using r assms(3) by (simp add: judge_obs_def Let_def judge_def split: option.split)
qed

text \<open>An observation that is not judged by a rate is judged by the reseeded floor; those of other targets as before.\<close>

lemma reseeded_judgement:
  assumes "same_but_floors b b'" and "map_of (sub (floors b') ws) (o_target ob) = Some v"
    and "map_of (sub (rate_floors b) ws) (o_target ob) = None \<or> \<not> 0 < o_rate ob"
    and "o_regime ob = [] \<or> str (sub (regimes b) ws) (o_target ob) = o_regime ob"
  shows "j_outcome (judge_obs b' ws acks ob) =
    (if f64_of_int (o_execs ob) \<ge> f64_mul (f64_of_int v) (tol b) then Pass
     else if map_of acks (o_target ob) = None then Regressed else Acknowledged)"
proof -
  have "rate_floors b' = rate_floors b" "regimes b' = regimes b" "tol b' = tol b"
    using assms(1) by (simp_all add: same_but_floors_def tol_def)
  then show ?thesis
    using assms(2-4) by (cases "map_of (sub (rate_floors b) ws) (o_target ob)") (auto simp: judge_obs_def judge_outcome Let_def)
qed

lemma other_judgement:
  assumes "same_but_floors b b'" and "map_of (sub (floors b') ws) (o_target ob) = map_of (sub (floors b) ws) (o_target ob)"
  shows "judge_obs b' ws acks ob = judge_obs b ws acks ob"
proof -
  have e: "rate_floors b' = rate_floors b" "regimes b' = regimes b" "tol b' = tol b"
    using assms(1) by (simp_all add: same_but_floors_def tol_def)
  show ?thesis unfolding judge_obs_def Let_def num_def e assms(2) ..
qed

text \<open>
  C12: A reseed changes exactly what it says and says what it changed. Without a reason it is refused and
  nothing changes. Otherwise the floors of the one target move, and only in the workspaces that have one,
  have a directory and have a qualifying round with another count, each to that count; every other floor,
  every regime, rate and archived floor stays, and the changes listed, in the order of the workspaces, are
  recorded with the reason exactly when there are any. Afterwards an observation of that target whose rate was
  measured, where it has a rate floor, comes out as before whatever it was reseeded to; one that is not judged by
  a rate and whose regime is that of the floor is judged by the floor it was reseeded to; and every observation
  of another target is judged as before.
\<close>

theorem reseed_changes_what_it_says:
  assumes "Reseed target since reason wsDirs best (b, rs) = ((b', rs'), out)" and "wf_map (floors b)"
    and "new = reseeds_to b target wsDirs (\<lambda>dir. best dir target since)"
  shows "(if reason = [] then out = None \<and> b' = b \<and> rs' = rs
    else
     (\<forall>ws t. map_of (sub (floors b') ws) t = (if t = target \<and> new ws \<noteq> None then new ws else map_of (sub (floors b) ws) t)) \<and>
     same_but_floors b b' \<and>
     (\<exists>changed. out = Some changed \<and>
        changed = List.map_filter (change_of b target wsDirs (\<lambda>dir. best dir target since)) (sort (map fst (floors b))) \<and>
        rs' = (if changed = [] then rs else rs @ [\<lparr>rr_target = target, rr_since = since, rr_reason = reason, rr_changed = changed\<rparr>])) \<and>
     (\<forall>ws acks ob. o_target ob = target \<and> map_of (sub (rate_floors b) ws) target \<noteq> None \<and> 0 < o_rate ob \<longrightarrow>
        j_outcome (judge_obs b' ws acks ob) = j_outcome (judge_obs b ws acks ob)) \<and>
     (\<forall>ws acks ob v. o_target ob = target \<and> new ws = Some v \<and> (map_of (sub (rate_floors b) ws) target = None \<or> \<not> 0 < o_rate ob) \<and>
        (o_regime ob = [] \<or> str (sub (regimes b) ws) target = o_regime ob) \<longrightarrow>
        j_outcome (judge_obs b' ws acks ob) =
          (if f64_of_int (o_execs ob) \<ge> f64_mul (f64_of_int v) (tol b) then Pass
           else if map_of acks target = None then Regressed else Acknowledged)) \<and>
     (\<forall>ws acks ob. o_target ob \<noteq> target \<longrightarrow> judge_obs b' ws acks ob = judge_obs b ws acks ob))"
proof (cases "reason = []")
  case True
  then show ?thesis using assms(1) by (simp add: Reseed_def)
next
  case False
  let ?best = "\<lambda>dir. best dir target since"
  obtain c ch where f: "fold (reseed_ws target wsDirs ?best) (sort (map fst (floors b))) (b, []) = (c, ch)"
    by (cases "fold (reseed_ws target wsDirs ?best) (sort (map fst (floors b))) (b, [])")
  have "distinct (sort (map fst (floors b)))" using assms(2) by simp
  from reseed_fold [OF this f] have r:
    "\<forall>ws t. map_of (sub (floors c) ws) t = (if ws \<in> set (map fst (floors b)) \<and> t = target \<and> new ws \<noteq> None
        then new ws else map_of (sub (floors b) ws) t)"
    "same_but_floors b c" "ch = List.map_filter (change_of b target wsDirs ?best) (sort (map fst (floors b)))"
    unfolding assms(3) by simp_all
  have "ws \<in> set (map fst (floors b))" if "new ws \<noteq> None" for ws
  proof (rule ccontr)
    assume "ws \<notin> set (map fst (floors b))"
    then have "sub (floors b) ws = []" by (simp add: sub_def map_of_eq_None_iff [THEN iffD2] split: option.split)
    with that show False by (simp add: assms(3) reseeds_to_def)
  qed
  then have fl: "\<forall>ws t. map_of (sub (floors c) ws) t = (if t = target \<and> new ws \<noteq> None then new ws else map_of (sub (floors b) ws) t)"
    using r(1) by auto
  have "b' = c" "out = Some ch"
    "rs' = (if ch = [] then rs else rs @ [\<lparr>rr_target = target, rr_since = since, rr_reason = reason, rr_changed = ch\<rparr>])"
    using assms(1) False f by (auto simp: Reseed_def Let_def split: if_splits)
  moreover have "\<forall>ws acks ob. o_target ob = target \<and> map_of (sub (rate_floors b) ws) target \<noteq> None \<and> 0 < o_rate ob \<longrightarrow>
        j_outcome (judge_obs c ws acks ob) = j_outcome (judge_obs b ws acks ob)"
    using rated_judgement [OF r(2)] by blast
  moreover have "\<forall>ws acks ob v. o_target ob = target \<and> new ws = Some v \<and> (map_of (sub (rate_floors b) ws) target = None \<or> \<not> 0 < o_rate ob) \<and>
        (o_regime ob = [] \<or> str (sub (regimes b) ws) target = o_regime ob) \<longrightarrow>
        j_outcome (judge_obs c ws acks ob) =
          (if f64_of_int (o_execs ob) \<ge> f64_mul (f64_of_int v) (tol b) then Pass
           else if map_of acks target = None then Regressed else Acknowledged)"
    using reseeded_judgement [OF r(2)] fl by auto
  moreover have "\<forall>ws acks ob. o_target ob \<noteq> target \<longrightarrow> judge_obs c ws acks ob = judge_obs b ws acks ob"
    using other_judgement [OF r(2)] fl by simp
  ultimately show ?thesis using False r(2,3) fl by (simp only: if_False simp_thms) blast
qed

definition broken_fast :: baseline where
  "broken_fast = \<lparr>version = 1, tolerance = 1 / 10, floors = [(''pg17'', [(''t'', 21171256)])], regimes = [],
     rate_floors = [(''pg17'', [(''t'', 40000)])], floors_archive = []\<rparr>"

theorem reseed_changes_what_it_says_witness:
  "\<exists>b'. fst (Reseed ''t'' ''2026'' ''fixed'' [(''pg17'', ''d'')] (\<lambda>_ _ _. 1500000) (broken_fast, [])) = (b', [\<lparr>rr_target = ''t'',
       rr_since = ''2026'', rr_reason = ''fixed'', rr_changed = [\<lparr>rc_ws = ''pg17'', rc_from = 21171256, rc_to = 1500000\<rparr>]\<rparr>])
     \<and> map_of (sub (floors b') ''pg17'') ''t'' = Some 1500000
     \<and> j_outcome (judge_obs b' ''pg17'' [] \<lparr>o_target = ''t'', o_execs = 6900000, o_rate = 2000, o_new_units = 0, o_regime = []\<rparr>) = Regressed"
proof -
  let ?best = "\<lambda>(_ :: string) (_ :: string) (_ :: string). 1500000 :: int"
  let ?ob = "\<lparr>o_target = ''t'', o_execs = 6900000, o_rate = 2000, o_new_units = 0, o_regime = []\<rparr>"
  obtain b' rs' out where e: "Reseed ''t'' ''2026'' ''fixed'' [(''pg17'', ''d'')] ?best (broken_fast, []) = ((b', rs'), out)"
    by (metis prod.exhaust)
  have wf: "wf_map (floors broken_fast)" by (simp add: broken_fast_def)
  note all = reseed_changes_what_it_says [OF e wf refl]
  have new: "reseeds_to broken_fast ''t'' [(''pg17'', ''d'')] (\<lambda>dir. ?best dir ''t'' ''2026'') ''pg17'' = Some 1500000"
    by (simp add: reseeds_to_def broken_fast_def sub_def)
  have "rs' = [\<lparr>rr_target = ''t'', rr_since = ''2026'', rr_reason = ''fixed'',
      rr_changed = [\<lparr>rc_ws = ''pg17'', rc_from = 21171256, rc_to = 1500000\<rparr>]\<rparr>]"
    using e by (simp add: Reseed_def Let_def reseed_ws_def broken_fast_def sub_def)
  moreover have "map_of (sub (floors b') ''pg17'') ''t'' = Some 1500000" using all new by simp
  moreover have "j_outcome (judge_obs broken_fast ''pg17'' [] ?ob) = Regressed"
    by code_simp
  then have "j_outcome (judge_obs b' ''pg17'' [] ?ob) = Regressed"
    using all by (simp add: broken_fast_def sub_def)
  ultimately show ?thesis using e by simp
qed

end
