(* ===== verification/Repro.thy ===== *)
theory Repro
  imports Go_Regexp Go_Map "HOL-Library.Product_Lexorder" "HOL-Library.Multiset"
begin

text \<open>
  Running one recorded input against one target and judging the result (\<open>internal/repro/repro.go\<close>), and
  the same for every artifact of a workspace, grouped by a normalised signature
  (\<open>internal/repro/sweep.go\<close>, \<open>cmd/pgfuzz/sweep_triage.go\<close>).

  What the file system, docker and the clock answer for one run is the record \<open>run_env\<close>; the verdict is a
  function of it.
\<close>

subsection \<open>one run\<close>

datatype verdict = Error | Reproduced | Clean

fun verdict_string :: "verdict \<Rightarrow> string" where
  "verdict_string Reproduced = ''REPRODUCED''"
| "verdict_string Clean = ''clean''"
| "verdict_string Error = ''ERROR''"

record request =
  Image :: string
  Out :: string
  Target :: string
  Input :: string
  Runs :: int
  Scratch :: string

record run_env =
  re_built :: bool
  re_abs :: "string option"
  re_input :: bool
  re_real_out :: "string option"
  re_rundir :: "string option"
  re_mkdir :: bool
  re_rundir_again :: "string option"
  re_self :: "string option"
  re_real_self :: "string option"
  re_timed_out :: bool
  re_output :: string
  re_failed :: bool

record result =
  Verdict :: verdict
  Signature :: string
  Failed :: bool

definition not_run :: result where "not_run = \<lparr>Verdict = Error, Signature = [], Failed = True\<rparr>"

text \<open>The whole line a pattern matches in, as group 0.\<close>

definition line_of :: "re \<Rightarrow> re" where
  "line_of r = Seq LineBol (Group 0 (Seq r (Seq (Star any) LineEol)))"

definition find_line :: "re \<Rightarrow> string \<Rightarrow> string" where
  "find_line r s = (case find_re (line_of r) s of None \<Rightarrow> [] | Some g \<Rightarrow> grp g 0)"

definition word :: re where "word = plus (Class is_word)"

definition crashLines :: "re list" where
  "crashLines =
     [seqs [lit ''=='', digits, lit ''==ERROR: '', word, lit ''Sanitizer: ''],
      seqs [lit ''SUMMARY: '', word, lit ''Sanitizer: ''],
      seqs [Star any, lit ''runtime error: ''],
      lit ''TRAP: failed Assert('',
      seqs [lit ''=='', digits, lit ''== ERROR: libFuzzer: '']]"

definition setupLine :: re where
  "setupLine = seqs [Star any, Group 1 (alts [lit_ci ''Unable to find image'', lit_ci ''no such file or directory'',
     lit_ci ''permission denied'', lit_ci ''Cannot connect to the Docker daemon''])]"

text \<open>What the output and the exit say, once a container ran.\<close>

fun first_line :: "re list \<Rightarrow> string \<Rightarrow> string" where
  "first_line [] s = []"
| "first_line (r # rs) s = (if find_line r s \<noteq> [] then find_line r s else first_line rs s)"

definition judge :: "string \<Rightarrow> bool \<Rightarrow> result" where
  "judge out failed =
     (if find_line setupLine out \<noteq> [] then not_run
      else if first_line crashLines out \<noteq> []
      then \<lparr>Verdict = Reproduced, Signature = trim_space (first_line crashLines out), Failed = False\<rparr>
      else if failed then not_run
      else \<lparr>Verdict = Clean, Signature = [], Failed = False\<rparr>)"

definition Run :: "run_env \<Rightarrow> result" where
  "Run e =
     (if \<not> re_built e then not_run
      else if re_abs e = None then not_run
      else if \<not> re_input e then not_run
      else if re_rundir e = None \<and> (\<not> re_mkdir e \<or> re_rundir_again e = None) then not_run
      else if re_self e = None then not_run
      else if re_timed_out e then not_run
      else judge (re_output e) (re_failed e))"

text \<open>The scratch the overlay's upper layer goes in, and the command line of the container.\<close>

definition path_dir :: "string \<Rightarrow> string" where
  "path_dir p = (case last_index (CHR ''/'') p of None \<Rightarrow> ''.'' | Some 0 \<Rightarrow> ''/'' | Some i \<Rightarrow> take i p)"

definition scratch_of :: "request \<Rightarrow> string option \<Rightarrow> string" where
  "scratch_of r real_out =
     (if Scratch r \<noteq> [] then Scratch r
      else path_dir (case real_out of None \<Rightarrow> Out r | Some resolved \<Rightarrow> resolved) @ ''/reprotmp'')"

definition run_args :: "request \<Rightarrow> string \<Rightarrow> string \<Rightarrow> string \<Rightarrow> string list" where
  "run_args r rundir input self =
     [''run'', ''--privileged'', ''--shm-size=2g'', ''--platform'', ''linux/amd64'', ''--rm'',
      ''-e'', ''HELPER=True'', ''-e'', ''ARCHITECTURE=x86_64'',
      ''-v'', Out r @ '':/out-lower:ro'', ''-v'', rundir @ '':/run-ovl'', ''-v'', input @ '':/testcase'',
      ''-v'', self @ '':/pgfuzz:ro'', ''--entrypoint'', ''/pgfuzz'', ''-t'', Image r,
      ''_repro'', Target r, ''-runs='' @ itoa (if Runs r = 0 then 100 else Runs r)]"

lemma judge_total:
  "Verdict (judge out failed) = Reproduced \<longleftrightarrow> find_line setupLine out = [] \<and> first_line crashLines out \<noteq> []"
  "Verdict (judge out failed) = Clean \<longleftrightarrow>
     find_line setupLine out = [] \<and> first_line crashLines out = [] \<and> \<not> failed"
  by (simp_all add: judge_def not_run_def)

subsection \<open>every artifact of a workspace\<close>

definition rePID :: re where "rePID = seqs [lit ''=='', digits, lit ''=='']"

definition NormaliseSignature :: "string \<Rightarrow> string" where
  "NormaliseSignature s =
     take 160 (replace_re (lit ''/src/postgres/'') []
       (replace_re (lit ''/src/postgres/bld/../'') [] (replace_re rePID ''=='' (trim_space s))))"

definition IsArtifact :: "string \<Rightarrow> bool" where
  "IsArtifact name \<longleftrightarrow> list_ex (has_prefix name) [''crash-'', ''leak-'', ''timeout-'', ''oom-'']"

record sweep_result =
  sr_target :: string
  sr_artifact :: string
  sr_verdict :: verdict
  sr_signature :: string

text \<open>A directory entry: its name, whether it is a directory, whether an execute bit is set.\<close>

type_synonym dirent = "string \<times> bool \<times> bool"

definition builtTargets :: "dirent list \<Rightarrow> string list" where
  "builtTargets ents = sort (map fst (filter (\<lambda>(n, dir, exec). \<not> dir \<and> has_suffix n ''_fuzzer'' \<and> exec) ents))"

definition sweep_one :: "(string \<Rightarrow> string \<Rightarrow> run_env) \<Rightarrow> string \<Rightarrow> string \<Rightarrow> sweep_result" where
  "sweep_one env target a =
     (let res = Run (env target a); sg = NormaliseSignature (Signature res)
      in \<lparr>sr_target = target, sr_artifact = a, sr_verdict = Verdict res,
          sr_signature = (if sg = [] then ''NO-SIGNATURE ('' @ verdict_string (Verdict res) @ '')'' else sg)\<rparr>)"

text \<open>\<open>Sweep\<close>: \<open>None\<close> is a refusal. The directories of artifacts are those the glob \<open>*_fuzzer\<close> lists.\<close>

definition Sweep ::
  "string \<Rightarrow> dirent list option \<Rightarrow> (string \<times> dirent list) list \<Rightarrow> (string \<Rightarrow> string \<Rightarrow> run_env) \<Rightarrow> sweep_result list option"
where
  "Sweep sanitizer out_ents dirs env =
     (if sanitizer = ''coverage'' \<or> sanitizer = ''none'' then None
      else case out_ents of
        None \<Rightarrow> None
      | Some ents \<Rightarrow>
          let targets = builtTargets ents
          in if targets = [] then None
             else Some (concat (map (\<lambda>(d, arts). if d \<notin> set targets then []
                  else map (sweep_one env d) (map fst (filter (\<lambda>(n, dir, x). \<not> dir \<and> IsArtifact n) arts)))
                (sort_key fst dirs))))"

definition GroupBySignature :: "sweep_result list \<Rightarrow> (string \<times> sweep_result list) list" where
  "GroupBySignature rs = fold (\<lambda>r m. AList.update (sr_signature r) (sub m (sr_signature r) @ [r]) m) rs []"

text \<open>What \<open>triage-sweep\<close> prints: the groups, the largest first, each with its targets.\<close>

definition sweep_report :: "sweep_result list \<Rightarrow> (nat \<times> string \<times> string list) list" where
  "sweep_report rs =
     (let groups = GroupBySignature rs
      in map (\<lambda>s. (length (sub groups s), s, sort (remdups (map sr_target (sub groups s)))))
           (sort_key (\<lambda>s. (- int (length (sub groups s)), s)) (map fst groups)))"

definition triage_exit :: "sweep_result list option \<Rightarrow> int" where
  "triage_exit r = (case r of None \<Rightarrow> 2 | Some _ \<Rightarrow> 0)"

lemma rtrim_append:
  "\<not> P (last x) \<Longrightarrow> x \<noteq> [] \<Longrightarrow> rev (dropWhile P (rev (x @ r))) = x @ rev (dropWhile P (rev r))"
  by (cases x rule: rev_cases) (auto simp: dropWhile_append dropWhile_eq_Nil_conv)

lemma trim_keeps_front:
  assumes "x \<noteq> []" and "\<not> P (hd x)" and "\<not> P (last x)"
  shows "trim_by P (x @ r) = x @ rev (dropWhile P (rev r))"
proof -
  have "dropWhile P (x @ r) = x @ r" using assms(1,2) by (cases x) auto
  then show ?thesis using rtrim_append [of P x r] assms by (simp add: trim_by_def)
qed

lemma pid_replaced:
  assumes "list_all is_digit ds" and "ds \<noteq> []"
  shows "replace_re rePID ''=='' (''=='' @ ds @ ''=='' @ r) = ''=='' @ replace_from rePID ''=='' (Some (CHR ''='')) r"
proof -
  let ?s = "''=='' @ ds @ ''=='' @ r"
  have "firstly (lit ''=='') (None, ?s, []) (Some (CHR ''=''), ds @ ''=='' @ r, [])"
    using firstly_lit [of "''==''" None "ds @ ''=='' @ r" "[]"] by simp
  moreover have "firstly digits (Some (CHR ''=''), ds @ ''=='' @ r, []) (end_of (Some (CHR ''='')) ds, ''=='' @ r, [])"
    unfolding digits_def by (rule firstly_plus_class) (use assms in auto)
  moreover have "firstly (lit ''=='') (end_of (Some (CHR ''='')) ds, ''=='' @ r, []) (Some (CHR ''=''), r, [])"
    using firstly_lit [of "''==''" "end_of (Some (CHR ''='')) ds" r "[]"] by simp
  ultimately have "firstly rePID (None, ?s, []) (Some (CHR ''=''), r, [])"
    unfolding rePID_def seqs.simps by (intro firstly_seq)
  then obtain qs where "matches rePID (None, CHR ''='' # CHR ''='' # ds @ ''=='' @ r, []) = (Some (CHR ''=''), r, []) # qs"
    by (auto simp: firstly_def)
  then show ?thesis unfolding replace_re_def by simp
qed

text \<open>The process id of the run that reported a crash is no part of its signature.\<close>

lemma signature_ignores_pid:
  assumes "list_all is_digit ds" "ds \<noteq> []" "list_all is_digit ds'" "ds' \<noteq> []"
  shows "NormaliseSignature (''=='' @ ds @ ''=='' @ r) = NormaliseSignature (''=='' @ ds' @ ''=='' @ r)"
proof -
  let ?t = "rev (dropWhile is_space (rev r))"
  have "trim_space (''=='' @ ds @ ''=='' @ r) = ''=='' @ ds @ ''=='' @ ?t" for ds
    using trim_keeps_front [of "''=='' @ ds @ ''==''" is_space r] by (simp add: is_space_def)
  then show ?thesis
    unfolding NormaliseSignature_def by (simp only: pid_replaced [OF assms(1,2)] pid_replaced [OF assms(3,4)])
qed

lemma group_is_filter: "sub (GroupBySignature rs) s = filter (\<lambda>r. sr_signature r = s) rs"
proof (induction rs rule: rev_induct)
  case (snoc r rs)
  then show ?case by (cases "s = sr_signature r") (auto simp: GroupBySignature_def)
qed (simp add: GroupBySignature_def)

lemma group_keys: "wf_map (GroupBySignature rs) \<and> fst ` set (GroupBySignature rs) = sr_signature ` set rs"
proof (induction rs rule: rev_induct)
  case (snoc r rs)
  then show ?case
    by (simp add: GroupBySignature_def dom_map_of_conv_image_fst [symmetric]) 
qed (simp add: GroupBySignature_def)

lemma sum_one_key: "distinct ks \<Longrightarrow> x \<in> set ks \<Longrightarrow> sum_list (map (\<lambda>k. if x = k then 1 else 0) ks) = (1 :: nat)"
proof (induction ks)
  case (Cons a ks)
  have "x \<notin> set ks \<Longrightarrow> sum_list (map (\<lambda>k. if x = k then 1 else 0) ks) = (0 :: nat)" by (induction ks) auto
  with Cons show ?case by auto
qed simp

lemma count_by_key:
  assumes "distinct ks" and "f ` set rs \<subseteq> set ks"
  shows "sum_list (map (\<lambda>k. length (filter (\<lambda>r. f r = k) rs)) ks) = length rs"
  using assms(2)
proof (induction rs)
  case (Cons r rs)
  have "sum_list (map (\<lambda>k. if f r = k then 1 else 0) ks) = (1 :: nat)"
    using assms(1) Cons.prems by (intro sum_one_key) auto
  moreover have "length (filter (\<lambda>r'. f r' = k) (r # rs)) = (if f r = k then 1 else 0) + length (filter (\<lambda>r'. f r' = k) rs)" for k
    by simp
  ultimately show ?case using Cons by (simp only: sum_list_addf) simp
qed simp

lemma sum_list_sort_key: "sum_list (map f (sort_key g xs)) = sum_list (map f xs :: nat list)"
  by (metis mset_map mset_sort sum_mset_sum_list)

lemma report_counts: "sum_list (map fst (sweep_report rs)) = length rs"
proof -
  have g: "distinct (map fst (GroupBySignature rs))" "sr_signature ` set rs \<subseteq> set (map fst (GroupBySignature rs))"
    using group_keys [of rs] by auto
  have "sum_list (map fst (sweep_report rs)) =
      sum_list (map (\<lambda>s. length (sub (GroupBySignature rs) s)) (map fst (GroupBySignature rs)))"
    by (simp only: sweep_report_def Let_def map_map comp_def fst_conv) (simp only: sum_list_sort_key map_map comp_def)
  also have "\<dots> = length rs" unfolding group_is_filter by (rule count_by_key [OF g])
  finally show ?thesis .
qed

lemma report_sorted: "sorted (map (\<lambda>(n, s, ts). (- int n, s)) (sweep_report rs))"
proof -
  have "map (\<lambda>(n, s, ts). (- int n, s)) (sweep_report rs) =
      map (\<lambda>s. (- int (length (sub (GroupBySignature rs) s)), s))
        (sort_key (\<lambda>s. (- int (length (sub (GroupBySignature rs) s)), s)) (map fst (GroupBySignature rs)))"
    by (simp add: sweep_report_def Let_def)
  then show ?thesis by (simp only: sorted_sort_key)
qed

lemma sweep_one_signature: "sr_signature (sweep_one env t a) \<noteq> []"
  by (simp add: sweep_one_def Let_def)

lemma sweep_set:
  assumes "Sweep san out_ents dirs env = Some rs"
  shows "r \<in> set rs \<longleftrightarrow> (\<exists>d arts a x. (d, arts) \<in> set dirs \<and> d \<in> set (builtTargets (the out_ents)) \<and>
      (a, False, x) \<in> set arts \<and> IsArtifact a \<and> r = sweep_one env d a)"
proof -
  let ?f = "\<lambda>(d, arts). if d \<notin> set (builtTargets (the out_ents)) then []
      else map (sweep_one env d) (map fst (filter (\<lambda>(n, dir, x). \<not> dir \<and> IsArtifact n) arts))"
  have rs: "rs = concat (map ?f (sort_key fst dirs))"
    using assms by (simp add: Sweep_def Let_def split: option.splits if_splits)
  have "r \<in> set (?f (d, arts)) \<longleftrightarrow> d \<in> set (builtTargets (the out_ents)) \<and>
      (\<exists>a x. (a, False, x) \<in> set arts \<and> IsArtifact a \<and> r = sweep_one env d a)" for d arts
    by (auto simp: image_iff) blast
  then show ?thesis unfolding rs by (simp only: set_concat set_map set_sort UN_iff image_iff) fast
qed

lemma sweep_one_sel: "sr_target (sweep_one env d a) = d" "sr_artifact (sweep_one env d a) = a"
  by (simp_all add: sweep_one_def Let_def)

text \<open>The reproducers lying in the artifact directories of built targets, each with its target.\<close>

definition reproducers :: "string list \<Rightarrow> (string \<times> dirent list) list \<Rightarrow> (string \<times> string) list" where
  "reproducers built dirs = concat (map (\<lambda>(d, ents).
     if d \<in> set built then map (\<lambda>(n, _, _). (d, n)) (filter (\<lambda>(n, dir, _). \<not> dir \<and> IsArtifact n) ents) else []) dirs)"

lemma concat_mset: "mset (concat (map f ds)) = sum_mset (image_mset (\<lambda>e. mset (f e)) (mset ds))"
  by (induction ds) simp_all

lemma map_concat_map: "(\<And>e. map g (f e) = h e) \<Longrightarrow> map g (concat (map f ds)) = concat (map h ds)"
  by (induction ds) simp_all

lemma sweep_names:
  assumes "Sweep san out_ents dirs env = Some rs"
  shows "mset (map (\<lambda>r. (sr_target r, sr_artifact r)) rs) = mset (reproducers (builtTargets (the out_ents)) dirs)"
proof -
  let ?f = "\<lambda>(d, arts). if d \<notin> set (builtTargets (the out_ents)) then []
      else map (sweep_one env d) (map fst (filter (\<lambda>(n, dir, x). \<not> dir \<and> IsArtifact n) arts))"
  have rs: "rs = concat (map ?f (sort_key fst dirs))"
    using assms by (simp add: Sweep_def Let_def split: option.splits if_splits)
  have f: "map (\<lambda>r. (sr_target r, sr_artifact r)) (?f e) =
      (case e of (d, ents) \<Rightarrow> if d \<in> set (builtTargets (the out_ents))
         then map (\<lambda>(n, _, _). (d, n)) (filter (\<lambda>(n, dir, _). \<not> dir \<and> IsArtifact n) ents) else [])" for e
    by (cases e) (simp add: sweep_one_sel case_prod_beta)
  have "map (\<lambda>r. (sr_target r, sr_artifact r)) rs = reproducers (builtTargets (the out_ents)) (sort_key fst dirs)"
    unfolding rs reproducers_def by (rule map_concat_map, rule f)
  moreover have "mset (reproducers bs (sort_key fst dirs)) = mset (reproducers bs dirs)" for bs
    unfolding reproducers_def concat_mset mset_sort ..
  ultimately show ?thesis by (simp only:)
qed

text \<open>
  C18: Sweeping a workspace accounts for every artifact once, by defect. Each reproducer lying in the
  directory of a built target has exactly one result and nothing else has one, each result a signature, and a
  build that cannot report a crash or has no target is refused instead of coming out clean; in what is printed
  each result is counted in one group, the one of its signature, the largest group first; and two
  sanitizer lines that differ only in the process id they begin with have one signature.
\<close>

theorem sweep_accounts_for_artifacts:
  "(case Sweep san out_ents dirs env of
      None \<Rightarrow> san = ''coverage'' \<or> san = ''none'' \<or> out_ents = None \<or> builtTargets (the out_ents) = []
    | Some rs \<Rightarrow> san \<noteq> ''coverage'' \<and> san \<noteq> ''none'' \<and>
        mset (map (\<lambda>r. (sr_target r, sr_artifact r)) rs) = mset (reproducers (builtTargets (the out_ents)) dirs) \<and>
        (\<forall>r. r \<in> set rs \<longrightarrow> sr_signature r \<noteq> [])) \<and>
   sum_list (map fst (sweep_report rs')) = length rs' \<and>
   (\<forall>n s ts. (n, s, ts) \<in> set (sweep_report rs') \<longrightarrow>
      n = length (filter (\<lambda>r. sr_signature r = s) rs') \<and> set ts = sr_target ` {r. r \<in> set rs' \<and> sr_signature r = s}) \<and>
   sorted (map (\<lambda>(n, s, ts). (- int n, s)) (sweep_report rs')) \<and>
   (\<forall>pid pid' line. list_all is_digit pid \<and> pid \<noteq> [] \<and> list_all is_digit pid' \<and> pid' \<noteq> [] \<longrightarrow>
      NormaliseSignature (''=='' @ pid @ ''=='' @ line) = NormaliseSignature (''=='' @ pid' @ ''=='' @ line))"
proof (intro conjI allI impI)
  show "case Sweep san out_ents dirs env of
      None \<Rightarrow> san = ''coverage'' \<or> san = ''none'' \<or> out_ents = None \<or> builtTargets (the out_ents) = []
    | Some rs \<Rightarrow> san \<noteq> ''coverage'' \<and> san \<noteq> ''none'' \<and>
        mset (map (\<lambda>r. (sr_target r, sr_artifact r)) rs) = mset (reproducers (builtTargets (the out_ents)) dirs) \<and>
        (\<forall>r. r \<in> set rs \<longrightarrow> sr_signature r \<noteq> [])"
  proof (cases "Sweep san out_ents dirs env")
    case None
    then show ?thesis
      unfolding Sweep_def Let_def by (cases out_ents) (simp_all only: option.case option.sel split: if_splits, simp_all, fast?)
  next
    case (Some rs)
    then have "san \<noteq> ''coverage'' \<and> san \<noteq> ''none''" by (simp add: Sweep_def split: if_splits)
    moreover have "\<forall>r. r \<in> set rs \<longrightarrow> sr_signature r \<noteq> []"
      using sweep_one_signature by (metis sweep_set [OF Some])
    ultimately show ?thesis unfolding Some option.case using sweep_names [OF Some] by blast
  qed
next
  fix n s ts assume "(n, s, ts) \<in> set (sweep_report rs')"
  then show "n = length (filter (\<lambda>r. sr_signature r = s) rs')"
    and "set ts = sr_target ` {r. r \<in> set rs' \<and> sr_signature r = s}"
    by (auto simp: sweep_report_def Let_def group_is_filter)
next
  fix pid pid' line :: string
  assume "list_all is_digit pid \<and> pid \<noteq> [] \<and> list_all is_digit pid' \<and> pid' \<noteq> []"
  then show "NormaliseSignature (''=='' @ pid @ ''=='' @ line) = NormaliseSignature (''=='' @ pid' @ ''=='' @ line)"
    by (intro signature_ignores_pid) auto
qed (rule report_counts report_sorted)+

theorem sweep_accounts_for_artifacts_witness:
  "NormaliseSignature ''==21==ERROR: AddressSanitizer: SEGV'' = NormaliseSignature ''==7==ERROR: AddressSanitizer: SEGV''
   \<and> Sweep ''coverage'' None [] (\<lambda>_ _. undefined) = None"
proof -
  note all = sweep_accounts_for_artifacts [of "''coverage''" None "[]" "\<lambda>_ _. undefined" "[]"]
  have "list_all is_digit ''21'' \<and> ''21'' \<noteq> [] \<and> list_all is_digit ''7'' \<and> ''7'' \<noteq> []" by (simp add: is_digit_def)
  with all have "NormaliseSignature (''=='' @ ''21'' @ ''=='' @ ''ERROR: AddressSanitizer: SEGV'') =
      NormaliseSignature (''=='' @ ''7'' @ ''=='' @ ''ERROR: AddressSanitizer: SEGV'')" by blast
  then show ?thesis by (simp add: Sweep_def)
qed

text \<open>A failed assertion of PostgreSQL ends in its process id, which is not taken out: each run of it is a signature of its own.\<close>

lemma trap_keeps_pid:
  "NormaliseSignature (''TRAP: failed Assert(p), Line: 1, PID: 21'') \<noteq> NormaliseSignature (''TRAP: failed Assert(p), Line: 1, PID: 22'')"
  by code_simp

end
