(* ===== verification/Findings.thy ===== *)
theory Findings
  imports Repro
begin

text \<open>
  The record of findings: a directory of write-ups (\<open>internal/findings\<close>). What is a finding and which area
  it counts in (\<open>findings.go\<close>), the fields a write-up states and the gate that misses them (\<open>meta.go\<close>) and
  the campaign it can be attributed to (\<open>campaign.go\<close>).

  A directory is a tree of nodes, its entries sorted by name as \<open>os.ReadDir\<close> gives them. Nodes are readable.
\<close>

datatype fsnode = File string | Dir "(string \<times> fsnode) list"

fun is_dir :: "fsnode \<Rightarrow> bool" where
  "is_dir (Dir _) = True"
| "is_dir (File _) = False"

fun entries :: "fsnode \<Rightarrow> (string \<times> fsnode) list" where
  "entries (Dir es) = es"
| "entries (File _) = []"

definition read_file :: "fsnode \<Rightarrow> string \<Rightarrow> string option" where
  "read_file d name = (case map_of (entries d) name of Some (File s) \<Rightarrow> Some s | _ \<Rightarrow> None)"

text \<open>\<open>filepath.WalkDir\<close>: the files below a node, by their path.\<close>

fun walk :: "string \<Rightarrow> fsnode \<Rightarrow> string list" where
  "walk p (File _) = [p]"
| "walk p (Dir es) = concat (map (\<lambda>e. walk (p @ ''/'' @ fst e) (snd e)) es)"

subsection \<open>what is a finding and where it counts\<close>

datatype area = Storage | Core | Harness | Extensions

definition Areas :: "area list" where "Areas = [Storage, Core, Harness, Extensions]"

definition Override_of :: "(string \<times> (area \<times> string)) list" where
  "Override_of = [(''orioledb-vacuum-error-path-leak'', (Core,
     ''attribution overturned to upstream PostgreSQL 2026-08-16; the directory name predates that and was never changed''))]"

definition extPrefixes :: "string list" where
  "extPrefixes = [''credcheck'', ''mchar'', ''orafce'', ''extension-funcs'']"

definition harnessPrefixes :: "string list" where
  "harnessPrefixes = [''budget-spent'', ''harness-'', ''oss-fuzz-harness'', ''timeout-never'',
     ''simple-query-executes'', ''slow-units'', ''encoding-fuzzer'']"

definition dated :: re where
  "dated = seqs [Bol, lit ''20'', Class is_digit, Class is_digit, lit ''-'']"

fun by_prefixes :: "string \<Rightarrow> string list \<Rightarrow> area \<Rightarrow> area option" where
  "by_prefixes n [] a = None"
| "by_prefixes n (p # ps) a = (if has_prefix n p then Some a else by_prefixes n ps a)"

definition areaOf :: "string \<Rightarrow> area" where
  "areaOf name =
     (case map_of Override_of name of
        Some (a, why) \<Rightarrow> a
      | None \<Rightarrow>
          if has_prefix name ''orioledb-'' then Storage
          else (case by_prefixes name extPrefixes Extensions of
                  Some a \<Rightarrow> a
                | None \<Rightarrow> (case by_prefixes name harnessPrefixes Harness of Some a \<Rightarrow> a | None \<Rightarrow> Core)))"

record finding =
  Name :: string
  Area :: area
  Title :: string
  Status :: string
  FoundBy :: string
  Cause :: string
  Artifacts :: nat
  Override :: string

subsection \<open>the fields of a write-up\<close>

definition stars :: "string" where "stars = ''**''"

definition unstarred :: "string \<Rightarrow> string" where "unstarred s = replace_re (lit stars) [] s"

text \<open>\<open>(?m)^\*\*name:?\*\*:?\s*(.+)$\<close>.\<close>

definition after_name :: re where
  "after_name = seqs [opt (lit '':''), lit stars, opt (lit '':''), Star (Class re_space), Group 2 (plus any), LineEol]"

definition field_re :: "string \<Rightarrow> re" where
  "field_re name = Seq LineBol (Seq (lit (stars @ name)) after_name)"

definition Field :: "string \<Rightarrow> string \<Rightarrow> string" where
  "Field md name =
     (case find_re (field_re name) md of None \<Rightarrow> [] | Some g \<Rightarrow> trim_space (unstarred (grp g 2)))"

definition reTitle :: re where
  "reTitle = seqs [LineBol, lit ''#'', spaces, Group 1 (plus any), LineEol]"

definition reField :: re where
  "reField = Seq LineBol (Seq (lit stars)
     (Seq (Group 1 (alts [lit ''Status'', lit ''Found by'', lit ''Cause''])) after_name))"

definition take_field :: "(nat \<times> string) list \<Rightarrow> finding \<Rightarrow> finding" where
  "take_field m f =
     (let v = trim_space (unstarred (grp m 2))
      in if grp m 1 = ''Status'' then (if Status f = [] then f\<lparr>Status := v\<rparr> else f)
         else if grp m 1 = ''Found by'' then (if FoundBy f = [] then f\<lparr>FoundBy := v\<rparr> else f)
         else if grp m 1 = ''Cause'' then (if Cause f = [] then f\<lparr>Cause := v\<rparr> else f)
         else f)"

definition countArtifacts :: "fsnode \<Rightarrow> nat" where
  "countArtifacts d = length (filter (\<lambda>p. \<not> has_suffix p ''.md'') (walk [] d))"

definition readMeta :: "fsnode \<Rightarrow> finding \<Rightarrow> finding" where
  "readMeta d f =
     (case read_file d ''README.md'' of
        None \<Rightarrow> f
      | Some s \<Rightarrow>
          let f1 = (case find_re reTitle s of None \<Rightarrow> f | Some m \<Rightarrow> f\<lparr>Title := trim_space (grp m 1)\<rparr>)
          in (fold take_field (find_all reField s) f1)\<lparr>Artifacts := countArtifacts d\<rparr>)"

definition not_finding :: "string \<Rightarrow> bool" where
  "not_finding n \<longleftrightarrow> has_prefix n ''.'' \<or> n = ''reports'' \<or> match_re dated n"

definition new_finding :: "string \<Rightarrow> finding" where
  "new_finding n = \<lparr>Name = n, Area = areaOf n, Title = [], Status = [], FoundBy = [], Cause = [], Artifacts = 0,
     Override = (case map_of Override_of n of None \<Rightarrow> [] | Some (a, why) \<Rightarrow> why)\<rparr>"

text \<open>\<open>Scan\<close>: \<open>None\<close> when the directory cannot be read.\<close>

definition Scan :: "fsnode option \<Rightarrow> finding list option" where
  "Scan rt = map_option (\<lambda>d. sort_key Name
     (map (\<lambda>(n, x). readMeta x (new_finding n)) (filter (\<lambda>(n, x). is_dir x \<and> \<not> not_finding n) (entries d)))) rt"

definition ByArea :: "finding list \<Rightarrow> (area \<times> int) list" where
  "ByArea fs = fold (\<lambda>f. bump (Area f) 1) fs []"

definition reTarget :: re where
  "reTarget = seqs [Bol, opt (lit ''`''), Group 1 (Seq (plus (Class (lower_or ''_''))) (lit ''_fuzzer'')), opt (lit ''`''), Eol]"

definition attribute :: "finding \<Rightarrow> (string \<times> int) list \<times> int \<times> int \<Rightarrow> (string \<times> int) list \<times> int \<times> int" where
  "attribute f = (\<lambda>(per, systemic, unattributed).
     let v = trim_space (FoundBy f)
     in if v = [] then (per, systemic, unattributed + 1)
        else if has_prefix v ''systemic'' then (per, systemic + 1, unattributed)
        else if has_prefix v ''unknown'' then (per, systemic, unattributed + 1)
        else (case find_re reTarget v of
                Some m \<Rightarrow> (bump (grp m 1) 1 per, systemic, unattributed)
              | None \<Rightarrow> (per, systemic + 1, unattributed)))"

definition ByTarget :: "finding list \<Rightarrow> (string \<times> int) list \<times> int \<times> int" where
  "ByTarget fs = fold attribute fs ([], 0, 0)"

subsection \<open>the gate on the fields\<close>

definition isFindingDir :: "string \<Rightarrow> bool" where
  "isFindingDir name =
     (if has_prefix name ''.'' then False
      else if name = ''reports'' then False
      else if length name \<ge> 5 \<and> take 2 name = ''20'' \<and> name ! 4 = CHR ''-'' then False
      else True)"

definition lacking :: "(string \<Rightarrow> string) \<Rightarrow> fsnode option \<Rightarrow> string list" where
  "lacking read rt =
     (case rt of
        None \<Rightarrow> []
      | Some d \<Rightarrow> sort (map fst (filter (\<lambda>(n, x). is_dir x \<and> isFindingDir n \<and>
          (case read_file x ''README.md'' of None \<Rightarrow> True | Some s \<Rightarrow> read s = [])) (entries d))))"

definition MissingMeta :: "fsnode option \<Rightarrow> string list" where
  "MissingMeta rt = lacking (\<lambda>s. Field s ''Found by'') rt"

definition Campaign_of :: "string \<Rightarrow> string" where "Campaign_of md = Field md ''Campaign''"

definition MissingCampaign :: "fsnode option \<Rightarrow> string list" where
  "MissingCampaign rt = lacking Campaign_of rt"

subsection \<open>the campaign of a finding\<close>

text \<open>A manifest as it decodes: the slug, the workspaces, the workspaces of its entries.\<close>

record manifest =
  mf_slug :: string
  mf_workspaces :: "string list"
  mf_entries :: "string list"

definition add_slug :: "string \<Rightarrow> string \<Rightarrow> (string \<times> string list) list \<Rightarrow> (string \<times> string list) list" where
  "add_slug slug ws m = (if ws = [] \<or> slug = [] then m else AList.update ws (List.insert slug (sub m ws)) m)"

definition WorkspaceCampaigns :: "manifest list \<Rightarrow> (string \<times> string list) list" where
  "WorkspaceCampaigns ms = map (\<lambda>(ws, l). (ws, sort l))
     (fold (\<lambda>m. fold (add_slug (mf_slug m)) (mf_workspaces m @ mf_entries m)) ms [])"

definition CampaignFor :: "string list \<Rightarrow> (string \<times> string list) list \<Rightarrow> string \<times> bool" where
  "CampaignFor named byWS =
     (case remdups (concat (map (sub byWS) named)) of [c] \<Rightarrow> (c, True) | _ \<Rightarrow> ([], False))"

lemma finding_kept: "Name (readMeta x (new_finding n)) = n" "Area (readMeta x (new_finding n)) = areaOf n"
proof -
  have t: "Name (take_field m g) = Name g \<and> Area (take_field m g) = Area g" for m g by (simp add: take_field_def Let_def)
  have "Name (fold take_field ms g) = Name g \<and> Area (fold take_field ms g) = Area g" for ms g
    by (induction ms arbitrary: g) (simp_all add: t)
  then show "Name (readMeta x (new_finding n)) = n" "Area (readMeta x (new_finding n)) = areaOf n"
    by (simp_all add: readMeta_def Let_def new_finding_def split: option.split)
qed

subsection \<open>a field is read as it was written\<close>

text \<open>The value of a field: one line of text, trimmed, without emphasis.\<close>

definition field_value :: "string \<Rightarrow> bool" where
  "field_value v \<longleftrightarrow> v \<noteq> [] \<and> newline \<notin> set v \<and> \<not> is_space (hd v) \<and> \<not> is_space (last v) \<and> \<not> contains v stars"

definition field_line :: "string \<Rightarrow> string \<Rightarrow> string" where
  "field_line name v = stars @ name @ '':** '' @ v"

text \<open>The lines before a field do not open it.\<close>

definition unopened :: "string \<Rightarrow> string list \<Rightarrow> bool" where
  "unopened name ls \<longleftrightarrow> (\<forall>l \<in> set ls. newline \<notin> set l \<and> \<not> has_prefix l (stars @ name))"

lemma unstarred_value: "field_value v \<Longrightarrow> trim_space (unstarred v) = v"
proof -
  assume v: "field_value v"
  then have "unstarred v = v"
    unfolding unstarred_def replace_re_def by (intro replace_none [OF needs_lit]) (simp add: field_value_def)
  then show ?thesis using v by (simp add: field_value_def trim_by_id)
qed

lemma firstly_after_name:
  assumes v: "field_value v" and s: "s = [] \<or> hd s = newline"
  shows "\<exists>q. firstly after_name (p, '':** '' @ v @ s, g) (q, s, (2, v) # g)"
proof -
  have v': "v \<noteq> []" "newline \<notin> set v" "\<not> is_space (hd v)" using v by (simp_all add: field_value_def)
  have 1: "firstly (opt (lit '':'')) (p, '':** '' @ v @ s, g) (Some (CHR '':''), ''** '' @ v @ s, g)"
    using firstly_opt [OF firstly_lit [of "'':''" p "''** '' @ v @ s" g]] by simp
  have 2: "firstly (lit stars) (Some (CHR '':''), ''** '' @ v @ s, g) (Some (CHR ''*''), '' '' @ v @ s, g)"
    using firstly_lit [of stars "Some (CHR '':'')" "'' '' @ v @ s" g] by (simp add: stars_def)
  have 3: "firstly (opt (lit '':'')) (Some (CHR ''*''), '' '' @ v @ s, g) (Some (CHR ''*''), '' '' @ v @ s, g)"
    by (rule firstly_opt_skip) (rule fails_lit, simp)
  have 4: "firstly (Star (Class re_space)) (Some (CHR ''*''), '' '' @ v @ s, g) (Some (CHR '' ''), v @ s, g)"
    using firstly_star_class [of re_space "'' ''" "v @ s" "Some (CHR ''*'')" g] v'
    by (simp add: re_space_def is_space_def)
  have "firstly (plus any) (Some (CHR '' ''), v @ s, g) (end_of (Some (CHR '' '')) v, s, g)"
    unfolding any_def by (rule firstly_plus_class) (use v' s in \<open>auto simp: list_all_iff\<close>)
  from firstly_group [OF this, of 2]
  have 5: "firstly (Group 2 (plus any)) (Some (CHR '' ''), v @ s, g) (end_of (Some (CHR '' '')) v, s, (2, v) # g)"
    by simp
  have 6: "firstly LineEol (end_of (Some (CHR '' '')) v, s, (2, v) # g) (end_of (Some (CHR '' '')) v, s, (2, v) # g)"
    using s by (rule firstly_line_eol)
  from 1 2 3 4 5 6 show ?thesis unfolding after_name_def seqs.simps by (blast intro: firstly_seq)
qed

lemma field_read:
  assumes "unopened name before" and "newline \<notin> set name" and v: "field_value v"
    and s: "s = [] \<or> hd s = newline"
  shows "Field (unlines before @ field_line name v @ s) name = v"
proof -
  let ?r = "field_re name" and ?p = "if before = [] then None else Some newline"
  let ?t = "stars @ name @ '':** '' @ v @ s"
  have "find_re ?r (unlines before @ ?t) = find_from ?r ?p ?t"
    unfolding find_re_def field_re_def
    by (rule find_from_lines) (use assms in \<open>auto simp: unopened_def stars_def\<close>)
  moreover have "\<exists>q. firstly ?r (?p, ?t, []) (q, s, [(2, v)])"
  proof -
    have "firstly LineBol (?p, ?t, []) (?p, ?t, [])" by (rule firstly_line_bol) simp
    moreover have "firstly (lit (stars @ name)) (?p, ?t, []) (end_of ?p (stars @ name), '':** '' @ v @ s, [])"
      using firstly_lit [of "stars @ name" ?p "'':** '' @ v @ s" "[]"] by simp
    moreover obtain q where "firstly after_name (end_of ?p (stars @ name), '':** '' @ v @ s, []) (q, s, [(2, v)])"
      using firstly_after_name [OF v s] by blast
    ultimately show ?thesis unfolding field_re_def by (blast intro: firstly_seq)
  qed
  ultimately have "find_re ?r (unlines before @ ?t) = Some [(2, v)]"
    using find_from_here by (metis (no_types))
  then show ?thesis by (simp add: Field_def field_line_def grp_def unstarred_value [OF v])
qed

lemma lacking_iff:
  assumes "distinct (map fst (entries d))" and "(n, x) \<in> set (entries d)"
  shows "n \<in> set (lacking rd (Some d)) \<longleftrightarrow>
    is_dir x \<and> isFindingDir n \<and> (case read_file x ''README.md'' of None \<Rightarrow> True | Some s \<Rightarrow> rd s = [])"
proof -
  have same: "y = x" if "(n, y) \<in> set (entries d)" for y
    using eq_key_imp_eq_value [OF assms(1) that assms(2)] .
  let ?P = "\<lambda>n x. is_dir x \<and> isFindingDir n \<and> (case read_file x ''README.md'' of None \<Rightarrow> True | Some s \<Rightarrow> rd s = [])"
  have "n \<in> set (lacking rd (Some d)) \<longleftrightarrow> (\<exists>y. (n, y) \<in> set (entries d) \<and> ?P n y)"
    by (simp only: lacking_def option.case set_sort set_map set_filter) (simp only: image_iff Bex_def mem_Collect_eq split_paired_Ex fst_conv prod.case, metis)
  then show ?thesis using same assms(2) by metis
qed

text \<open>
  C22: A field that is written is read back, and its gate is satisfied. Whatever follows, and whatever precedes
  it as long as no earlier line begins with the same starred name, the text of a line \<open>**Name:** value\<close> is what
  the reader returns; and the gates on \<open>Found by\<close> and on \<open>Campaign\<close> do not list the finding. The condition on
  the lines before is needed: of two lines of the field the first decides, and if it is empty the line below it.
\<close>

theorem written_field_is_read:
  assumes "unopened name before" and "newline \<notin> set name" and "field_value v"
    and "s = [] \<or> hd s = newline"
    and "t = unlines before @ field_line name v @ s"
    and "distinct (map fst (entries d))" and "(n, x) \<in> set (entries d)" and "read_file x ''README.md'' = Some t"
  shows "Field t name = v \<and> (name = ''Found by'' \<longrightarrow> n \<notin> set (MissingMeta (Some d)))
    \<and> (name = ''Campaign'' \<longrightarrow> n \<notin> set (MissingCampaign (Some d)))"
proof -
  have "Field t name = v" unfolding assms(5) by (rule field_read) (rule assms)+
  moreover have "v \<noteq> []" using assms(3) by (simp add: field_value_def)
  ultimately show ?thesis
    unfolding MissingMeta_def MissingCampaign_def Campaign_of_def lacking_iff [OF assms(6,7)] assms(8) option.case
    by metis
qed

definition sample_finding :: string where
  "sample_finding = unlines [''# A crash''] @ field_line ''Found by'' ''protocol_fuzzer'' @ [newline] @ ''Text.''"

theorem written_field_is_read_witness:
  "Field sample_finding ''Found by'' = ''protocol_fuzzer''"
proof -
  have "unopened ''Found by'' [''# A crash'']" by (simp add: unopened_def stars_def)
  from written_field_is_read [OF this _ _ _ _ , of "''protocol_fuzzer''" "[newline] @ ''Text.''" sample_finding
      "Dir [(''a-crash'', Dir [(''README.md'', File sample_finding)])]" "''a-crash''" "Dir [(''README.md'', File sample_finding)]"]
  show ?thesis
    by (simp add: sample_finding_def field_value_def is_space_def stars_def read_file_def)
qed

text \<open>
  The blank after the colon may be a line end, so a field left empty is given the line below it; in
  \<open>readMeta\<close> an empty status also swallows the field below, and the finding loses its target although
  \<open>MissingMeta\<close> finds one.
\<close>

lemma empty_field_reads_next_line:
  "Field (unlines [''**Found by:**'', ''**Status:** open'']) ''Found by'' = ''Status: open''"
  by code_simp

definition empty_status :: string where
  "empty_status = unlines [''**Status:**'', ''**Found by:** a_fuzzer'']"

lemma empty_status_hides_target:
  "FoundBy (readMeta (Dir [(''README.md'', File empty_status)]) (new_finding ''x'')) = [] \<and>
   Field empty_status ''Found by'' = ''a_fuzzer''"
  by code_simp

text \<open>The gate leaves out directories that the count takes for findings.\<close>

lemma dated_disagrees: "\<not> isFindingDir ''20ab-x'' \<and> \<not> not_finding ''20ab-x''"
  by code_simp

subsection \<open>the campaign is certain or not given\<close>

lemma sub_map_sort: "sub (map (\<lambda>(ws, l). (ws, sort l)) m) k = sort (sub m k)"
  by (simp add: sub_def map_of_map_key [of "\<lambda>_. sort", simplified] split: option.split)

lemma add_slug_set: "set (sub (add_slug slug w m) ws) = set (sub m ws) \<union> (if w = ws \<and> w \<noteq> [] then {slug} - {[]} else {})"
  by (auto simp: add_slug_def)

lemma add_slugs_set:
  "set (sub (fold (add_slug slug) wss m) ws) = set (sub m ws) \<union> (if ws \<in> set wss \<and> ws \<noteq> [] then {slug} - {[]} else {})"
  by (induction wss arbitrary: m) (auto simp: add_slug_set)

lemma campaigns_set:
  "set (sub (fold (\<lambda>m. fold (add_slug (mf_slug m)) (mf_workspaces m @ mf_entries m)) ms m0) ws) = set (sub m0 ws) \<union>
     {mf_slug m | m. m \<in> set ms \<and> ws \<in> set (mf_workspaces m) \<union> set (mf_entries m) \<and> ws \<noteq> [] \<and> mf_slug m \<noteq> []}"
proof (induction ms arbitrary: m0)
  case (Cons m ms)
  have "set (sub (fold (add_slug (mf_slug m)) (mf_workspaces m @ mf_entries m) m0) ws) = set (sub m0 ws) \<union>
     (if ws \<in> set (mf_workspaces m @ mf_entries m) \<and> ws \<noteq> [] then {mf_slug m} - {[]} else {})"
    by (rule add_slugs_set)
  then show ?case unfolding fold.simps comp_apply Cons.IH by auto
qed simp

lemma remdups_single: "remdups xs = [c] \<longleftrightarrow> set xs = {c}"
proof
  assume "set xs = {c}"
  then have "set (remdups xs) = {c}" "distinct (remdups xs)" by simp_all
  then have "length (remdups xs) = 1" by (metis distinct_card card.empty card_insert_disjoint empty_iff finite.emptyI One_nat_def)
  then show "remdups xs = [c]" using \<open>set (remdups xs) = {c}\<close> by (cases "remdups xs") auto
qed (metis set_remdups list.simps(15) empty_set)

text \<open>The campaigns whose manifests name one of the workspaces.\<close>

definition runs_of :: "manifest list \<Rightarrow> string list \<Rightarrow> string set" where
  "runs_of ms named = {mf_slug m | m. m \<in> set ms \<and> mf_slug m \<noteq> [] \<and>
     (\<exists>ws. ws \<in> set named \<and> ws \<noteq> [] \<and> ws \<in> set (mf_workspaces m) \<union> set (mf_entries m))}"

text \<open>
  A finding is attributed to a campaign when, and only when, the manifests say so without doubt:
  the workspaces its write-up names were run by exactly one campaign, and it is that one.
\<close>

theorem attributed_iff_one_campaign:
  "CampaignFor named (WorkspaceCampaigns ms) = (c, True) \<longleftrightarrow> runs_of ms named = {c}"
proof -
  have "set (concat (map (sub (WorkspaceCampaigns ms)) named)) = runs_of ms named"
    unfolding WorkspaceCampaigns_def runs_of_def set_concat set_map image_image sub_map_sort set_sort campaigns_set
    by (simp add: sub_def) blast
  moreover have "CampaignFor named byWS = (c, True) \<longleftrightarrow> remdups (concat (map (sub byWS) named)) = [c]" for byWS
    unfolding CampaignFor_def by (cases "remdups (concat (map (sub byWS) named))"; cases "tl (remdups (concat (map (sub byWS) named)))")
      (simp_all del: remdups_eq_nil_iff remdups_eq_nil_right_iff concat_eq_Nil_conv split: list.split)
  ultimately show ?thesis by (simp only: remdups_single)
qed

end
