(* ===== verification/Reverify.thy ===== *)
theory Reverify
  imports Findings Go_Glob
begin

text \<open>
  Does the record still hold (\<open>internal/findings/reverify.go\<close>, \<open>cmd/pgfuzz/reverify.go\<close>): how a finding is
  re-checked, on which workspace, and what the command concludes. The workspaces on the host and the verdict
  of each run are data of the environment.
\<close>

subsection \<open>the plan for one finding\<close>

datatype vehicle = Unknown | LibFuzzer | SQL | StorageScenario

record plan =
  pl_finding :: string
  pl_target :: string
  pl_vehicle :: vehicle
  pl_workspace :: string
  pl_artifacts :: "string list"
  pl_skip :: string

definition punctuation :: string where "punctuation = ''`*,.;:()[]''"

definition TargetOf :: "finding \<Rightarrow> string" where
  "TargetOf f =
     (case filter (\<lambda>w. has_suffix w ''_fuzzer'') (map (\<lambda>w. trim_cutset w punctuation) (Go_Prelude.fields (FoundBy f))) of
        [] \<Rightarrow> [] | w # _ \<Rightarrow> w)"

definition reWorkspaceish :: re where
  "reWorkspaceish = seqs [Bol, plus (Class (lower_digit_or [])), Star (Class (lower_digit_or ''-'')), lit ''-'',
     Group 1 (alts [lit ''add'', lit ''und'', lit ''cov'', lit ''asan'']), Eol]"

definition WorkspaceOf :: "finding \<Rightarrow> string" where
  "WorkspaceOf f =
     (case filter (match_re reWorkspaceish) (map (\<lambda>w. trim_cutset w punctuation) (Go_Prelude.fields (FoundBy f))) of
        [] \<Rightarrow> [] | w # _ \<Rightarrow> w)"

definition hasFile :: "fsnode \<Rightarrow> string \<Rightarrow> bool" where
  "hasFile d pat \<longleftrightarrow> list_ex (glob pat) (map fst (entries d))"

definition MaxArtifacts :: nat where "MaxArtifacts = 12"

definition sub_dir :: "fsnode \<Rightarrow> string \<Rightarrow> (string \<times> fsnode) list" where
  "sub_dir d s = (if s = [] then entries d else case map_of (entries d) s of None \<Rightarrow> [] | Some x \<Rightarrow> entries x)"

definition recorded :: "fsnode \<Rightarrow> string list" where
  "recorded d = concat (map (\<lambda>s. map (\<lambda>(n, x). if s = [] then n else s @ ''/'' @ n)
       (filter (\<lambda>(n, x). \<not> is_dir x \<and> IsArtifact n) (sub_dir d s))) [[], ''reproducer'', ''artifacts''])"

definition artifactsIn :: "fsnode \<Rightarrow> string list" where
  "artifactsIn d = take MaxArtifacts (sort (recorded d))"

definition PlanFor :: "finding \<Rightarrow> fsnode \<Rightarrow> (string \<Rightarrow> string) \<Rightarrow> plan" where
  "PlanFor f d wsFor =
     (let p = \<lparr>pl_finding = Name f, pl_target = TargetOf f, pl_vehicle = Unknown, pl_workspace = [],
               pl_artifacts = [], pl_skip = []\<rparr>;
          v = (if pl_target p \<noteq> [] then LibFuzzer else if hasFile d ''*.sql'' then SQL
               else if hasFile d ''seed*.json'' then StorageScenario else Unknown)
      in if v = Unknown then p\<lparr>pl_skip := ''the write-up does not say how to reproduce it''\<rparr>
         else
           (let q = p\<lparr>pl_vehicle := v, pl_workspace := wsFor (WorkspaceOf f)\<rparr>
            in if pl_workspace q = [] then q\<lparr>pl_skip := ''no workspace on this host can run '' @ pl_target q\<rparr>
               else if v = LibFuzzer then
                 (let r = q\<lparr>pl_artifacts := artifactsIn d\<rparr>
                  in if pl_artifacts r = [] then r\<lparr>pl_skip := ''no recorded artifact to run''\<rparr> else r)
               else q))"

subsection \<open>the command\<close>

text \<open>
  A workspace on the host: its name, the sanitizer of its configuration if that loads, the targets built in
  it, and whether it opens. \<open>reads_conf\<close> is the presence of \<open>workspace.conf\<close>.
\<close>

record host_ws =
  hw_name :: string
  hw_conf :: bool
  hw_sanitizer :: "string option"
  hw_built :: "string list"
  hw_opens :: bool

definition wsFor_name :: "host_ws list \<Rightarrow> string \<Rightarrow> string" where
  "wsFor_name host name =
     (if name \<noteq> [] \<and> list_ex (\<lambda>w. hw_name w = name \<and> hw_conf w) host then name else [])"

text \<open>The order of the candidates: mentioned first, then an \<open>-add\<close> build, then stock, then the name.\<close>

definition capability_key :: "string \<Rightarrow> string \<Rightarrow> bool \<times> bool \<times> bool \<times> string" where
  "capability_key prose n = (\<not> contains prose n, \<not> has_suffix n ''-add'', has_prefix n ''oriole'', n)"

definition byCapability :: "host_ws list \<Rightarrow> string \<Rightarrow> string \<Rightarrow> string" where
  "byCapability host target prose =
     (case sort_key (capability_key prose)
        (map hw_name (filter (\<lambda>w. hw_sanitizer w \<noteq> None \<and> hw_sanitizer w \<noteq> Some ''coverage'' \<and>
           target \<in> set (hw_built w)) host)) of
        [] \<Rightarrow> [] | n # _ \<Rightarrow> n)"

definition resolve :: "host_ws list \<Rightarrow> finding \<Rightarrow> fsnode \<Rightarrow> string \<Rightarrow> string" where
  "resolve host f d name =
     (if wsFor_name host name \<noteq> [] then wsFor_name host name
      else byCapability host (TargetOf f) (case read_file d ''README.md'' of None \<Rightarrow> [] | Some s \<Rightarrow> s))"

datatype outcome = Held | Gone | Skipped

text \<open>The artifacts are run in order until one of them reproduces or cannot be run.\<close>

fun run_artifacts :: "(string \<Rightarrow> verdict) \<Rightarrow> string list \<Rightarrow> outcome" where
  "run_artifacts run [] = Gone"
| "run_artifacts run (a # as) =
     (case run a of Reproduced \<Rightarrow> Held | Error \<Rightarrow> Skipped | Clean \<Rightarrow> run_artifacts run as)"

definition check_one ::
  "host_ws list \<Rightarrow> (string \<Rightarrow> string \<Rightarrow> string \<Rightarrow> verdict) \<Rightarrow> finding \<Rightarrow> fsnode \<Rightarrow> outcome"
where
  "check_one host run f d =
     (let p = PlanFor f d (resolve host f d)
      in if pl_skip p \<noteq> [] then Skipped
         else if pl_vehicle p \<noteq> LibFuzzer then Skipped
         else if \<not> list_ex (\<lambda>w. hw_name w = pl_workspace p \<and> hw_opens w) host then Skipped
         else run_artifacts (run (pl_workspace p) (pl_target p)) (pl_artifacts p))"

definition selected :: "string \<Rightarrow> fsnode \<Rightarrow> (finding \<times> fsnode) list option" where
  "selected which rt = map_option (\<lambda>fs. map (\<lambda>f. (f, case map_of (entries rt) (Name f) of None \<Rightarrow> Dir [] | Some x \<Rightarrow> x))
     (filter (\<lambda>f. which = [] \<or> Name f = which) (sort_key Name fs))) (Scan (Some rt))"

definition tally :: "outcome list \<Rightarrow> outcome \<Rightarrow> nat" where
  "tally os o' = length (filter (\<lambda>x. x = o') os)"

definition cmdReverify ::
  "host_ws list \<Rightarrow> (string \<Rightarrow> string \<Rightarrow> string \<Rightarrow> verdict) \<Rightarrow> string \<Rightarrow> fsnode option \<Rightarrow> int \<times> nat \<times> nat \<times> nat"
where
  "cmdReverify host run which rt =
     (case Scan rt of
        None \<Rightarrow> (2, 0, 0, 0)
      | Some [] \<Rightarrow> (2, 0, 0, 0)
      | Some (_ # _) \<Rightarrow>
          let os = map (\<lambda>(f, d). check_one host run f d) (the (selected which (the rt)))
          in (if tally os Gone > 0 then 1 else 0, tally os Held, tally os Gone, tally os Skipped))"

subsection \<open>what the conclusions mean\<close>

lemma run_artifacts_gone: "run_artifacts run as = Gone \<longleftrightarrow> (\<forall>a \<in> set as. run a = Clean)"
  by (induction as) (auto split: verdict.splits)

lemma run_artifacts_held: "run_artifacts run as = Held \<Longrightarrow> \<exists>a \<in> set as. run a = Reproduced"
  by (induction as) (auto split: verdict.splits)

lemma plan_artifacts:
  assumes "pl_skip (PlanFor f d wsFor) = []" and "pl_vehicle (PlanFor f d wsFor) = LibFuzzer"
  shows "pl_target (PlanFor f d wsFor) = TargetOf f \<and> TargetOf f \<noteq> [] \<and>
    pl_workspace (PlanFor f d wsFor) = wsFor (WorkspaceOf f) \<and> wsFor (WorkspaceOf f) \<noteq> [] \<and>
    pl_artifacts (PlanFor f d wsFor) = artifactsIn d \<and> artifactsIn d \<noteq> []"
  using assms by (simp add: PlanFor_def Let_def split: if_splits)

lemma artifacts_recorded: "set (artifactsIn d) \<subseteq> set (recorded d) \<and> length (artifactsIn d) \<le> MaxArtifacts \<and> sorted (artifactsIn d)"
  using set_take_subset [of MaxArtifacts "sort (recorded d)"] by (simp add: artifactsIn_def)

lemma tally_sum: "tally os Held + tally os Gone + tally os Skipped = length os"
proof (induction os)
  case (Cons x os)
  then show ?case by (cases x) (simp_all add: tally_def)
qed (simp add: tally_def)

lemma tally_pos: "0 < tally os x \<longleftrightarrow> x \<in> set os"
  by (induction os) (auto simp: tally_def)

text \<open>
  C19: A finding is reported gone only on evidence. It says how it is reproduced, a workspace that can run
  its target opens, at least one and at most twelve of the inputs recorded with it are taken, and every one
  of them ran to its end without a crash; it is reported to hold only if one of these inputs crashed its
  target. Every finding selected is counted once as holding, gone or skipped, and the exit code is 1 exactly
  when one of them is gone.
\<close>

theorem gone_only_on_evidence:
  "(check_one host run f d = Gone \<longrightarrow>
      TargetOf f \<noteq> [] \<and> (\<exists>w \<in> set host. hw_name w = resolve host f d (WorkspaceOf f) \<and> hw_opens w) \<and>
      artifactsIn d \<noteq> [] \<and> set (artifactsIn d) \<subseteq> set (recorded d) \<and> length (artifactsIn d) \<le> 12 \<and>
      (\<forall>a \<in> set (artifactsIn d). run (resolve host f d (WorkspaceOf f)) (TargetOf f) a = Clean)) \<and>
   (check_one host run f d = Held \<longrightarrow>
      (\<exists>a \<in> set (artifactsIn d). run (resolve host f d (WorkspaceOf f)) (TargetOf f) a = Reproduced)) \<and>
   (case cmdReverify host run which rt of (code, held, gone, skipped) \<Rightarrow>
      code \<noteq> 2 \<longrightarrow> held + gone + skipped = length (the (selected which (the rt))) \<and>
        (code = 1 \<longleftrightarrow> (\<exists>(g, e) \<in> set (the (selected which (the rt))). check_one host run g e = Gone)))"
proof (intro conjI impI)
  let ?p = "PlanFor f d (resolve host f d)"
  let ?run = "run (resolve host f d (WorkspaceOf f)) (TargetOf f)"
  have c: "check_one host run f d \<noteq> Skipped \<Longrightarrow> pl_skip ?p = [] \<and> pl_vehicle ?p = LibFuzzer \<and>
      list_ex (\<lambda>w. hw_name w = pl_workspace ?p \<and> hw_opens w) host \<and>
      check_one host run f d = run_artifacts (run (pl_workspace ?p) (pl_target ?p)) (pl_artifacts ?p)"
    by (simp add: check_one_def Let_def split: if_splits)
  have p: "check_one host run f d \<noteq> Skipped \<Longrightarrow> pl_target ?p = TargetOf f \<and> TargetOf f \<noteq> [] \<and>
      pl_workspace ?p = resolve host f d (WorkspaceOf f) \<and> pl_artifacts ?p = artifactsIn d \<and> artifactsIn d \<noteq> []"
    using c plan_artifacts by blast
  { assume g: "check_one host run f d = Gone"
    then have ns: "check_one host run f d \<noteq> Skipped" by simp
    show "TargetOf f \<noteq> []" "artifactsIn d \<noteq> []" using p [OF ns] by simp_all
    show "\<exists>w \<in> set host. hw_name w = resolve host f d (WorkspaceOf f) \<and> hw_opens w"
      using c [OF ns] p [OF ns] by (auto simp: list_ex_iff)
    show "set (artifactsIn d) \<subseteq> set (recorded d)" "length (artifactsIn d) \<le> 12"
      using artifacts_recorded by (simp_all add: MaxArtifacts_def)
    show "\<forall>a \<in> set (artifactsIn d). ?run a = Clean"
      by (rule run_artifacts_gone [THEN iffD1]) (use c [OF ns] p [OF ns] g in simp) }
  { assume g: "check_one host run f d = Held"
    then have ns: "check_one host run f d \<noteq> Skipped" by simp
    show "\<exists>a \<in> set (artifactsIn d). ?run a = Reproduced"
      by (rule run_artifacts_held) (use c [OF ns] p [OF ns] g in simp) }
  show "case cmdReverify host run which rt of (code, held, gone, skipped) \<Rightarrow>
      code \<noteq> 2 \<longrightarrow> held + gone + skipped = length (the (selected which (the rt))) \<and>
        (code = 1 \<longleftrightarrow> (\<exists>(g, e) \<in> set (the (selected which (the rt))). check_one host run g e = Gone))"
    by (auto simp: cmdReverify_def Let_def tally_sum tally_pos image_iff eq_commute [of Gone] split: option.splits list.splits)
      (force simp: eq_commute)?
qed

text \<open>A finding whose first input cannot be run is skipped, whatever its other inputs would show.\<close>

lemma error_hides_reproduction:
  "run ''crash-1'' = Error \<Longrightarrow> run ''crash-2'' = Reproduced \<Longrightarrow> run_artifacts run [''crash-1'', ''crash-2''] = Skipped"
  by simp

text \<open>A name that no finding has selects nothing, and nothing is checked with exit code 0.\<close>

definition one_finding :: fsnode where
  "one_finding = Dir [(''a-crash'', Dir [(''README.md'', File (field_line ''Found by'' ''a_fuzzer'')), (''crash-1'', File [])])]"

lemma misspelt_checks_nothing: "cmdReverify host run ''a-crush'' (Some one_finding) = (0, 0, 0, 0)"
proof -
  have nf: "not_finding ''a-crash'' = False" by code_simp
  have s: "Scan (Some one_finding) = Some [readMeta (snd (hd (entries one_finding))) (new_finding ''a-crash'')]"
    by (simp add: Scan_def one_finding_def nf)
  show ?thesis by (simp add: cmdReverify_def selected_def s finding_kept tally_def)
qed

definition add_host :: "host_ws list" where
  "add_host = [\<lparr>hw_name = ''pg17-add'', hw_conf = True, hw_sanitizer = Some ''address'', hw_built = [''a_fuzzer''], hw_opens = True\<rparr>]"

theorem gone_only_on_evidence_witness:
  "list_all (\<lambda>a. a \<in> set (recorded (snd (hd (entries one_finding))))) (artifactsIn (snd (hd (entries one_finding))))
   \<and> check_one add_host (\<lambda>_ _ _. Clean) ((new_finding ''a-crash'')\<lparr>FoundBy := ''a_fuzzer''\<rparr>) (snd (hd (entries one_finding))) = Gone"
proof -
  let ?f = "(new_finding ''a-crash'')\<lparr>FoundBy := ''a_fuzzer''\<rparr>" and ?d = "snd (hd (entries one_finding))"
  have "check_one add_host (\<lambda>_ _ _. Clean) ?f ?d = Gone" by code_simp
  with gone_only_on_evidence [of add_host "\<lambda>_ _ _. Clean" ?f ?d "[]" None] show ?thesis
    unfolding list_all_iff by blast
qed

end
