(* ===== verification/Triage.thy ===== *)
theory Triage
  imports Findings Go_Glob
begin

text \<open>
  The triage document (\<open>internal/triage\<close>): its own list of findings and their areas (\<open>model.go\<close>), which
  finding explains a crash signature, the scope of a write-up by the workspaces it mentions (\<open>scope.go\<close>), and
  the lift of signatures seen on stock PostgreSQL that nothing explains (\<open>lift.go\<close>).
\<close>

subsection \<open>findings and areas\<close>

definition AttribOverride :: "(string \<times> (string \<times> string)) list" where
  "AttribOverride = [(''orioledb-vacuum-error-path-leak'', (''PostgreSQL core'',
     ''attribution overturned to upstream PostgreSQL 2026-08-16; the directory name predates that and was never changed''))]"

definition ext_prefixes :: "string list" where
  "ext_prefixes = [''credcheck'', ''mchar'', ''orafce'', ''extension-funcs'']"

definition harness_prefixes :: "string list" where
  "harness_prefixes = [''budget-spent'', ''harness-'', ''oss-fuzz-harness'', ''timeout-never'',
     ''simple-query-executes'', ''slow-units'', ''encoding-fuzzer'']"

definition hasAnyPrefix :: "string \<Rightarrow> string list \<Rightarrow> bool" where
  "hasAnyPrefix s pres \<longleftrightarrow> list_ex (has_prefix s) pres"

definition AreaOf :: "string \<Rightarrow> string" where
  "AreaOf name =
     (case map_of AttribOverride name of
        Some v \<Rightarrow> fst v
      | None \<Rightarrow>
          if has_prefix name ''orioledb-'' then ''storage engine''
          else if hasAnyPrefix name ext_prefixes then ''third-party extensions''
          else if hasAnyPrefix name harness_prefixes then ''harness & tooling''
          else ''PostgreSQL core'')"

definition reDated :: re where
  "reDated = seqs [Bol, lit ''20'', Class is_digit, Class is_digit, lit ''-'']"

definition FindingDirs :: "fsnode option \<Rightarrow> string list" where
  "FindingDirs rt =
     (case rt of
        None \<Rightarrow> []
      | Some d \<Rightarrow> sort (map fst (filter (\<lambda>(n, x). \<not> (\<not> is_dir x \<or> has_prefix n ''.'' \<or> match_re reDated n \<or> n = ''reports''))
           (entries d))))"

text \<open>\<open>InputsFor\<close>: hidden directories below the finding are passed over.\<close>

fun inputs_below :: "string \<Rightarrow> fsnode \<Rightarrow> string list" where
  "inputs_below p (File _) = (if has_suffix p ''.md'' then [] else [p])"
| "inputs_below p (Dir es) = concat (map (\<lambda>e. if is_dir (snd e) \<and> has_prefix (fst e) ''.'' then []
      else inputs_below (if p = [] then fst e else p @ ''/'' @ fst e) (snd e)) es)"

definition InputsFor :: "fsnode option \<Rightarrow> string list" where
  "InputsFor d = (case d of None \<Rightarrow> [] | Some x \<Rightarrow> sort (inputs_below [] x))"

subsection \<open>signatures\<close>

definition overflowClass :: "string list" where "overflowClass = [''signed integer overflow'', ''negation of'']"

definition SigClass :: "string \<Rightarrow> string" where
  "SigClass sig =
     (if has_prefix sig ''LEAK in '' then ''leak''
      else if contains sig ''heap-buffer-overflow'' \<or> contains sig ''use-after-free'' \<or> contains sig ''SEGV''
        \<or> contains sig ''stack-overflow'' then ''memory''
      else if has_prefix sig ''Assert('' then ''assert''
      else if list_ex (contains sig) overflowClass then ''arith''
      else ''other'')"

definition signatureByTarget :: "(string \<times> string \<times> string) list" where
  "signatureByTarget =
     [(''memutils_memorychunk.h'', ''encoding'', ''encoding-fuzzer-euc-cn-overflow''),
      (''memutils_memorychunk.h'', ''extension_funcs'', ''mchar-regex-chunk-corruption''),
      (''aset.c'', ''encoding'', ''encoding-fuzzer-euc-cn-overflow'')]"

definition signatureFiled :: "(string \<times> string) list" where
  "signatureFiled =
     [(''guc-file.l'', ''config-file-nul-deescape''), (''xlogreader.c'', ''xlogreader-decode-overflow''),
      (''instrument.c'', ''oss-fuzz-harness-bugs (sub-defect 13)''), (''nodes.h'', ''oss-fuzz-harness-bugs (sub-defect 1)''),
      (''latch.c'', ''oss-fuzz-harness-bugs (sub-defect 5)''), (''ErrorData'', ''oss-fuzz-harness-bugs (sub-defect 2)''),
      (''mcxt.c'', ''oss-fuzz-harness-bugs (sub-defect 14)''), (''libFuzzer timeout'', ''timeout-never-fires''),
      (''libFuzzer out-of-memory'', ''pg-timezone-cache-unbounded''),
      (''ASAN stack-overflow'', ''oss-fuzz-harness-bugs (sub-defect 12)''),
      (''memutils_memorychunk.h'', ''mchar-regex-chunk-corruption''), (''wchar.c'', ''encoding-fuzzer-euc-cn-overflow''),
      (''aset.c'', ''encoding-fuzzer-euc-cn-overflow'')]"

definition FiledAs :: "string \<Rightarrow> string list \<Rightarrow> string" where
  "FiledAs sig targets =
     (case filter (\<lambda>(tok, target, fnd). contains sig tok \<and> target \<in> set targets) signatureByTarget of
        (_, _, fnd) # _ \<Rightarrow> fnd
      | [] \<Rightarrow> (case filter (\<lambda>(tok, fnd). contains sig tok) signatureFiled of (_, fnd) # _ \<Rightarrow> fnd | [] \<Rightarrow> []))"

subsection \<open>the scope of a write-up\<close>

definition reWorkspaceTok :: re where
  "reWorkspaceTok = seqs [WordB, Group 0 (seqs [alts [lit ''pg'', lit ''oriole'', lit ''oriolebare'', lit ''gt'', lit ''vfy''],
     Star (Class (lower_digit_or [])), Star (Seq (lit ''-'') (plus (Class (lower_digit_or []))))]), WordB]"

definition KnownWorkspaces :: "fsnode option \<Rightarrow> string list" where
  "KnownWorkspaces wsRoot =
     (case wsRoot of None \<Rightarrow> []
      | Some d \<Rightarrow> map fst (filter (\<lambda>(n, x). is_dir x \<and> map_of (entries x) ''workspace.conf'' \<noteq> None) (entries d)))"

definition WorkspacesNamed :: "string \<Rightarrow> string list option \<Rightarrow> string list" where
  "WorkspacesNamed s known = sort (remdups (filter (\<lambda>m. contains m ''-'' \<and>
     (case known of None \<Rightarrow> True | Some ks \<Rightarrow> m \<in> set ks)) (map (\<lambda>g. grp g 0) (find_all reWorkspaceTok s))))"

definition InScope :: "string \<Rightarrow> string list \<Rightarrow> string list option \<Rightarrow> string list \<times> bool" where
  "InScope s patterns known =
     (if patterns = [] then ([], True)
      else let hit = filter (\<lambda>ws. list_ex (\<lambda>p. glob p ws) patterns) (WorkspacesNamed s known) in (hit, hit \<noteq> []))"

subsection \<open>the lift\<close>

record accept_row =
  Fn :: string
  Scope :: string
  Site :: string
  AClass :: string

definition reCFile :: re where
  "reCFile = seqs [WordB, Group 1 (Seq (plus (Class (lower_digit_or ''_''))) (lit ''.c'')), WordB]"

definition accept_line :: "string \<Rightarrow> accept_row option" where
  "accept_line line =
     (if has_prefix line ''#'' \<or> trim_space line = [] then None
      else let p = split_at tab line
           in if length p < 4 then None else Some \<lparr>Fn = p ! 0, Scope = p ! 1, Site = p ! 2, AClass = p ! 3\<rparr>)"

definition AcceptedUBSan :: "string option \<Rightarrow> string list \<times> accept_row list" where
  "AcceptedUBSan b =
     (case b of
        None \<Rightarrow> ([], [])
      | Some s \<Rightarrow> let rows = List.map_filter accept_line (split_at newline s)
                  in (List.map_filter (\<lambda>r. map_option (\<lambda>m. grp m 1) (find_re reCFile (Site r))) rows, rows))"

record census_sig =
  cs_signature :: string
  cs_families :: "string list"
  cs_vanilla :: "string list"
  cs_oriole :: bool
  cs_targets :: "string list"
  cs_hits :: int

record census =
  ce_campaign :: string
  ce_sigs :: "census_sig list"

record lead =
  Sig :: string
  Src :: string
  LHits :: int
  Camps :: "string list"
  Vanilla :: "string list"
  LTargets :: "string list"
  Fams :: "string list"
  Overflow :: bool
  LClass :: string
  Artefacts :: "(string \<times> nat) list"

definition reSrcFile :: re where
  "reSrcFile = seqs [WordB, Group 1 (seqs [plus (Class (lower_digit_or ''_'')), lit ''.'', Alt (lit ''c'') (lit ''h'')]),
     Class (\<lambda>c. c = CHR '':'' \<or> re_space c)]"

definition ArtefactsFor :: "(string \<Rightarrow> string list option) \<Rightarrow> string \<Rightarrow> string list \<Rightarrow> string list \<Rightarrow> (string \<times> nat) list" where
  "ArtefactsFor listing camp workspaces targets =
     concat (map (\<lambda>w. concat (map (\<lambda>t.
        let p = camp @ ''/reproducers/'' @ w @ ''/'' @ t @ ''_fuzzer''
        in case listing p of
             None \<Rightarrow> []
           | Some names \<Rightarrow> let n = length (filter (\<lambda>e. has_prefix e ''crash-'') names) in if n > 0 then [(p, n)] else [])
       (sort targets))) (sort workspaces))"

definition addUnique :: "string list \<Rightarrow> string \<Rightarrow> string list" where
  "addUnique xs v = (if v \<in> set xs then xs else xs @ [v])"

definition bare :: "string \<Rightarrow> string" where "bare t = trim_suffix t ''_fuzzer''"

definition src_of :: "string \<Rightarrow> string" where
  "src_of sig = (case find_re reSrcFile sig of None \<Rightarrow> [] | Some m \<Rightarrow> grp m 1)"

definition is_overflow :: "string \<Rightarrow> bool" where "is_overflow sig \<longleftrightarrow> list_ex (contains sig) overflowClass"

text \<open>A census row that is lifted, and what it adds to the lead of its signature.\<close>

definition lifted :: "string list \<Rightarrow> string \<Rightarrow> census_sig \<Rightarrow> bool" where
  "lifted accFiles family s \<longleftrightarrow>
     \<not> (family \<notin> set (cs_families s) \<or> cs_vanilla s = [] \<or> cs_oriole s)
     \<and> FiledAs (cs_signature s) (map bare (cs_targets s)) = []
     \<and> \<not> (is_overflow (cs_signature s) \<and> src_of (cs_signature s) \<in> set accFiles)"

definition new_lead :: "string \<Rightarrow> lead" where
  "new_lead sig = \<lparr>Sig = sig, Src = src_of sig, LHits = 0, Camps = [], Vanilla = [], LTargets = [], Fams = [],
     Overflow = is_overflow sig, LClass = SigClass sig, Artefacts = []\<rparr>"

definition grow :: "string \<Rightarrow> census_sig \<Rightarrow> lead \<Rightarrow> lead" where
  "grow camp s e =
     e\<lparr>LHits := LHits e + cs_hits s, Camps := addUnique (Camps e) camp,
       Vanilla := fold (\<lambda>v xs. addUnique xs v) (cs_vanilla s) (Vanilla e),
       LTargets := fold (\<lambda>t xs. addUnique xs (bare t)) (cs_targets s) (LTargets e),
       Fams := fold (\<lambda>f xs. addUnique xs f) (cs_families s) (Fams e)\<rparr>"

definition lift_row :: "string list \<Rightarrow> string \<Rightarrow> string \<times> census_sig \<Rightarrow> (string \<times> lead) list \<Rightarrow> (string \<times> lead) list" where
  "lift_row accFiles family = (\<lambda>(camp, s) seen.
     if lifted accFiles family s
     then AList.update (cs_signature s) (grow camp s
            (case map_of seen (cs_signature s) of None \<Rightarrow> new_lead (cs_signature s) | Some e \<Rightarrow> e)) seen
     else seen)"

definition classOrder :: "string \<Rightarrow> int" where
  "classOrder c = (if c = ''memory'' then 0 else if c = ''assert'' then 1 else if c = ''arith'' then 2
     else if c = ''other'' then 3 else if c = ''leak'' then 4 else 0)"

definition census_rows :: "census list \<Rightarrow> (string \<times> census_sig) list" where
  "census_rows cs = concat (map (\<lambda>c. map (\<lambda>s. (ce_campaign c, s)) (ce_sigs c)) cs)"

definition LiftCandidates ::
  "(string \<Rightarrow> string list option) \<Rightarrow> string option \<Rightarrow> string \<Rightarrow> census list \<Rightarrow> lead list"
where
  "LiftCandidates listing ubsanBaseline family cs =
     (let seen = fold (lift_row (fst (AcceptedUBSan ubsanBaseline)) family) (census_rows cs) []
      in sort_key (\<lambda>e. (classOrder (LClass e), - LHits e))
           (map (\<lambda>(k, e). e\<lparr>Artefacts := concat (map (\<lambda>c. ArtefactsFor listing (ce_campaign c) (Vanilla e) (LTargets e)) cs)\<rparr>) seen))"

subsection \<open>the document counts what the scan counts\<close>

fun area_name :: "area \<Rightarrow> string" where
  "area_name Storage = ''storage engine''"
| "area_name Core = ''PostgreSQL core''"
| "area_name Harness = ''harness & tooling''"
| "area_name Extensions = ''third-party extensions''"

lemma area_name_inj: "area_name a = area_name b \<longleftrightarrow> a = b"
  by (cases a; cases b) simp_all

lemma by_prefixes_any: "by_prefixes n ps a = (if hasAnyPrefix n ps then Some a else None)"
  by (induction ps) (simp_all add: hasAnyPrefix_def)

lemma AreaOf_areaOf: "AreaOf n = area_name (areaOf n)"
proof -
  have p: "ext_prefixes = extPrefixes" "harness_prefixes = harnessPrefixes"
    by (simp_all only: ext_prefixes_def extPrefixes_def harness_prefixes_def harnessPrefixes_def)
  show ?thesis
  proof (cases "map_of Override_of n")
    case None
    then have "map_of AttribOverride n = None" by (simp add: Override_of_def AttribOverride_def split: if_splits)
    with None show ?thesis unfolding AreaOf_def areaOf_def p by (simp add: by_prefixes_any)
  next
    case (Some v)
    then have "fst v = Core" "\<exists>w. map_of AttribOverride n = Some (''PostgreSQL core'', w)"
      by (auto simp: Override_of_def AttribOverride_def split: if_splits)
    with Some show ?thesis unfolding AreaOf_def areaOf_def by (auto split: prod.split)
  qed
qed

lemma dated_same: "reDated = dated"
  by (simp only: reDated_def dated_def)

lemma map_sort_key: "map f (sort_key f xs) = sort (map f xs)"
  by (rule properties_for_sort [symmetric]) simp_all

lemma dirs_of_scan: "FindingDirs (Some d) = map Name (the (Scan (Some d)))"
proof -
  have p: "(\<lambda>(n, x). \<not> (\<not> is_dir x \<or> has_prefix n ''.'' \<or> match_re reDated n \<or> n = ''reports'')) =
      (\<lambda>(n, x). is_dir x \<and> \<not> not_finding n)"
    unfolding not_finding_def dated_same by (rule ext) (auto split: prod.split)
  have "Name \<circ> (\<lambda>(n, x). readMeta x (new_finding n)) = fst" by (rule ext) (simp add: finding_kept split: prod.split)
  then show ?thesis
    unfolding FindingDirs_def Scan_def option.case option.map option.sel p map_sort_key map_map by simp
qed

lemma area_of_scanned: "f \<in> set (the (Scan (Some d))) \<Longrightarrow> Area f = areaOf (Name f)"
  by (auto simp: Scan_def finding_kept)

lemma by_area_count: "num (ByArea fs) a = int (length (filter (\<lambda>f. Area f = a) fs))"
proof -
  have "num (fold (\<lambda>f. bump (Area f) 1) fs m) a = num m a + int (length (filter (\<lambda>f. Area f = a) fs))" for m
    by (induction fs arbitrary: m) (auto simp: bump_def)
  then show ?thesis by (simp add: ByArea_def)
qed

lemma areas_sum: "(\<Sum>a\<leftarrow>Areas. int (length (filter (\<lambda>f. Area f = a) fs))) = int (length fs)"
proof (induction fs)
  case (Cons f fs)
  then show ?case by (cases "Area f") (simp_all add: Areas_def)
qed (simp add: Areas_def)

text \<open>
  C23: The triage document and the scan of the findings count alike, although each has its own list and its
  own rules: they name the same findings in the same order, put each in the same of the four areas, so the
  count per area of the one is that of the other, and the four counts add up to the findings.
\<close>

theorem triage_counts_as_scan:
  "FindingDirs (Some d) = map Name (the (Scan (Some d))) \<and>
   map AreaOf (FindingDirs (Some d)) = map (area_name \<circ> Area) (the (Scan (Some d))) \<and>
   (\<forall>a. num (ByArea (the (Scan (Some d)))) a = int (length (filter (\<lambda>n. AreaOf n = area_name a) (FindingDirs (Some d))))) \<and>
   (\<Sum>a\<leftarrow>Areas. num (ByArea (the (Scan (Some d)))) a) = int (length (FindingDirs (Some d)))"
proof (intro conjI allI)
  let ?fs = "the (Scan (Some d))"
  show "FindingDirs (Some d) = map Name ?fs" by (rule dirs_of_scan)
  show "map AreaOf (FindingDirs (Some d)) = map (area_name \<circ> Area) ?fs"
    unfolding dirs_of_scan map_map by (rule map_cong) (simp_all add: AreaOf_areaOf area_of_scanned)
  show "num (ByArea ?fs) a = int (length (filter (\<lambda>n. AreaOf n = area_name a) (FindingDirs (Some d))))" for a
  proof -
    have "filter (\<lambda>f. Area f = a) ?fs = filter ((\<lambda>n. AreaOf n = area_name a) \<circ> Name) ?fs"
      by (rule filter_cong) (simp_all add: AreaOf_areaOf area_name_inj area_of_scanned)
    then show ?thesis unfolding dirs_of_scan filter_map length_map by_area_count by simp
  qed
  show "(\<Sum>a\<leftarrow>Areas. num (ByArea ?fs) a) = int (length (FindingDirs (Some d)))"
    unfolding by_area_count areas_sum dirs_of_scan by simp
qed

subsection \<open>the lift against its census rows\<close>

definition rows_for :: "string list \<Rightarrow> string \<Rightarrow> (string \<times> census_sig) list \<Rightarrow> string \<Rightarrow> (string \<times> census_sig) list" where
  "rows_for acc family rows sg = filter (\<lambda>(c, s). lifted acc family s \<and> cs_signature s = sg) rows"

lemma addUnique_set: "set (addUnique xs v) = insert v (set xs)"
  by (auto simp: addUnique_def)

lemma add_all_set: "set (fold (\<lambda>v xs. addUnique xs (f v)) vs xs) = set xs \<union> f ` set vs"
  by (induction vs arbitrary: xs) (auto simp: addUnique_set)

lemma grow_sel:
  "Sig (grow c s e) = Sig e" "Src (grow c s e) = Src e" "LClass (grow c s e) = LClass e"
  "LHits (grow c s e) = LHits e + cs_hits s" "set (Camps (grow c s e)) = insert c (set (Camps e))"
  "set (Vanilla (grow c s e)) = set (Vanilla e) \<union> set (cs_vanilla s)"
  "set (LTargets (grow c s e)) = set (LTargets e) \<union> bare ` set (cs_targets s)"
  by (simp_all add: grow_def addUnique_set add_all_set add_all_set [of "\<lambda>x. x", simplified])

lemma grown:
  "Sig (fold (\<lambda>(c, s). grow c s) rs e) = Sig e" "LClass (fold (\<lambda>(c, s). grow c s) rs e) = LClass e"
  "LHits (fold (\<lambda>(c, s). grow c s) rs e) = LHits e + (\<Sum>(c, s)\<leftarrow>rs. cs_hits s)"
  "set (Camps (fold (\<lambda>(c, s). grow c s) rs e)) = set (Camps e) \<union> fst ` set rs"
  "set (Vanilla (fold (\<lambda>(c, s). grow c s) rs e)) = set (Vanilla e) \<union> (\<Union>(c, s)\<in>set rs. set (cs_vanilla s))"
  by (induction rs arbitrary: e) (auto simp: grow_sel)

lemma seen_leads:
  "map_of (fold (lift_row acc family) rows []) sg =
     (if rows_for acc family rows sg = [] then None
      else Some (fold (\<lambda>(c, s). grow c s) (rows_for acc family rows sg) (new_lead sg)))"
proof (induction rows rule: rev_induct)
  case (snoc r rows)
  obtain c s where r: "r = (c, s)" by (cases r)
  show ?case
  proof (cases "lifted acc family s \<and> cs_signature s = sg")
    case True
    then have "rows_for acc family (rows @ [r]) sg = rows_for acc family rows sg @ [(c, s)]"
      by (simp add: rows_for_def r)
    then show ?thesis using snoc True by (auto simp: r lift_row_def)
  next
    case False
    then have "rows_for acc family (rows @ [r]) sg = rows_for acc family rows sg" by (auto simp: rows_for_def r)
    then show ?thesis using snoc False by (auto simp: r lift_row_def)
  qed
qed (simp add: rows_for_def)

lemma seen_wf: "wf_map (fold (lift_row acc family) rows [])"
proof (induction rows rule: rev_induct)
  case (snoc r rows)
  then show ?case by (cases r) (simp add: lift_row_def)
qed simp

lemma lead_of_rows:
  assumes "rows_for acc family rows k \<noteq> []"
    and e: "e = fold (\<lambda>(c, s). grow c s) (rows_for acc family rows k) (new_lead k)"
  shows "LHits e = (\<Sum>(c, s)\<leftarrow>rows_for acc family rows k. cs_hits s) \<and>
    set (Camps e) = fst ` set (rows_for acc family rows k) \<and>
    set (Vanilla e) = (\<Union>(c, s)\<in>set (rows_for acc family rows k). set (cs_vanilla s)) \<and> Vanilla e \<noteq> [] \<and>
    (\<forall>(c, s) \<in> set (rows_for acc family rows k). FiledAs k (map bare (cs_targets s)) = []) \<and>
    \<not> (is_overflow k \<and> src_of k \<in> set acc)"
proof -
  let ?m = "rows_for acc family rows k"
  have m: "lifted acc family s \<and> cs_signature s = k" if "(c, s) \<in> set ?m" for c s using that by (simp add: rows_for_def)
  obtain c s where cs: "(c, s) \<in> set ?m" using assms(1) by (cases ?m) auto
  have v: "set (Vanilla e) = (\<Union>(c, s)\<in>set ?m. set (cs_vanilla s))"
    unfolding e by (simp only: grown) (simp add: new_lead_def)
  moreover have "cs_vanilla s \<noteq> []" using m [OF cs] by (simp add: lifted_def)
  then have "Vanilla e \<noteq> []" using v cs by force
  moreover have "LHits e = (\<Sum>(c, s)\<leftarrow>?m. cs_hits s)" "set (Camps e) = fst ` set ?m"
    unfolding e by (simp_all only: grown) (simp_all add: new_lead_def)
  moreover have "\<not> (is_overflow k \<and> src_of k \<in> set acc)" using m [OF cs] unfolding lifted_def by blast
  moreover have "\<forall>(c, s) \<in> set ?m. FiledAs k (map bare (cs_targets s)) = []" using m unfolding lifted_def by blast
  ultimately show ?thesis by blast
qed

text \<open>
  C26: The lift is the list of signatures that landed on stock PostgreSQL and nothing explains. Each
  signature of a census row that is lifted stands in it once and no other does; its hits are the sum over all
  those rows, its campaigns and its vanilla workspaces theirs; no finding is filed for it under the targets
  of any of its rows, and it is not an accepted overflow; memory errors come first, then asserts, then the
  rest, and within a class the one with most hits.
\<close>

theorem lift_is_unexplained_signatures:
  assumes "acc = fst (AcceptedUBSan ubsan)" and "rows = census_rows cs" and "out = LiftCandidates listing ubsan family cs"
  shows "distinct (map Sig out) \<and>
    set (map Sig out) = {cs_signature s | c s. (c, s) \<in> set rows \<and> lifted acc family s} \<and>
    sorted (map (\<lambda>e. (classOrder (SigClass (Sig e)), - LHits e)) out) \<and>
    (\<forall>e. e \<in> set out \<longrightarrow>
       (let mine = rows_for acc family rows (Sig e)
        in LHits e = (\<Sum>(c, s)\<leftarrow>mine. cs_hits s) \<and> set (Camps e) = fst ` set mine \<and>
           set (Vanilla e) = (\<Union>(c, s)\<in>set mine. set (cs_vanilla s)) \<and> Vanilla e \<noteq> [] \<and>
           (\<forall>(c, s) \<in> set mine. FiledAs (Sig e) (map bare (cs_targets s)) = []) \<and>
           \<not> (is_overflow (Sig e) \<and> src_of (Sig e) \<in> set acc)))"
proof -
  let ?seen = "fold (lift_row acc family) rows []"
  let ?fin = "\<lambda>e. e\<lparr>Artefacts := concat (map (\<lambda>c. ArtefactsFor listing (ce_campaign c) (Vanilla e) (LTargets e)) cs)\<rparr>"
  have out: "out = sort_key (\<lambda>e. (classOrder (LClass e), - LHits e)) (map (\<lambda>(k, e). ?fin e) ?seen)"
    unfolding assms LiftCandidates_def Let_def ..
  have lead: "k = Sig e \<and> rows_for acc family rows k \<noteq> [] \<and>
      e = fold (\<lambda>(c, s). grow c s) (rows_for acc family rows k) (new_lead k)" if "(k, e) \<in> set ?seen" for k e
  proof -
    have "map_of ?seen k = Some e" using that map_of_in_set [OF seen_wf] by blast
    then show ?thesis by (auto simp: seen_leads grown new_lead_def split: if_splits)
  qed
  have sig: "map Sig (map (\<lambda>(k, e). ?fin e) ?seen) = map fst ?seen"
    using lead by (auto simp: comp_def split: prod.split)
  have keys: "fst ` set ?seen = {cs_signature s | c s. (c, s) \<in> set rows \<and> lifted acc family s}"
    unfolding dom_map_of_conv_image_fst [symmetric]
    by (auto simp: dom_def seen_leads rows_for_def filter_empty_conv)
  have "mset (map Sig out) = mset (map fst ?seen)" unfolding out sig [symmetric] by (simp only: mset_map mset_sort)
  then have s: "distinct (map Sig out)" "set (map Sig out) = fst ` set ?seen"
    using seen_wf by (metis mset_eq_imp_distinct_iff, metis mset_eq_setD set_map)
  have each: "\<exists>k e'. (k, e') \<in> set ?seen \<and> e = ?fin e'" if "e \<in> set out" for e
    using that unfolding out by auto
  have cls: "LClass e = SigClass (Sig e)" if o: "e \<in> set out" for e
  proof -
    obtain k e' where k: "(k, e') \<in> set ?seen" "e = ?fin e'" using each [OF o] by blast
    then have e: "e' = fold (\<lambda>(c, s). grow c s) (rows_for acc family rows k) (new_lead k)" using lead by blast
    have "LClass e' = SigClass k" "Sig e' = k" by (simp_all only: e grown) (simp_all add: new_lead_def)
    then show ?thesis using k(2) by simp
  qed
  have "sorted (map (\<lambda>e. (classOrder (LClass e), - LHits e)) out)" unfolding out by (rule sorted_sort_key)
  then have "sorted (map (\<lambda>e. (classOrder (SigClass (Sig e)), - LHits e)) out)"
    using cls by (metis (no_types, lifting) map_eq_conv)
  moreover have "let mine = rows_for acc family rows (Sig e)
        in LHits e = (\<Sum>(c, s)\<leftarrow>mine. cs_hits s) \<and> set (Camps e) = fst ` set mine \<and>
           set (Vanilla e) = (\<Union>(c, s)\<in>set mine. set (cs_vanilla s)) \<and> Vanilla e \<noteq> [] \<and>
           (\<forall>(c, s) \<in> set mine. FiledAs (Sig e) (map bare (cs_targets s)) = []) \<and>
           \<not> (is_overflow (Sig e) \<and> src_of (Sig e) \<in> set acc)" if "e \<in> set out" for e
  proof -
    obtain k e' where k: "(k, e') \<in> set ?seen" "e = ?fin e'" using each [OF \<open>e \<in> set out\<close>] by blast
    have "k = Sig e'" using lead [OF k(1)] by blast
    then have S: "Sig e = k" and L: "LHits e = LHits e'" "Camps e = Camps e'" "Vanilla e = Vanilla e'"
      using k(2) by simp_all
    have ne: "rows_for acc family rows k \<noteq> []"
      and e: "e' = fold (\<lambda>(c, s). grow c s) (rows_for acc family rows k) (new_lead k)" using lead [OF k(1)] by blast+
    from lead_of_rows [OF ne e] show ?thesis unfolding S L Let_def .
  qed
  ultimately show ?thesis using s keys by blast
qed

definition a_sig :: census_sig where
  "a_sig = \<lparr>cs_signature = ''SEGV x.c:7'', cs_families = [''pg17''], cs_vanilla = [''pg17-add''], cs_oriole = False,
     cs_targets = [''a_fuzzer''], cs_hits = 3\<rparr>"

theorem lift_is_unexplained_signatures_witness:
  "set (map Sig (LiftCandidates (\<lambda>_. None) None ''pg17'' [\<lparr>ce_campaign = ''c1'', ce_sigs = [a_sig]\<rparr>])) = {''SEGV x.c:7''}"
proof -
  have "lifted (fst (AcceptedUBSan None)) ''pg17'' a_sig" by code_simp
  then have "{cs_signature s | c s. (c, s) \<in> set (census_rows [\<lparr>ce_campaign = ''c1'', ce_sigs = [a_sig]\<rparr>])
      \<and> lifted (fst (AcceptedUBSan None)) ''pg17'' s} = {cs_signature a_sig}"
    by (auto simp: census_rows_def)
  also have "cs_signature a_sig = ''SEGV x.c:7''" by (simp add: a_sig_def)
  finally show ?thesis
    using lift_is_unexplained_signatures [OF refl refl refl, of "\<lambda>_. None" None "''pg17''" "[\<lparr>ce_campaign = ''c1'', ce_sigs = [a_sig]\<rparr>]"]
    by (simp only: simp_thms)
qed

text \<open>
  The token of an OrioleDB workspace: the shorter family word is tried first, and the rest of the word follows
  it. A version with a suffix is a workspace name, the name of a mailing list only if no list of known
  workspaces is given.
\<close>

lemma workspaces_named_examples:
  "WorkspacesNamed ''seen on oriolebare17-und and pg17-add, see pgsql-bugs; pg17'' None = [''oriolebare17-und'', ''pg17-add'', ''pgsql-bugs'']"
  "WorkspacesNamed ''seen on pg17-add, see pgsql-bugs'' (Some [''pg17-add'']) = [''pg17-add'']"
  by (code_simp, code_simp)

end
