(* ===== verification/Triage_Parse.thy ===== *)
theory Triage_Parse
  imports Triage
begin

text \<open>
  Reading one write-up for the triage document (\<open>internal/triage/parse.go\<close>): its fields, the section under a
  heading, the one block of it that a maintainer should run, and the lead paragraph of its cause. Text is
  ASCII where the code changes its case.
\<close>

subsection \<open>patterns\<close>

definition word_or :: "string \<Rightarrow> char \<Rightarrow> bool" where
  "word_or extra c \<longleftrightarrow> lower_digit_or extra (lower c)"

text \<open>\<open>(?m)^\*\*name:\*\*\s*(.+)\<close>, and the looser form for the status.\<close>

definition bold_field :: "re \<Rightarrow> re" where
  "bold_field name = seqs [LineBol, lit ''**'', name, lit '':**'', Star (Class re_space), Group 1 (plus any)]"

definition status_field :: re where
  "status_field = seqs [LineBol, lit ''**Status'', opt (lit '':''), opt (lit ''*''), opt (lit ''*''), opt (lit '':''),
     Star (Class re_space), Group 1 (plus any)]"

definition field_patterns :: "(string \<times> re) list" where
  "field_patterns =
     [(''status'', status_field), (''found_by'', bold_field (lit ''Found by'')), (''found'', bold_field (lit ''Found'')),
      (''where'', bold_field (Alt (lit ''Where'') (lit ''Component''))), (''affects'', bold_field (lit ''Affects'')),
      (''build'', bold_field (lit ''Build'')), (''severity'', bold_field (lit ''Severity'')),
      (''cause_field'', bold_field (lit ''Cause''))]"

definition heading :: "re list \<Rightarrow> re" where
  "heading rs = seqs [LineBol, Alt (lit ''###'') (lit ''##''), spaces, Group 1 (alts rs), LineEol]"

definition rest :: re where "rest = Star any"

definition reproH :: re where
  "reproH = heading
     [seqs [opt (Alt (lit_ci ''Minimal '') (lit_ci ''Packaged '')), lit_ci ''Reproduc'', Alt (lit_ci ''e'') (lit_ci ''er''), WordB, rest],
      Seq (lit_ci ''Confirmed from SQL'') rest, Seq (lit_ci ''The packaged reproducer'') rest]"

definition causeH :: re where
  "causeH = heading
     [lit_ci ''Mechanism'', lit_ci ''The defect'', seqs [lit_ci ''Cause'', WordB, rest], lit_ci ''Root cause'',
      lit_ci ''The bug, in one line'', lit_ci ''What happens'', lit_ci ''The crash'', lit_ci ''The allocation'',
      Seq (lit_ci ''Corrected summary'') rest, lit_ci ''Summary'', lit_ci ''The measurement'', lit_ci ''The report'',
      lit_ci ''What it was'', Seq (lit_ci ''The chain'') rest, lit_ci ''What the assertion is actually guarding'']"

definition fence :: string where "fence = ''```''"

definition runnable :: re where
  "runnable = seqs [lit fence, opt (alts [lit ''sql'', lit ''bash'', lit ''sh'', lit ''console'', lit ''c'', lit ''text'']),
     lit [newline], Group 1 (LazyStar (Class (\<lambda>_. True))), lit fence]"

definition sql_verbs :: "re list" where
  "sql_verbs = map lit_ci [''SELECT'', ''INSERT'', ''UPDATE'', ''DELETE'', ''CREATE'', ''ALTER'', ''DROP'', ''VACUUM'', ''ANALYZE'',
     ''REINDEX'', ''COPY'', ''SET'', ''BEGIN'', ''DO'', ''WITH'', ''TRUNCATE'', ''GRANT'', ''EXPLAIN'']"

definition blank :: re where "blank = Class re_space"

definition prompt_word :: re where
  "prompt_word = seqs [plus (Class (word_or ''_'')), lit ''='', Class (\<lambda>c. c = CHR ''#'' \<or> c = CHR ''>'')]"

definition runnableStart :: re where
  "runnableStart = seqs [Bol, Star blank, opt (Alt (Seq (lit ''$'') (Star blank)) (Seq (lit ''#'') (Star blank))),
     alts (sql_verbs @
       [lit_ci ''docker'', lit_ci ''psql'', lit_ci ''python3'', lit ''./'', lit_ci ''bash'', Seq (lit_ci ''sh'') blank,
        lit_ci ''make'', lit_ci ''git'', Seq (lit_ci ''cd'') blank, Seq (lit_ci ''export'') blank, lit_ci ''pg_ctl'',
        lit_ci ''initdb'', Seq (lit_ci ''postgres'') blank, lit_ci ''pgbench'', lit_ci ''./pgfuzz'', lit_ci ''ONLY='',
        lit_ci ''PGFUZZ_'', prompt_word])]"

definition promptRe :: re where "promptRe = seqs [LineBol, prompt_word, opt blank]"

definition sqlStart :: re where "sqlStart = seqs [Bol, Star blank, alts sql_verbs, WordB]"

definition shellStart :: re where
  "shellStart = seqs [Bol, Star blank, alts [lit_ci ''docker'', lit_ci ''psql'', lit_ci ''pg_ctl'', lit_ci ''initdb'',
     Seq (lit_ci ''postgres'') blank, lit_ci ''pgbench'']]"

definition comment_lines :: "re \<Rightarrow> re" where
  "comment_lines start = Seq Bol (plus (seqs [Star blank, start, Star any, lit [newline]]))"

definition leadComment :: re where "leadComment = comment_lines (lit ''--'')"
definition leadAnyCmt :: re where "leadAnyCmt = comment_lines (Alt (lit ''--'') (lit ''#''))"
definition nextHeading :: re where "nextHeading = seqs [LineBol, alts [lit ''###'', lit ''##'', lit ''#''], spaces]"
definition titleRe :: re where "titleRe = seqs [Bol, lit ''#'', spaces, Group 1 (plus any)]"
definition sqlFence :: re where "sqlFence = Seq LineBol (lit (fence @ ''sql''))"

subsection \<open>the runnable block\<close>

text \<open>\<open>sectionAfter\<close>: what follows the heading starts a text of its own.\<close>

definition sectionAfter :: "string \<Rightarrow> re \<Rightarrow> string" where
  "sectionAfter s h =
     (case find_split h s of
        None \<Rightarrow> []
      | Some (_, after) \<Rightarrow> (case find_split nextHeading after of Some (body, _) \<Rightarrow> body | None \<Rightarrow> after))"

definition vectorRank :: "string \<Rightarrow> int" where
  "vectorRank body =
     (let b = replace_re leadComment [] body
      in if match_re sqlStart b then 0 else if match_re shellStart b then 1 else 2)"

definition block_body :: "(nat \<times> string) list \<Rightarrow> string" where
  "block_body m = replace_re promptRe [] (trim_space (grp m 1))"

definition is_runnable :: "string \<Rightarrow> bool" where
  "is_runnable body \<longleftrightarrow> body \<noteq> [] \<and> match_re runnableStart (replace_re leadAnyCmt [] body)"

definition blocks_of :: "string \<Rightarrow> string list" where
  "blocks_of s = map block_body (find_all runnable s)"

text \<open>The loop over the blocks: the best so far, left at the first one of rank 0.\<close>

fun best_block :: "(int \<times> string) option \<Rightarrow> string list \<Rightarrow> (int \<times> string) option" where
  "best_block best [] = best"
| "best_block best (b # bs) =
     (if \<not> is_runnable b then best_block best bs
      else
        (let r = vectorRank b;
             best' = (case best of None \<Rightarrow> Some (r, b) | Some (r0, b0) \<Rightarrow> if r < r0 then Some (r, b) else best)
         in if r = 0 then best' else best_block best' bs))"

definition clip :: "string \<Rightarrow> string" where
  "clip b = (let ls = split_at newline b in if length ls > 12 then join [newline] (take 12 ls) @ newline # ''...'' else b)"

definition path_base :: "string \<Rightarrow> string" where
  "path_base p = (case last_index (CHR ''/'') p of None \<Rightarrow> p | Some i \<Rightarrow> drop (Suc i) p)"

definition input_vector :: "string list \<Rightarrow> string \<times> string" where
  "input_vector inputs =
     (case filter (\<lambda>f. has_suffix f ''.sql'' \<or> has_prefix (path_base f) ''repro'') inputs of
        f # _ \<Rightarrow> (''psql -f '' @ f, ''file'')
      | [] \<Rightarrow> ([], []))"

fun first_scope :: "(string \<times> string) list \<Rightarrow> (string \<times> string) option" where
  "first_scope [] = None"
| "first_scope ((s, label) # ss) =
     (if s = [] then first_scope ss
      else (case best_block None (blocks_of s) of Some (_, b) \<Rightarrow> Some (clip b, label) | None \<Rightarrow> first_scope ss))"

definition ExtractRepro :: "string list \<Rightarrow> string \<Rightarrow> string \<times> string" where
  "ExtractRepro inputs s =
     (case first_scope [(sectionAfter s reproH, ''stated''), (s, ''inferred'')] of
        Some r \<Rightarrow> r
      | None \<Rightarrow> input_vector inputs)"

subsection \<open>the write-up\<close>

definition ReadWriteup :: "fsnode option \<Rightarrow> bool \<Rightarrow> string" where
  "ReadWriteup d siblings =
     (case d of
        None \<Rightarrow> []
      | Some x \<Rightarrow>
          let extra = sort (filter (\<lambda>n. has_suffix n ''.md'' \<and> n \<noteq> ''README.md'') (map fst (entries x)))
          in join [newline, newline] (List.map_filter (read_file x) (''README.md'' # (if siblings then extra else []))))"

function split_re :: "re \<Rightarrow> string \<Rightarrow> string list" where
  "split_re r s =
     (case find_split r s of
        None \<Rightarrow> [s]
      | Some (u, v) \<Rightarrow> if length v < length s then u # split_re r v else [s])"
  by pat_completeness auto
termination by (relation "measure (\<lambda>(r, s). length s)") auto

definition para_break :: re where "para_break = seqs [lit [newline], Star blank, lit [newline]]"

definition collapse :: "string \<Rightarrow> string" where "collapse s = replace_re spaces '' '' (trim_space s)"

definition ends_colon :: "string list \<Rightarrow> bool" where "ends_colon out \<longleftrightarrow> out \<noteq> [] \<and> has_suffix (last out) '':''"

fun paras :: "string list \<Rightarrow> string list \<Rightarrow> string list" where
  "paras out [] = out"
| "paras out (chunk # cs) =
     (let c = collapse chunk
      in if c = [] \<or> has_prefix c fence \<or> has_prefix c ''|'' \<or> has_prefix c ''>''
         then (if ends_colon out then paras out cs else if out \<noteq> [] then out else paras out cs)
         else (let out' = out @ [c] in if \<not> has_suffix c '':'' \<or> length out' = 3 then out' else paras out' cs))"

definition FirstPara :: "string \<Rightarrow> string" where
  "FirstPara body =
     (if trim_space body = [] then [] else join '' '' (paras [] (split_re para_break (trim_space body))))"

record writeup =
  wu_name :: string
  wu_area :: string
  wu_title :: string
  wu_status :: string
  wu_found_by :: string
  wu_found :: string
  wu_where :: string
  wu_affects :: string
  wu_build :: string
  wu_severity :: string
  wu_cause :: string
  wu_cause_stated :: bool
  wu_repro :: string
  wu_repro_src :: string
  wu_sql_blocks :: nat
  wu_inputs :: "string list"
  wu_override :: "(string \<times> string) option"
  wu_fixed :: bool
  wu_confirmed :: bool
  wu_warns :: "string list"

definition get_field :: "string \<Rightarrow> string \<Rightarrow> string" where
  "get_field s k =
     (case find_re (the (map_of field_patterns k)) s of
        None \<Rightarrow> []
      | Some m \<Rightarrow> trim_cutset (unstarred (trim_space (grp m 1))) '' .*'')"

definition statusConfirmed :: re where
  "statusConfirmed = seqs [lit ''**'', lit_ci ''Status'', opt (lit '':''), Star blank, lit_ci ''CONFIRMED'']"

definition warnings :: "string list" where
  "warnings = [''CAUSE NOT ESTABLISHED'', ''ALMOST CERTAINLY WRONG'', ''SUPERSEDED'', ''not reported upstream'']"

definition ParseFinding :: "string \<Rightarrow> fsnode option \<Rightarrow> writeup" where
  "ParseFinding name d =
     (let s = ReadWriteup d False; inputs = InputsFor d; low = map lower s;
          own = ExtractRepro inputs s;
          rp = (if fst own = [] then ExtractRepro inputs (ReadWriteup d True) else own);
          stated = get_field s ''cause_field''
      in \<lparr>wu_name = name, wu_area = AreaOf name,
          wu_title = (case find_re titleRe s of None \<Rightarrow> name | Some m \<Rightarrow> trim_space (grp m 1)),
          wu_status = get_field s ''status'', wu_found_by = get_field s ''found_by'', wu_found = get_field s ''found'',
          wu_where = get_field s ''where'', wu_affects = get_field s ''affects'', wu_build = get_field s ''build'',
          wu_severity = get_field s ''severity'',
          wu_cause = (if stated = [] then FirstPara (sectionAfter s causeH) else stated), wu_cause_stated = (stated \<noteq> []),
          wu_repro = fst rp, wu_repro_src = snd rp,
          wu_sql_blocks = length (find_all sqlFence s), wu_inputs = inputs, wu_override = map_of AttribOverride name,
          wu_fixed = (contains low ''**fixed**'' \<or> contains low ''fixed 2026''),
          wu_confirmed = (contains (map lower (get_field s ''status'')) ''confirmed'' \<or> match_re statusConfirmed s),
          wu_warns = filter (\<lambda>w. contains low (map lower w)) warnings\<rparr>)"

definition Evidence :: "writeup \<Rightarrow> string" where
  "Evidence f =
     (if wu_fixed f then ''fixed'' else if wu_confirmed f then ''confirmed''
      else if wu_inputs f \<noteq> [] \<or> wu_sql_blocks f > 0 then ''recorded'' else ''no artefact'')"

subsection \<open>the block chosen\<close>

lemma hd_insort_key: "hd (insort_key f x ys) = (if ys = [] \<or> f x \<le> f (hd ys) then x else hd ys)"
  by (cases ys) auto

lemma hd_sort_step: "hd (sort_key f (b # c # xs)) = hd (sort_key f ((if f c < f b then c else b) # xs))"
  by (simp add: hd_insort_key) (cases "sort_key f xs"; force)

lemma hd_sort_least: "(\<And>y. y \<in> set xs \<Longrightarrow> f b \<le> f y) \<Longrightarrow> hd (sort_key f (b # xs)) = b"
  by (simp add: hd_insort_key) (metis hd_in_set set_sort)

lemma rank_range: "0 \<le> vectorRank b \<and> vectorRank b \<le> 2"
  by (simp add: vectorRank_def Let_def)

definition ranked :: "string \<Rightarrow> int \<times> string" where "ranked b = (vectorRank b, b)"

lemma best_block_some:
  "0 < vectorRank b0 \<Longrightarrow>
   best_block (Some (ranked b0)) bs = Some (ranked (hd (sort_key vectorRank (b0 # filter is_runnable bs))))"
proof (induction bs arbitrary: b0)
  case (Cons b bs)
  show ?case
  proof (cases "is_runnable b")
    case True
    let ?c = "if vectorRank b < vectorRank b0 then b else b0"
    show ?thesis
    proof (cases "vectorRank b = 0")
      case zero: True
      have "best_block (Some (ranked b0)) (b # bs) = Some (ranked b)"
        using True zero Cons.prems by (simp add: ranked_def)
      moreover have "hd (sort_key vectorRank (b0 # b # filter is_runnable bs)) = b"
        unfolding hd_sort_step using zero Cons.prems rank_range by (simp only: if_True) (rule hd_sort_least, simp)
      ultimately show ?thesis using True by (simp only: filter.simps if_True)
    next
      case False
      then have pos: "0 < vectorRank ?c" using Cons.prems rank_range [of b] by simp
      have "best_block (Some (ranked b0)) (b # bs) = best_block (Some (ranked ?c)) bs"
        using True False by (simp add: ranked_def)
      also have "\<dots> = Some (ranked (hd (sort_key vectorRank (?c # filter is_runnable bs))))" by (rule Cons.IH [OF pos])
      also have "\<dots> = Some (ranked (hd (sort_key vectorRank (b0 # b # filter is_runnable bs))))"
        by (simp only: hd_sort_step)
      finally show ?thesis using True by (simp only: filter.simps if_True)
    qed
  next
    case False
    then show ?thesis using Cons by simp
  qed
qed simp

text \<open>Leaving the loop at the first block of the best rank changes nothing.\<close>

lemma best_block_spec:
  "best_block None bs = (case filter is_runnable bs of [] \<Rightarrow> None | r # rs \<Rightarrow> Some (ranked (hd (sort_key vectorRank (r # rs)))))"
proof (induction bs)
  case (Cons b bs)
  show ?case
  proof (cases "is_runnable b")
    case True
    show ?thesis
    proof (cases "vectorRank b = 0")
      case zero: True
      have "hd (sort_key vectorRank (b # filter is_runnable bs)) = b"
        by (rule hd_sort_least) (use zero rank_range in simp)
      then show ?thesis using True zero by (simp only: best_block.simps filter.simps) (simp add: ranked_def)
    next
      case False
      then have "best_block None (b # bs) = best_block (Some (ranked b)) bs" using True by (simp add: ranked_def)
      then show ?thesis using best_block_some [of b bs] False rank_range [of b] True by (simp only: filter.simps) simp
    qed
  qed (use Cons in simp)
qed simp

definition choose_block :: "string \<Rightarrow> string option" where
  "choose_block s = (case filter is_runnable (blocks_of s) of
     [] \<Rightarrow> None | r # rs \<Rightarrow> Some (clip (hd (sort_key vectorRank (r # rs)))))"

lemma blocks_of_Nil: "blocks_of [] = []"
  by (simp add: blocks_of_def find_all_def)

lemma first_scope_spec:
  "first_scope ((s, label) # ss) = (case choose_block s of Some b \<Rightarrow> Some (b, label) | None \<Rightarrow> first_scope ss)"
proof (cases "s = []")
  case True
  then show ?thesis by (simp add: choose_block_def blocks_of_Nil)
next
  case False
  then show ?thesis by (simp add: choose_block_def best_block_spec ranked_def split: list.split)
qed

lemma hd_sort_first:
  fixes f :: "string \<Rightarrow> int"
  assumes "filter P zs = r # rs"
  shows "\<exists>xs c ys. zs = xs @ c # ys \<and> hd (sort_key f (r # rs)) = c \<and> P c \<and>
      filter (\<lambda>x. P x \<and> f x \<le> f c) xs = [] \<and> filter (\<lambda>y. P y \<and> f y < f c) ys = []"
  using assms
proof (induction zs arbitrary: r rs)
    case (Cons z zs)
    show ?case
    proof (cases "P z")
      case False
      with Cons.prems have "filter P zs = r # rs" by simp
      from Cons.IH [OF this] obtain xs c ys where "zs = xs @ c # ys" "hd (sort_key f (r # rs)) = c" "P c"
        "filter (\<lambda>x. P x \<and> f x \<le> f c) xs = []" "filter (\<lambda>y. P y \<and> f y < f c) ys = []" by blast
      then show ?thesis using False by (intro exI [of _ "z # xs"] exI [of _ c] exI [of _ ys]) simp
    next
      case True
      then have r: "r = z" and rs: "filter P zs = rs" using Cons.prems by simp_all
      show ?thesis
      proof (cases "\<forall>y \<in> set rs. f z \<le> f y")
        case least: True
        then have "hd (sort_key f (r # rs)) = z" unfolding r by (intro hd_sort_least) blast
        moreover have "filter (\<lambda>y. P y \<and> f y < f z) zs = []" using least rs by (force simp: filter_empty_conv)
        ultimately show ?thesis using True by (intro exI [of _ "[]"] exI [of _ z] exI [of _ zs]) simp
      next
        case False
        then obtain r' rs' where q: "rs = r' # rs'" by (cases rs) auto
        from Cons.IH [OF rs [unfolded q]] obtain xs c ys where c: "zs = xs @ c # ys" "hd (sort_key f (r' # rs')) = c" "P c"
          "filter (\<lambda>x. P x \<and> f x \<le> f c) xs = []" "filter (\<lambda>y. P y \<and> f y < f c) ys = []" by blast
        have "f c \<le> f y" if "y \<in> set rs" for y
        proof -
          have "y \<in> set zs" "P y" using that unfolding rs [symmetric] by simp_all
          then show ?thesis using c(1,4,5) by (force simp: filter_empty_conv)
        qed
        then have lt: "f c < f z" using False by force
        have "hd (sort_key f (r # rs)) = c"
          using c(2) lt unfolding r q sort_key_simps by (simp add: hd_insort_key [of f z])
        then show ?thesis using c lt by (intro exI [of _ "z # xs"] exI [of _ c] exI [of _ ys]) simp
      qed
    qed
qed simp

text \<open>
  C28: One vector, the nearest to what a maintainer can run. The block reported for a finding is the best
  ranked of the runnable blocks of its reproduction section, the first of them among equals, cut to twelve
  lines and labelled as stated; only if that section has none is it the best ranked of the whole write-up,
  labelled as inferred; only if there is none at all is a file named. SQL ranks before the shell and the shell
  before anything else, and leaving the search early at a statement of SQL changes nothing.
\<close>

theorem repro_is_best_block:
  "ExtractRepro inputs s =
     (case choose_block (sectionAfter s reproH) of
        Some b \<Rightarrow> (b, ''stated'')
      | None \<Rightarrow> (case choose_block s of Some b \<Rightarrow> (b, ''inferred'') | None \<Rightarrow> input_vector inputs)) \<and>
   (case choose_block s of
      None \<Rightarrow> filter is_runnable (blocks_of s) = []
    | Some b \<Rightarrow> (\<exists>xs c ys. blocks_of s = xs @ c # ys \<and> b = clip c \<and> is_runnable c \<and>
        filter (\<lambda>x. is_runnable x \<and> vectorRank x \<le> vectorRank c) xs = [] \<and>
        filter (\<lambda>y. is_runnable y \<and> vectorRank y < vectorRank c) ys = []))"
proof (intro conjI)
  show "ExtractRepro inputs s = (case choose_block (sectionAfter s reproH) of
        Some b \<Rightarrow> (b, ''stated'')
      | None \<Rightarrow> (case choose_block s of Some b \<Rightarrow> (b, ''inferred'') | None \<Rightarrow> input_vector inputs))"
    unfolding ExtractRepro_def first_scope_spec by (auto split: option.split)
  show "case choose_block s of
      None \<Rightarrow> filter is_runnable (blocks_of s) = []
    | Some b \<Rightarrow> (\<exists>xs c ys. blocks_of s = xs @ c # ys \<and> b = clip c \<and> is_runnable c \<and>
        filter (\<lambda>x. is_runnable x \<and> vectorRank x \<le> vectorRank c) xs = [] \<and>
        filter (\<lambda>y. is_runnable y \<and> vectorRank y < vectorRank c) ys = [])"
  proof (cases "filter is_runnable (blocks_of s)")
    case Nil
    then show ?thesis by (simp add: choose_block_def)
  next
    case (Cons r rs)
    then show ?thesis using hd_sort_first [OF Cons, of vectorRank] by (simp add: choose_block_def) blast
  qed
qed

text \<open>A comment in a shell block of the section is taken for the next heading, and the section loses the block.\<close>

definition commented :: string where
  "commented = [newline] @ fence @ [newline] @ ''# as root'' @ [newline] @ ''psql'' @ [newline] @ fence"

lemma comment_ends_section:
  assumes "find_split h s = Some (u, commented)"
  shows "sectionAfter s h = [newline] @ fence @ [newline] \<and> blocks_of (sectionAfter s h) = [] \<and>
    blocks_of commented = [''# as root'' @ [newline] @ ''psql'']"
proof -
  have "find_split nextHeading commented = Some ([newline] @ fence @ [newline], ''as root'' @ [newline] @ ''psql'' @ [newline] @ fence)"
    by code_simp
  then have "sectionAfter s h = [newline] @ fence @ [newline]" by (simp add: sectionAfter_def assms)
  moreover have "blocks_of ([newline] @ fence @ [newline]) = []" by code_simp
  moreover have "blocks_of commented = [''# as root'' @ [newline] @ ''psql'']" by code_simp
  ultimately show ?thesis by simp
qed

lemma examples_of_parsing:
  "collapse (''a  b'' @ [newline] @ ''c '') = ''a b c''"
  "split_re para_break (unlines [''a'', [], ''b'']) = [''a'', ''b'' @ [newline]]"
  by (code_simp, code_simp)

text \<open>A status that denies it counts as confirmed.\<close>

lemma unconfirmed_is_confirmed:
  "Evidence (ParseFinding n (Some (Dir [(''README.md'', File ''**Status:** unconfirmed'')]))) = ''confirmed''"
proof -
  have s: "ReadWriteup (Some (Dir [(''README.md'', File ''**Status:** unconfirmed'')])) False = ''**Status:** unconfirmed''"
    by code_simp
  have g: "get_field ''**Status:** unconfirmed'' ''status'' = ''unconfirmed''" by code_simp
  have c: "contains (map lower ''unconfirmed'') ''confirmed''"
    "\<not> contains (map lower ''**Status:** unconfirmed'') ''**fixed**''"
    "\<not> contains (map lower ''**Status:** unconfirmed'') ''fixed 2026''" by code_simp+
  show ?thesis unfolding ParseFinding_def Let_def s Evidence_def writeup.select_convs g using c by simp
qed

end
