(* ===== verification/Round_Gates.thy ===== *)
theory Round_Gates
  imports Campaign Ratchet_Analysis Gate Sweep_Logs
begin

text \<open>
  What happens to a round once it has run (\<open>cmd/pgfuzz/main.go\<close>): which logs it is judged from
  (\<open>gatherRunLogs\<close>, \<open>newestPerTarget\<close>, \<open>cmdRatchet\<close>), the gate command and the verdict that ships in a
  bundle (\<open>cmdGate\<close>, \<open>runGateQuiet\<close>), the ratchet's check and update (\<open>cmdRatchet\<close>, \<open>recordRound\<close>), what
  the driver runs and records after a sweep (\<open>gateAfterSweep\<close>), and the command that lowers a floor
  (\<open>cmdReseed\<close>).

  A directory is the files in it and, under \<open>artifacts\<close>, a directory of files per target, in the order of
  their names. A file has its modification time, unless it cannot be read, and its text, unless it does not
  open. What a command reads of its environment besides is its arguments.
\<close>

subsection \<open>the run logs of a directory\<close>

record run_file =
  rf_mtime :: "int option"
  rf_text :: "string option"

record run_log =
  rl_dir :: string
  rl_name :: string
  rl_file :: run_file

record log_root =
  lr_name :: string
  lr_artifacts :: "(string \<times> (string \<times> run_file) list) list"
  lr_files :: "(string \<times> run_file) list"

text \<open>\<open>a.After(b)\<close>, the zero time of a file that cannot be read before all others.\<close>

definition after :: "int option \<Rightarrow> int option \<Rightarrow> bool" where
  "after a b = (case a of None \<Rightarrow> False | Some x \<Rightarrow> (case b of None \<Rightarrow> True | Some y \<Rightarrow> y < x))"

definition mtime :: "run_log \<Rightarrow> int option" where "mtime p = rf_mtime (rl_file p)"

definition newest :: "run_log list \<Rightarrow> int option" where
  "newest ps = fold (\<lambda>p t. if after (mtime p) t then mtime p else t) ps None"

definition trim_suffix :: "string \<Rightarrow> string \<Rightarrow> string" where
  "trim_suffix s x = (if has_suffix s x then take (length s - length x) s else s)"

definition trim_prefix :: "string \<Rightarrow> string \<Rightarrow> string" where
  "trim_prefix s x = (if has_prefix s x then drop (length x) s else s)"

definition targetOf :: "run_log \<Rightarrow> string" where
  "targetOf p = (if has_suffix (rl_dir p) ''_fuzzer'' then rl_dir p else trim_prefix (trim_suffix (rl_name p) ''.log'') ''soak-'')"

definition artifact_logs :: "log_root \<Rightarrow> string \<Rightarrow> run_log list" where
  "artifact_logs r pat = concat (map (\<lambda>(d, fs). map (\<lambda>(n, f). \<lparr>rl_dir = d, rl_name = n, rl_file = f\<rparr>)
     (filter (\<lambda>(n, f). glob pat n) fs)) (lr_artifacts r))"

definition root_logs :: "log_root \<Rightarrow> string \<Rightarrow> run_log list" where
  "root_logs r pat = map (\<lambda>(n, f). \<lparr>rl_dir = lr_name r, rl_name = n, rl_file = f\<rparr>) (filter (\<lambda>(n, f). glob pat n) (lr_files r))"

definition gatherRunLogs :: "log_root \<Rightarrow> run_log list" where
  "gatherRunLogs r =
     (let out = artifact_logs r ''run-*.log'' @ artifact_logs r ''run-*.log.gz''
      in if length out = 0 then root_logs r ''soak-*_fuzzer.log'' @ root_logs r ''soak-*_fuzzer.log.gz'' else out)"

text \<open>\<open>newestPerTarget\<close>: \<open>None\<close> is no window, else the moment before which a log is too old.\<close>

definition newer_log :: "run_log \<Rightarrow> run_log gomap \<Rightarrow> run_log gomap" where
  "newer_log p best =
     (case map_of best (targetOf p) of
        None \<Rightarrow> AList.update (targetOf p) p best
      | Some cur \<Rightarrow> if after (mtime p) (mtime cur) then AList.update (targetOf p) p best else best)"

definition path_key :: "run_log \<Rightarrow> string" where "path_key p = rl_dir p @ CHR ''/'' # rl_name p"

definition too_old :: "int option \<Rightarrow> run_log \<Rightarrow> bool" where
  "too_old cutoff p = (case cutoff of None \<Rightarrow> False | Some c \<Rightarrow> after (Some c) (mtime p))"

definition newestPerTarget :: "run_log list \<Rightarrow> int option \<Rightarrow> run_log list" where
  "newestPerTarget paths cutoff = sort_key path_key (map snd (fold newer_log (filter (\<lambda>p. \<not> too_old cutoff p) paths) []))"

subsection \<open>the gate command and the verdict of a bundle\<close>

text \<open>What \<open>openWS\<close> gives: the workspace's name, its directory, the files of its build and its targets.\<close>

record ws_view =
  wv_name :: string
  wv_root :: log_root
  wv_build :: "(string \<Rightarrow> string option) option"
  wv_built :: "string list"

definition log_text :: "run_log \<Rightarrow> (string \<times> string) option" where
  "log_text p = map_option (Pair (targetOf p)) (rf_text (rl_file p))"


record gate_args =
  ga_floor :: int
  ga_since :: int
  ga_min_stats :: int
  ga_logs :: "log_root option"

definition in_window :: "int \<Rightarrow> gate_args \<Rightarrow> run_log list \<Rightarrow> run_log list" where
  "in_window now a ps = (if ga_since a > 0 then filter (\<lambda>p. after (mtime p) (Some (now - ga_since a))) ps else ps)"

definition seen_ub :: "stats list \<Rightarrow> string list" where
  "seen_ub ss = concat (map (\<lambda>s. filter (\<lambda>f. f \<noteq> []) (map ub_function (st_ub s))) ss)"

text \<open>
  \<open>home\<close> says whether the repository was found, where the standing accept-list (\<open>None\<close> when it does not open) and
  the series of undefined-behaviour rounds are. The exit code, what the withdrawal says, and the series after.
\<close>

definition cmdGate :: "int \<Rightarrow> gate_args \<Rightarrow> ws_view option \<Rightarrow> bool \<Rightarrow> accepted list option \<Rightarrow> string gomap \<Rightarrow> ubsan_round list \<Rightarrow>
    int \<times> string list \<times> ubsan_round list" where
  "cmdGate now a ws home acc acks series =
     (case ws of
        None \<Rightarrow> (2, [], series)
      | Some w \<Rightarrow>
          if \<not> home then (2, [], series)
          else
            let accepted = (case acc of None \<Rightarrow> [] | Some rows \<Rightarrow> rows);
                all = gatherRunLogs (case ga_logs a of None \<Rightarrow> wv_root w | Some r \<Rightarrow> r);
                runLogs = in_window now a (newestPerTarget all None)
            in if length runLogs = 0 then (2, [], series)
               else
                 let ss = map slice (List.map_filter log_text runLogs);
                     vs = round_verdicts now (ga_floor a) acks (wv_build w) (wv_name w) accepted (ga_min_stats a) (wv_built w) ss;
                     seen = seen_ub ss;
                     accTokens = map ac_function (filter (\<lambda>r. InScope r (wv_name w)) accepted)
                 in (gate_exit vs, vd_detail (UBSanWithdrawals series (wv_name w) accTokens seen),
                     RecordUBSanRound series \<lparr>ur_ws = wv_name w, ur_log = ''gate'', ur_informative = False, ur_sites = seen\<rparr>))"

definition runGateQuiet :: "int \<Rightarrow> ws_view option \<Rightarrow> bool \<Rightarrow> accepted list option \<Rightarrow> string gomap \<Rightarrow> log_root option \<Rightarrow> int \<Rightarrow> int" where
  "runGateQuiet now ws home acc acks logRoot window =
     (case ws of
        None \<Rightarrow> 2
      | Some w \<Rightarrow>
          if \<not> home then 2
          else
            let accepted = (case acc of None \<Rightarrow> [] | Some rows \<Rightarrow> rows);
                runLogs = newestPerTarget (gatherRunLogs (case logRoot of None \<Rightarrow> wv_root w | Some r \<Rightarrow> r))
                  (if window > 0 then Some (now - window) else None)
            in if length runLogs = 0 then 2
               else
                 let round = map slice (List.map_filter log_text runLogs);
                     vs = concat (map (slice_verdicts now 10000 acks (wv_build w) (wv_name w) accepted) round) @
                          [FinalStats round 90, RoundComplete (map st_target round) (wv_built w)]
                 in if list_ex vd_failed vs then 1 else 0)"

text \<open>The bundle's first stage: the workspaces of the entries file, each with the verdict of its gates.\<close>

definition bundle_gates :: "(string \<Rightarrow> int) \<Rightarrow> string option \<Rightarrow> bool \<times> (string \<times> bool) list" where
  "bundle_gates quiet entries =
     (let wss = (case entries of None \<Rightarrow> [] | Some s \<Rightarrow> Go_Prelude.fields s);
          bad = filter (\<lambda>ws. quiet ws = 1 \<or> quiet ws = 2) wss
      in (bad = [], map (\<lambda>ws. (''gate:'' @ ws, False)) bad @ (if bad = [] then [(''gates'', True)] else [])))"

subsection \<open>the ratchet command\<close>






definition file_of :: "log_root \<Rightarrow> string \<Rightarrow> run_file" where
  "file_of r n = (case map_of (lr_files r) n of None \<Rightarrow> \<lparr>rf_mtime = None, rf_text = None\<rparr> | Some f \<Rightarrow> f)"

definition chosen_sweep :: "log_root \<Rightarrow> run_log list \<Rightarrow> int \<Rightarrow> string" where
  "chosen_sweep r perTarget rd =
     (let sweep = SweepLog (Some (map (\<lambda>(n, f). (n, rf_mtime f)) (lr_files r))) rd
      in if rd < 0 \<and> sweep \<noteq> [] \<and> length perTarget > 0 \<and> after (newest perTarget) (rf_mtime (file_of r sweep))
         then [] else sweep)"


text \<open>One line of the series and one of the history, as \<open>recordRound\<close> writes them.\<close>

record round_row =
  rw_ws :: string
  rw_round :: "int option"
  rw_log :: "string option"
  rw_execs :: "int gomap"
  rw_new_units :: "int gomap"
  rw_cov :: "(int \<times> int) option"
  rw_regime :: "(int \<times> int) option"

record move_row =
  mv_ws :: string
  mv_round :: "int option"
  mv_log :: "string option"
  mv_changes :: "change list"

datatype history_line = Moved move_row | Reseeded string string "(string \<times> int \<times> int) list"

record record_state =
  rs_baseline :: "baseline option"
  rs_series :: "round_row list"
  rs_history :: "history_line list"
  rs_reseeds :: "reseed_record list"



subsection \<open>after a sweep\<close>











subsection \<open>lowering a floor from the rounds on disk\<close>

text \<open>The three layouts of \<open>-since\<close>. The hour may have one digit, a fraction of the second is read to nine digits.\<close>

definition getnum :: "bool \<Rightarrow> string \<Rightarrow> (int \<times> string) option" where
  "getnum fixed s =
     (case s of
        c # d # r \<Rightarrow> if \<not> is_digit c then None else if is_digit d then Some (int (dec_val [c, d]), r)
                   else if fixed then None else Some (int (dec_val [c]), d # r)
      | [c] \<Rightarrow> if is_digit c \<and> \<not> fixed then Some (int (dec_val [c]), []) else None
      | [] \<Rightarrow> None)"

definition expect_char :: "char \<Rightarrow> string \<Rightarrow> string option" where
  "expect_char c s = (case s of d # r \<Rightarrow> if d = c then Some r else None | [] \<Rightarrow> None)"

definition fraction :: "string \<Rightarrow> int \<times> string" where
  "fraction s =
     (case s of
        c # d # r \<Rightarrow> if (c = CHR ''.'' \<or> c = CHR '','') \<and> is_digit d
           then let ds = takeWhile is_digit (d # r) in (int (dec_val (take 9 ds)) * 10 ^ (9 - min 9 (length ds)), dropWhile is_digit (d # r))
           else (0, s)
      | _ \<Rightarrow> (0, s))"

definition zone_offset :: "string \<Rightarrow> (int \<times> string) option" where
  "zone_offset s =
     (case s of
        [] \<Rightarrow> None
      | c # r \<Rightarrow>
          if c = CHR ''Z'' then Some (0, r)
          else if c \<noteq> CHR ''+'' \<and> c \<noteq> CHR ''-'' then None
          else Option.bind (getnum True r) (\<lambda>(h, r1). Option.bind (expect_char (CHR '':'') r1) (\<lambda>r2.
               Option.bind (getnum True r2) (\<lambda>(m, r3). if h > 24 \<or> m > 60 then None
                 else Some ((if c = CHR ''-'' then -1 else 1) * (h * 60 + m) * 60 * 1000000000, r3)))))"

definition parse_stamp :: "bool \<Rightarrow> string \<Rightarrow> int option" where
  "parse_stamp zoned s =
     Option.bind (parse_date (take 10 s)) (\<lambda>day. Option.bind (expect_char (CHR ''T'') (drop 10 s)) (\<lambda>r0.
     Option.bind (getnum False r0) (\<lambda>(h, r1). Option.bind (expect_char (CHR '':'') r1) (\<lambda>r2.
     Option.bind (getnum True r2) (\<lambda>(m, r3). Option.bind (expect_char (CHR '':'') r3) (\<lambda>r4.
     Option.bind (getnum True r4) (\<lambda>(se, r5).
       if h \<ge> 24 \<or> m \<ge> 60 \<or> se \<ge> 60 then None
       else let (fr, r6) = fraction r5; t = day + ((h * 60 + m) * 60 + se) * 1000000000 + fr
            in if zoned then Option.bind (zone_offset r6) (\<lambda>(off, r7). if r7 = [] then Some (t - off) else None)
               else if r6 = [] then Some t else None)))))))"

definition zero_time :: int where "zero_time = unix_days 1 1 1 * 24 * hour"

definition reseed_cut :: "string \<Rightarrow> int option" where
  "reseed_cut s =
     (if s = [] then None
      else case (case parse_stamp True s of Some t \<Rightarrow> Some t | None \<Rightarrow>
                 (case parse_stamp False s of Some t \<Rightarrow> Some t | None \<Rightarrow> parse_date s)) of
        None \<Rightarrow> None
      | Some t \<Rightarrow> if t = zero_time then None else Some t)"

definition round_execs :: "log_root \<Rightarrow> int option \<Rightarrow> string \<Rightarrow> int \<Rightarrow> int" where
  "round_execs r c target n =
     (let lg = SweepLog (Some (map (\<lambda>(n, f). (n, rf_mtime f)) (lr_files r))) n; f = file_of r lg
      in if lg = [] then 0
         else if c \<noteq> None \<and> (rf_mtime f = None \<or> after c (rf_mtime f)) then 0
         else case rf_text f of
                None \<Rightarrow> 0
              | Some text \<Rightarrow> (case map_of (parse_sweep text) target of None \<Rightarrow> 0 | Some st \<Rightarrow> ss_execs st))"

definition reseed_best :: "(string \<Rightarrow> log_root) \<Rightarrow> string \<Rightarrow> string \<Rightarrow> string \<Rightarrow> int" where
  "reseed_best tree wsDir target snc =
     fold (\<lambda>n out. let v = round_execs (tree wsDir) (reseed_cut snc) target n in if v > out then v else out)
       (AllRounds (Some (map (\<lambda>(n, f). (n, rf_mtime f)) (lr_files (tree wsDir))))) 0"

definition cmdReseed :: "string \<Rightarrow> string \<Rightarrow> string \<Rightarrow> (string \<Rightarrow> log_root) \<Rightarrow> bool \<Rightarrow> record_state \<Rightarrow> int \<times> record_state" where
  "cmdReseed target snc reason tree lock st =
     (if reason = [] then (2, st)
      else if \<not> lock then (2, st)
      else
        (case rs_baseline st of
           None \<Rightarrow> (2, st)
         | Some b \<Rightarrow>
             (case Reseed target snc reason (map (\<lambda>(ws, fl). (ws, ws)) (floors b)) (reseed_best tree) (b, rs_reseeds st) of
                (s', None) \<Rightarrow> (2, st)
              | ((b', rs'), Some changed) \<Rightarrow>
                  if length changed = 0 then (0, st)
                  else (0, st\<lparr>rs_baseline := Some b', rs_reseeds := rs',
                    rs_history := rs_history st @ [Reseeded target reason (map (\<lambda>c. (target, rc_from c, rc_to c)) changed)]\<rparr>))))"

subsection \<open>one log per target, the newest\<close>

definition pick :: "string \<Rightarrow> run_log \<Rightarrow> run_log option \<Rightarrow> run_log option" where
  "pick t p cur = (if targetOf p \<noteq> t then cur else (case cur of None \<Rightarrow> Some p | Some q \<Rightarrow> if after (mtime p) (mtime q) then Some p else cur))"

lemma best_of_target: "map_of (fold newer_log ps m) t = fold (pick t) ps (map_of m t)"
proof (induction ps arbitrary: m)
  case (Cons p ps)
  have "map_of (newer_log p m) t = pick t p (map_of m t)"
    by (auto simp: newer_log_def pick_def update_conv' split: option.split)
  with Cons show ?case by simp
qed simp

lemma best_keys: "distinct (map fst m) \<Longrightarrow> distinct (map fst (fold newer_log ps m))"
proof (induction ps arbitrary: m)
  case (Cons p ps)
  have "distinct (map fst (newer_log p m))"
    using Cons.prems by (simp add: newer_log_def distinct_update split: option.split)
  with Cons.IH show ?case by simp
qed simp

lemma pick_key: "fold (pick t) ps None = Some p \<Longrightarrow> p \<in> set ps \<and> targetOf p = t"
proof (induction ps rule: rev_induct)
  case (snoc x ps)
  then show ?case by (auto simp: pick_def split: if_splits option.splits)
qed simp

lemma after_trans: "after a b \<Longrightarrow> \<not> after c b \<Longrightarrow> after a c"
  by (auto simp: after_def split: option.splits)

lemma not_after_trans: "\<not> after a b \<Longrightarrow> \<not> after b c \<Longrightarrow> \<not> after a c"
  by (auto simp: after_def split: option.splits)

lemma after_irrefl [simp]: "\<not> after a a"
  by (simp add: after_def split: option.split)

lemma after_asym: "after a b \<Longrightarrow> \<not> after b a"
  by (auto simp: after_def split: option.splits)

text \<open>The reference: the first log of the target that no other log of it is after.\<close>

definition newest_of :: "string \<Rightarrow> run_log list \<Rightarrow> run_log option" where
  "newest_of t ps = (let mine = filter (\<lambda>p. targetOf p = t) ps in find (\<lambda>p. list_all (\<lambda>q. \<not> after (mtime q) (mtime p)) mine) mine)"

lemma find_last:
  "find P (xs @ [x]) = (case find P xs of None \<Rightarrow> if P x then Some x else None | Some y \<Rightarrow> Some y)"
  by (induction xs) auto

lemma find_newest:
  assumes "mine \<noteq> []"
  shows "\<exists>p. find (\<lambda>p. list_all (\<lambda>q. \<not> after (mtime q) (mtime p)) mine) mine = Some p"
proof -
  have "\<exists>p \<in> set mine. list_all (\<lambda>q. \<not> after (mtime q) (mtime p)) mine"
    using assms
  proof (induction mine rule: rev_nonempty_induct)
    case (snoc x xs)
    then obtain p where p: "p \<in> set xs" "list_all (\<lambda>q. \<not> after (mtime q) (mtime p)) xs" by auto
    show ?case
    proof (cases "after (mtime x) (mtime p)")
      case True
      then have "list_all (\<lambda>q. \<not> after (mtime q) (mtime x)) (xs @ [x])"
        using p(2) by (auto simp: list_all_iff dest: after_trans after_asym)
      then show ?thesis by auto
    next
      case False
      with p show ?thesis by (intro bexI [of _ p]) auto
    qed
  qed simp
  then show ?thesis by (metis (no_types, lifting) find_None_iff option.exhaust)
qed

lemma newest_of_snoc:
  "newest_of t (ps @ [x]) = pick t x (newest_of t ps)"
proof (cases "targetOf x = t")
  case True
  let ?m = "filter (\<lambda>p. targetOf p = t) ps"
  let ?N = "\<lambda>m p. list_all (\<lambda>q. \<not> after (mtime q) (mtime p)) m"
  have e: "newest_of t (ps @ [x]) = find (?N (?m @ [x])) (?m @ [x])" "newest_of t ps = find (?N ?m) ?m"
    using True by (simp_all add: newest_of_def Let_def)
  show ?thesis
  proof (cases "?m = []")
    case True
    then show ?thesis using \<open>targetOf x = t\<close> by (simp add: e pick_def)
  next
    case False
    then obtain p where p: "find (?N ?m) ?m = Some p" using find_newest by blast
    then have N: "?N ?m p" "p \<in> set ?m" unfolding find_Some_iff by (blast intro: nth_mem)+
    have "find (?N (?m @ [x])) ?m = (if after (mtime x) (mtime p) then None else Some p)"
    proof (cases "after (mtime x) (mtime p)")
      case True
      have "\<not> ?N (?m @ [x]) q" if "q \<in> set ?m" for q
        using True N that after_trans [of "mtime x" "mtime p" "mtime q"] by (auto simp: list_all_iff)
      then have "find (?N (?m @ [x])) ?m = None" unfolding find_None_iff by blast
      with True show ?thesis by simp
    next
      case False
      have "?N (?m @ [x]) q = (?N ?m q)" if "q \<in> set ?m" for q
      proof
        assume q: "?N ?m q"
        then have "\<not> after (mtime p) (mtime q)" using N by (auto simp: list_all_iff)
        with q False show "?N (?m @ [x]) q" using not_after_trans by (auto simp: list_all_iff)
      qed simp
      then have "find (?N (?m @ [x])) ?m = find (?N ?m) ?m" by (rule find_cong [OF refl])
      with p False show ?thesis by simp
    qed
    then show ?thesis using p N True after_trans [of "mtime x" "mtime p"] \<open>targetOf x = t\<close>
      by (auto simp: e find_last pick_def list_all_iff dest: after_asym)
  qed
qed (simp add: newest_of_def pick_def)

lemma newest_of_fold: "fold (pick t) ps None = newest_of t ps"
  by (induction ps rule: rev_induct) (simp_all add: newest_of_snoc, simp add: newest_of_def)

lemma key_filter:
  "distinct (map fst m) \<Longrightarrow> filter (\<lambda>kv. fst kv = k) m = (case map_of m k of None \<Rightarrow> [] | Some v \<Rightarrow> [(k, v)])"
proof (induction m)
  case (Cons e m)
  show ?case
  proof (cases "fst e = k")
    case True
    then have "k \<notin> fst ` set m" using Cons.prems by simp
    then have "filter (\<lambda>kv. fst kv = k) m = []" unfolding filter_empty_conv by (metis image_eqI)
    with True show ?thesis by (cases e) simp
  next
    case False
    then show ?thesis using Cons by (cases e) simp
  qed
qed simp

lemma best_targets: "(k, p) \<in> set (fold newer_log ps []) \<Longrightarrow> targetOf p = k"
  using best_of_target [of ps "[]" k] best_keys [of "[]" ps] pick_key [of k ps p] by (simp add: map_of_is_SomeI)

text \<open>
  C20: One log per target, the newest. Whatever logs are gathered and whatever the window, the logs a round
  is judged from hold for every target exactly the log that the reference names, the first of its logs in
  the window that none of them is after, and no log at all of a target without one; they come in the order
  of their paths.
\<close>

theorem one_newest_log_per_target:
  "filter (\<lambda>p. targetOf p = t) (newestPerTarget ps c) =
     (case newest_of t (filter (\<lambda>p. \<not> too_old c p) ps) of None \<Rightarrow> [] | Some p \<Rightarrow> [p]) \<and>
   sorted (map path_key (newestPerTarget ps c))"
proof -
  let ?ps = "filter (\<lambda>p. \<not> too_old c p) ps" and ?m = "fold newer_log (filter (\<lambda>p. \<not> too_old c p) ps) []"
  have "filter (\<lambda>p. targetOf p = t) (map snd ?m) = map snd (filter (\<lambda>kv. fst kv = t) ?m)"
    unfolding filter_map by (rule arg_cong [where f = "map snd"], rule filter_cong) (auto dest: best_targets)
  also have "\<dots> = (case newest_of t ?ps of None \<Rightarrow> [] | Some p \<Rightarrow> [p])"
    using key_filter [OF best_keys [of "[]" ?ps], of t] best_of_target [of ?ps "[]" t]
    by (simp add: newest_of_fold split: option.split)
  finally show ?thesis
    by (simp add: newestPerTarget_def filter_sort split: option.split)
qed

subsection \<open>the verdict that ships is the gate's\<close>

lemma pick_simps:
  "pick t x None = (if targetOf x = t then Some x else None)"
  "pick t x (Some q) = (if targetOf x = t \<and> after (mtime x) (mtime q) then Some x else Some q)"
  by (simp_all add: pick_def)

lemma recent_pick:
  fixes c :: "int option" and t :: string
  defines "old \<equiv> too_old c"
  shows "fold (pick t) (filter (\<lambda>p. \<not> old p) ps) None =
     (case fold (pick t) ps None of None \<Rightarrow> None | Some p \<Rightarrow> if old p then None else Some p)"
proof (induction ps rule: rev_induct)
  case (snoc x ps)
  have older: "old q \<and> \<not> after (mtime p) (mtime q) \<Longrightarrow> old p" "old q \<and> after (mtime q) (mtime p) \<Longrightarrow> old p" for p q
    by (auto simp: old_def too_old_def after_def split: option.splits)
  show ?case
  proof (cases "fold (pick t) ps None")
    case None
    then show ?thesis using snoc by (simp add: pick_simps)
  next
    case (Some y)
    then show ?thesis using snoc older(1) [of y x] older(2) [of x y]
      by (cases "targetOf x = t"; cases "old x"; cases "old y"; cases "after (mtime x) (mtime y)") (simp_all add: pick_simps)
  qed
qed simp

lemma window_first_or_last:
  "mset (newestPerTarget ps c) = mset (filter (\<lambda>p. \<not> too_old c p) (newestPerTarget ps None))"
proof -
  let ?a = "fold newer_log (filter (\<lambda>p. \<not> too_old c p) ps) []" and ?b = "fold newer_log ps []"
  have k: "wf_map ?a" "wf_map ?b" by (simp_all add: best_keys)
  have "set ?a = set (filter (\<lambda>kv. \<not> too_old c (snd kv)) ?b)"
  proof (rule set_eqI)
    fix kv :: "string \<times> run_log"
    obtain t p where kv: "kv = (t, p)" by (cases kv)
    have "(t, p) \<in> set ?a \<longleftrightarrow> map_of ?a t = Some p" "(t, p) \<in> set ?b \<longleftrightarrow> map_of ?b t = Some p"
      using k by simp_all
    then show "kv \<in> set ?a \<longleftrightarrow> kv \<in> set (filter (\<lambda>kv. \<not> too_old c (snd kv)) ?b)"
      using recent_pick [where c = c and t = t and ps = ps] by (auto simp: kv best_of_target split: option.splits if_splits)
  qed
  moreover have "distinct ?a" "distinct ?b" using k by (simp_all add: distinct_map)
  then have "distinct ?a" "distinct (filter (\<lambda>kv. \<not> too_old c (snd kv)) ?b)" by simp_all
  ultimately have "mset ?a = mset (filter (\<lambda>kv. \<not> too_old c (snd kv)) ?b)"
    using set_eq_iff_mset_eq_distinct by blast
  then have "mset (map snd ?a) = mset (filter (\<lambda>p. \<not> too_old c p) (map snd ?b))"
    by (simp add: filter_map comp_def)
  moreover have "filter (\<lambda>p. \<not> too_old None p) ps = ps" by (simp add: too_old_def)
  ultimately show ?thesis by (simp add: newestPerTarget_def)
qed

lemma harness_sound_mset: "mset ls = mset ls' \<Longrightarrow> harness_sound fl acks dir m built ls = harness_sound fl acks dir m built ls'"
proof -
  assume e: "mset ls = mset ls'"
  then have s: "set ls = set ls'" "length ls = length ls'" using mset_eq_setD mset_eq_length by blast+
  have a: "(ls = []) = (ls' = [])" using s(1) by auto
  have b: "length (filter (\<lambda>l. \<not> silent_slice (slice l)) ls) = length (filter (\<lambda>l. \<not> silent_slice (slice l)) ls')"
    by (rule mset_eq_length, unfold mset_filter, simp only: e)
  show ?thesis by (simp only: harness_sound_def s a b)
qed

lemma nothing_new_mset: "mset ls = mset ls' \<Longrightarrow> nothing_new ws acc ls = nothing_new ws acc ls'"
  using mset_eq_setD [of ls ls'] by (simp add: nothing_new_def)

text \<open>The runs a verdict is made of: the texts of the logs that open, under the names of their targets.\<close>

lemma quiet_exit:
  assumes "length (newestPerTarget (gatherRunLogs (case logRoot of None \<Rightarrow> wv_root w | Some r \<Rightarrow> r))
      (if window > 0 then Some (now - window) else None)) \<noteq> 0"
    and "ls = List.map_filter log_text (newestPerTarget (gatherRunLogs (case logRoot of None \<Rightarrow> wv_root w | Some r \<Rightarrow> r))
      (if window > 0 then Some (now - window) else None))"
    and "accepted = (case acc of None \<Rightarrow> [] | Some rows \<Rightarrow> rows)"
  shows "runGateQuiet now (Some w) True acc acks logRoot window =
    (if harness_sound 10000 acks (wv_build w) 90 (wv_built w) ls \<and> nothing_new (wv_name w) accepted ls then 0 else 1)"
proof -
  let ?vs = "concat (map (slice_verdicts now 10000 acks (wv_build w) (wv_name w) accepted) (map slice ls)) @
     [FinalStats (map slice ls) 90, RoundComplete (map st_target (map slice ls)) (wv_built w)]"
  let ?r = "round_verdicts now 10000 acks (wv_build w) (wv_name w) accepted 90 (wv_built w) (map slice ls)"
  have "list_ex vd_failed ?vs = list_ex vd_failed ?r"
    by (simp add: round_verdicts_def round_complete_failed)
  also have "\<dots> = (gate_exit ?r \<noteq> 0)" by (auto simp: gate_exit_iff list_ex_iff)
  also have "\<dots> = (\<not> (harness_sound 10000 acks (wv_build w) 90 (wv_built w) ls \<and> nothing_new (wv_name w) accepted ls))"
    by (simp add: gate_exit_round)
  finally have e: "list_ex vd_failed ?vs = (\<not> (harness_sound 10000 acks (wv_build w) 90 (wv_built w) ls \<and> nothing_new (wv_name w) accepted ls))" .
  show ?thesis
    using assms(1) unfolding runGateQuiet_def Let_def option.case if_False not_True_eq_False assms(2,3) [symmetric] e by simp
qed

lemma gate_code:
  assumes "length logs \<noteq> 0" and "logs = in_window now a (newestPerTarget (gatherRunLogs (case ga_logs a of None \<Rightarrow> wv_root w | Some r \<Rightarrow> r)) None)"
    and "ls = List.map_filter log_text logs" and "accepted = (case acc of None \<Rightarrow> [] | Some rows \<Rightarrow> rows)"
  shows "fst (cmdGate now a (Some w) True acc acks series) =
    (if harness_sound (ga_floor a) acks (wv_build w) (ga_min_stats a) (wv_built w) ls
     then if nothing_new (wv_name w) accepted ls then 0 else 3 else 1)"
  using assms(1) unfolding cmdGate_def Let_def option.case if_False not_True_eq_False assms(2-4) [symmetric]
  by (simp add: gate_exit_round)

lemma map_filter_mset: "mset (List.map_filter f xs) = image_mset the (filter_mset (\<lambda>y. y \<noteq> None) (image_mset f (mset xs)))"
  by (induction xs) (auto simp: List.map_filter_simps split: option.split)

text \<open>
  C5: The verdict that ships in a bundle is the gate's. For every workspace, whatever it logged, with the
  standing floor and share of final stats and any window, the quiet run of the gates passes exactly when the
  gate command would exit 0 and could not judge exactly when it would not; so it fails on a finding as on a
  broken harness. It does not matter that one takes the newest logs and then the window and the other the
  window first, as long as no log was written exactly where the window begins.
\<close>

theorem bundle_verdict_is_the_gates:
  assumes "0 < window" and "logRoot = (case logs of None \<Rightarrow> wv_root w | Some r \<Rightarrow> r)"
    and "\<forall>p \<in> set (gatherRunLogs logRoot). mtime p \<noteq> Some (now - window)"
  shows "runGateQuiet now (Some w) home acc acks logs window =
    (let code = fst (cmdGate now \<lparr>ga_floor = 10000, ga_since = window, ga_min_stats = 90, ga_logs = logs\<rparr> (Some w) home acc acks series)
     in if code = 3 then 1 else code)"
proof (cases home)
  case True
  let ?a = "\<lparr>ga_floor = 10000, ga_since = window, ga_min_stats = 90, ga_logs = logs\<rparr>"
  let ?ps = "gatherRunLogs logRoot"
  let ?q = "newestPerTarget ?ps (Some (now - window))" and ?g = "in_window now ?a (newestPerTarget ?ps None)"
  have "set (newestPerTarget ?ps None) \<subseteq> set ?ps"
    using pick_key by (auto simp: newestPerTarget_def too_old_def best_of_target dest!: map_of_is_SomeI [OF best_keys [of "[]"], simplified])
  then have ne: "mtime p \<noteq> Some (now - window)" if "p \<in> set (newestPerTarget ?ps None)" for p
    using assms(3) that by blast
  have "\<not> too_old (Some (now - window)) p \<longleftrightarrow> after (mtime p) (Some (now - window))"
    if "p \<in> set (newestPerTarget ?ps None)" for p
    using ne [OF that] by (cases "mtime p") (auto simp: too_old_def after_def)
  then have "filter (\<lambda>p. \<not> too_old (Some (now - window)) p) (newestPerTarget ?ps None) = ?g"
    using assms(1) by (simp add: in_window_def cong: filter_cong)
  then have m: "mset ?q = mset ?g" using window_first_or_last by metis
  then have l: "(length ?q = 0) = (length ?g = 0)" using mset_eq_length by metis
  have ms: "mset (List.map_filter log_text ?q) = mset (List.map_filter log_text ?g)" unfolding map_filter_mset m ..
  show ?thesis
  proof (cases "length ?q = 0")
    case True
    then show ?thesis using l assms(1) by (simp add: runGateQuiet_def cmdGate_def Let_def assms(2))
  next
    case False
    then have g: "length ?g \<noteq> 0" using l by blast
    show ?thesis
      using quiet_exit [where logRoot = logs and w = w and window = window and now = now, OF _ refl refl]
        gate_code [where w = w and acc = acc and acks = acks and series = series, OF g _ refl refl] False assms(1,2) \<open>home\<close> harness_sound_mset [OF ms] nothing_new_mset [OF ms] by (simp add: Let_def)
  qed
qed (simp add: runGateQuiet_def cmdGate_def Let_def)

definition dead_log :: run_file where "dead_log = \<lparr>rf_mtime = Some 5, rf_text = Some []\<rparr>"

definition dead_root :: log_root where
  "dead_root = \<lparr>lr_name = ''w'', lr_artifacts = [(''a_fuzzer'', [(''run-1.log'', dead_log)])], lr_files = []\<rparr>"

definition dead_ws :: ws_view where
  "dead_ws = \<lparr>wv_name = ''w'', wv_root = dead_root, wv_build = None, wv_built = [''a_fuzzer'']\<rparr>"

lemma dead_gathered: "map rl_file (gatherRunLogs dead_root) = [dead_log]"
  by code_simp

theorem bundle_verdict_is_the_gates_witness:
  "runGateQuiet 100 (Some dead_ws) True None [] None 50 = 2 \<and>
   fst (cmdGate 100 \<lparr>ga_floor = 10000, ga_since = 50, ga_min_stats = 90, ga_logs = None\<rparr> (Some dead_ws) True None [] []) = 2"
proof -
  have "mtime p = Some 5" if "p \<in> set (gatherRunLogs dead_root)" for p
  proof -
    have "rl_file p \<in> set (map rl_file (gatherRunLogs dead_root))" using that by simp
    then show ?thesis unfolding dead_gathered by (simp add: mtime_def dead_log_def)
  qed
  then have r: "\<forall>p \<in> set (gatherRunLogs dead_root). mtime p \<noteq> Some (100 - 50)" by simp
  have c: "fst (cmdGate 100 \<lparr>ga_floor = 10000, ga_since = 50, ga_min_stats = 90, ga_logs = None\<rparr> (Some dead_ws) True None [] []) = 2"
    by code_simp
  have root: "dead_root = (case None of None \<Rightarrow> wv_root dead_ws | Some r \<Rightarrow> r)" by (simp add: dead_ws_def)
  show ?thesis
    using bundle_verdict_is_the_gates [OF _ root r, where home = True and acc = None and acks = "[]" and series = "[]"] c
    by (simp add: Let_def)
qed

text \<open>A bundle whose list of workspaces does not read claims that no gate failed.\<close>

lemma no_entries_passes: "bundle_gates quiet None = (True, [(''gates'', True)])"
  by (simp add: bundle_gates_def)

text \<open>A compressed log of a soak counts for a target of another name.\<close>

lemma compressed_soak_target:
  "map targetOf (gatherRunLogs \<lparr>lr_name = ''w'', lr_artifacts = [], lr_files = [(''soak-a_fuzzer.log.gz'', dead_log)]\<rparr>) = [''a_fuzzer.log.gz'']"
  by code_simp

subsection \<open>a round is judged before it raises anything\<close>




























text \<open>Asked for a round that has no sweep log, the ratchet judges the newest run logs of any round.\<close>

lemma named_round_falls_through:
  "chosen_sweep dead_root (gatherRunLogs dead_root) 7 = []"
  by code_simp

text \<open>A moment that no layout accepts is no bound: every round on disk counts.\<close>

lemma unread_since_is_no_bound: "reseed_cut ''2026-08-22T23:5'' = None"
  by code_simp

lemma read_since: "reseed_cut ''2026-08-22'' \<noteq> None \<and> reseed_cut ''2026-08-22T3:05:00'' \<noteq> None \<and> reseed_cut ''2026-08-22T23:05:00.5+02:00'' \<noteq> None"
  by code_simp

end
