(* ===== verification/Spec2Isabelle.thy ===== *)
theory Spec2Isabelle
  imports Ratchet Sweep_Logs Trajectory Expect Minimize Soak Campaign
    Census Scenario_Gen Scenario_Run Workspace Wslock
    Ratchet_Analysis Reverify Triage_Parse Round_Gates
begin

text \<open>
  The decisions of pg-fuzz (\<open>src/go\<close>): a driver that fuzzes PostgreSQL in rounds of short slices, reads
  what the slices logged, and refuses to let the numbers go backwards unnoticed.

  \<^bold>\<open>How the program works, and which theory models which part.\<close>

  A \<^emph>\<open>slice\<close> is one target in one container for so many seconds. \<open>Fuzz\<close> (\<open>internal/fuzz/fuzz.go\<close>,
  \<open>reap.go\<close>, \<open>preflight.go\<close>) holds the container's command line and name, the guard that stops a slice
  at the disk floor or past its budget, the harvest of reproducers, the compression of the log and the
  slice's result (\<open>Run\<close>), and the sweep over all targets of a workspace (\<open>Sweep\<close>). \<open>Campaign\<close>
  (\<open>internal/campaign/run.go\<close>, \<open>order.go\<close>, \<open>campaign.go\<close>) orders targets by productivity, turns a sweep
  into rows of the series and a call of the gates (\<open>run_one\<close>, from \<open>runOne\<close>), drives rounds of
  workspaces, so many at once, until a deadline under one of three policies (\<open>Campaign_Run\<close>, from \<open>Run\<close>: each
  check, the wait for a free place behind it and the start), and appends to
  and reads the series file. \<open>Soak\<close> (\<open>internal/fuzz/soak.go\<close>) is the other schedule, a rolling pool of
  targets refilled until the deadline.

  A finished slice leaves a log. \<open>Logs\<close> (\<open>internal/logs/logs.go\<close>) parses one log line by line into
  \<open>stats\<close>; \<open>Sweep_Logs\<close> (\<open>sweep.go\<close>) parses the console log of a whole sweep per target; \<open>Trajectory\<close>
  (\<open>trajectory.go\<close>) summarises how coverage moved within a slice. \<open>Line_Machine\<close> holds what every
  line-driven parser here promises.

  The gates read what the logs say. \<open>Ratchet\<close> (\<open>internal/ratchet/ratchet.go\<close>, \<open>record.go\<close>) keeps floors
  of executions and rates per target and regime, judges a round against them (\<open>check\<close>) and raises them
  (\<open>update\<close>); \<open>Gate\<close> (\<open>internal/gate\<close>, the gate command in \<open>cmd/pgfuzz/main.go\<close>) holds the checks that fail
  a round, the accept-list and the withdrawal of accepted rows; \<open>Expect\<close> (\<open>internal/expect\<close>) is the
  positive control. \<open>Ratchet_Analysis\<close> (\<open>analysis.go\<close>, \<open>logs.go\<close>) holds the reports over the recorded series,
  the detector of shifts that stay (\<open>Cusum\<close>), the one command that lowers a floor (\<open>Reseed\<close>) and the choice
  of a sweep log by its round. \<open>Round_Gates\<close> (\<open>cmd/pgfuzz/main.go\<close>) composes them: the logs a round is judged
  from, the gate command and the verdict a bundle ships, the ratchet's check and update with the records
  they leave, what the driver runs after a sweep, and the reseed command. \<open>Plateau\<close> (\<open>internal/plateau\<close>) reads live logs incrementally, measures growth over a
  window and decides when a campaign has converged.

  The corpus is kept within bounds. \<open>Corpus_Cap\<close> (\<open>internal/corpus/autocap.go\<close>, \<open>internal/fuzz/budget.go\<close>)
  decides which targets to cap and tunes the time budgets, \<open>Minimize\<close> (\<open>internal/corpus/minimize.go\<close>) merges
  and caps a corpus and records removals, which the plateau watch credits back.

  What was found is counted, and what holds without a crash is checked by the program itself. \<open>Census\<close>
  (\<open>internal/census/census.go\<close>) streams logs through the rules that give a line its signature and counts the
  signatures per campaign and workspace. \<open>Scenario\<close> (\<open>internal/scenario\<close>: \<open>scenario.go\<close>,
  \<open>render.go\<close>, \<open>step.go\<close>, \<open>probe.go\<close>, \<open>transient.go\<close>) holds the tables of the stateful scenarios, the SQL that
  sets them up, the plan of every step and the probes; \<open>Scenario_Gen\<close> (\<open>generate.go\<close>) draws scenarios from a
  random source, in the state monad; \<open>Scenario_Run\<close> (\<open>internal/incontainer/scenario.go\<close>, \<open>driver.go\<close>) steps a
  scenario through a server, moves the expected counts by what the plans declare and reports to the host.
  A crash is kept as a finding, a directory with a write-up. \<open>Repro\<close> (\<open>internal/repro\<close>) runs a recorded input
  and judges the result, and sorts all artifacts of a workspace by signature; \<open>Findings\<close> (\<open>internal/findings\<close>)
  scans the write-ups, reads their fields and gates on the missing ones; \<open>Reverify\<close> (\<open>reverify.go\<close> and its
  command) re-runs the recorded inputs and says which findings are gone; \<open>Triage\<close> (\<open>internal/triage\<close>:
  \<open>model.go\<close>, \<open>scope.go\<close>, \<open>lift.go\<close>) lists findings and signatures nothing explains, and \<open>Triage_Parse\<close>
  (\<open>parse.go\<close>) picks the one block of a write-up a maintainer should run.

  \<open>Workspace\<close> (\<open>internal/workspace/workspace.go\<close>, \<open>internal/inventory/drift.go\<close>) reads and sets the
  configuration file of a workspace and compares what two editions declare; \<open>Wslock\<close>
  (\<open>internal/wslock\<close>) is the lock that keeps two commands off one workspace, a step relation over processes,
  open descriptions and children that inherit them.

  \<open>Go_Prelude\<close>, \<open>Go_Map\<close>, \<open>Go_Regexp\<close>, \<open>Go_Float\<close>, \<open>Go_Time\<close> and \<open>Go_Glob\<close> model what the program uses of
  Go: byte strings and their functions, decimal numbers with the range check of \<open>strconv.Atoi\<close>, maps,
  backtracking regular expressions with groups, binary64 arithmetic with rounding to even over the
  rationals, durations and dates, and \<open>path.Match\<close>.

  \<^bold>\<open>Reading a definition against the code.\<close> Operations keep the names of the Go functions where Isabelle
  allows it. A struct is a record, a map an association list with distinct keys, a slice a list, an error
  a value. What docker, the clock, the file system and the context answer is data: a record of
  observations (\<open>slice_env\<close>, \<open>sweep_env\<close>, \<open>min_env\<close>, \<open>round_env\<close>, \<open>tick\<close>), a sequence of clock readings with the
  time each workspace takes, which commands could be started and which files written, or a step that
  may happen at any moment (\<open>expire\<close>, \<open>cancel\<close> in \<open>sched_step\<close>, \<open>killed\<close> in \<open>lock_step\<close>). The server that
  answers a scenario's statements, the random source its generator draws from and the natural logarithm are
  parameters; the verdict of a run of a recorded input is a function of \<open>run_env\<close>, what docker and the file
  system answered. What the code does with each answer, every
  early return and failed call included, is modelled.

  \<^bold>\<open>Interfaces.\<close> \<open>keyed_store\<close> and \<open>tally_store\<close> (\<open>Go_Map\<close>) are the laws of maps and counters that folds over
  them rest on, \<open>line_machine\<close> what a parser that eats a log line by line promises, \<open>record_book\<close> (\<open>Ratchet\<close>)
  what keeping records promises, for rates and for execution floors, \<open>gate\<close> (\<open>Gate\<close>) what a check of the
  round promises its caller, \<open>rotator\<close> (\<open>Fuzz\<close>) what a rotation by the round number promises, for the
  targets of a sweep and the workspaces of a campaign. Each is interpreted on the model's definitions.

  \<^bold>\<open>What is shown.\<close> Floors: an update refines an abstract book of records, never loses a floor, and a check
  fails exactly on unacknowledged falls below a comparable floor. Evidence: a sweep runs every target
  whatever one of them does, a slice loses no reproducer that could be moved and never its log, a round is judged exactly when
  every target ran whole, by the gates on the newest log of each target and before it raises anything, the
  verdict that ships is the gate's, and minimising loses no input. Schedules: the campaign bounds under each
  policy what is started and how late, and ends, the soak never runs a target twice at once, starves nobody and ends; rotations are fair. Logs:
  parsed figures are the sums and maxima over the lines they come from, reading in pieces agrees with one
  scan, and no figure is lost by reading on. Corpus and budgets: what is written is read back, tuning moves
  budgets the right way and within bounds, capping is invisible to the watch when the removal is recorded, and the watch ends on a plateau exactly
  after the required run of samples in which nothing grew. Scenarios: a generated scenario is well formed and
  asks nothing its tables cannot take, a plan declares the rows its statements move, three apart, and a run against a server
  that does what it was told reports nothing lost. Counting: every signature of every log is counted once,
  and a leak only under the report that names it. Workspaces: a key that is set is read back with every other
  line untouched, and only one family of processes works on a workspace, whoever is killed. Findings: a sweep
  reports every reproducer exactly once, a finding is called gone only on runs that were clean, the scan and the
  triage list agree, the first field of a name that is written is read back, and the lift lists what nothing explains. Shifts:
  one bad round is never reported, five are. A reseed changes what it says and nothing else, so where a
  rate was measured and has a floor the judgement is what it was.

  \<^bold>\<open>Bounds and fuel.\<close> Repetition in a regular expression recurses on the rest of the text. The campaign's
  rounds take fuel, one round per clock reading, and \<open>campaign_ends\<close> shows that this is enough; a schedule of
  the soak is a relation and \<open>soak_terminates\<close> bounds its length. Counters are mathematical integers: a sum of
  counts that exceeds 64 bits is outside the model, while single numbers read from a log are range-checked
  as in \<open>strconv\<close>. Byte sizes and durations that the code clamps or divides are written out.

  \<^bold>\<open>Not modelled.\<close> Opening, walking and decompressing files, the line limit of the scanner, JSON encoding
  (a row is a line; what the reader makes of it is a parameter), progress output, locks that only order
  writes, and the parts of the program that start processes or render pages: the builds, the half inside the
  container, the archive, the coverage measurement, the reports and the dashboard. The reports over the series
  and the triage are their figures, not their wording. Also left out: the sealed manifests of a campaign and
  the cached reading of its series, the watchdog, the tidying of old logs and the breakdown of coverage by
  component, which are walks over files or feed pages only.
\<close>

end
